(* ===== verification/Prelude.thy ===== *)
theory Prelude
  imports Main "HOL-Library.AList" "HOL-Library.Sublist" "HOL-Library.Product_Lexorder" "HOL-Library.List_Lexorder"
begin

text \<open>
  What the component theories share: the byte and string types of the Go source, its
  64-bit unsigned arithmetic with the wrap-around written out, slices of byte sequences,
  the binary search of \<^verbatim>\<open>sort.Search\<close>, big-endian integer codecs, and the two interfaces
  that several components implement (a framed codec and a transition system).
\<close>

section \<open>Types of the source\<close>

text \<open>
  A Go \<^verbatim>\<open>byte\<close> is a HOL \<^typ>\<open>char\<close> (both hold 0 to 255), a \<^verbatim>\<open>[]byte\<close> or \<^verbatim>\<open>string\<close> is a list of
  them: Go strings are byte sequences, so \<^const>\<open>length\<close> is Go's \<^verbatim>\<open>len\<close>.
\<close>

type_synonym byte = char
type_synonym bytes = "char list"

named_theorems u64 \<open>evaluation of 64-bit arithmetic within its range\<close>
named_theorems slices \<open>algebra of slices\<close>

text \<open>
  A Go map is an association list read with \<^const>\<open>map_of\<close> and written with \<^const>\<open>AList.update\<close> and
  \<^const>\<open>AList.delete\<close>; proofs keep to the lookup view.
\<close>

declare map_of_eq_Some_iff [simp del] map_of_eq_None_iff [simp del]

section \<open>64-bit unsigned arithmetic\<close>

text \<open>A Go \<^verbatim>\<open>uint64\<close> is a natural number below \<open>u64_size\<close>; sums and differences wrap.\<close>

definition u64_size :: nat where
  "u64_size = 2 ^ 64"

definition u64_max :: nat where
  "u64_max = u64_size - 1"

definition u64_add :: "nat \<Rightarrow> nat \<Rightarrow> nat" where
  "u64_add a b = (a + b) mod u64_size"

definition u64_sub :: "nat \<Rightarrow> nat \<Rightarrow> nat" where
  "u64_sub a b = (a + (u64_size - b mod u64_size)) mod u64_size"

lemma u64_size_pos [simp]: "0 < u64_size"
  by (simp add: u64_size_def)

lemma u64_add_exact [u64]: "a + b < u64_size \<Longrightarrow> u64_add a b = a + b"
  by (simp add: u64_add_def)

lemma u64_sub_exact [u64]: "b \<le> a \<Longrightarrow> a < u64_size \<Longrightarrow> u64_sub a b = a - b"
proof -
  assume ba: "b \<le> a" and a: "a < u64_size"
  then have "a + (u64_size - b mod u64_size) = (a - b) + u64_size" by simp
  with a show ?thesis by (simp add: u64_sub_def)
qed

lemma u64_sub_wraps: "a < b \<Longrightarrow> b < u64_size \<Longrightarrow> u64_sub a b = u64_size - (b - a)"
proof -
  assume ab: "a < b" and b: "b < u64_size"
  then have "a + (u64_size - b) < u64_size" by simp
  with ab b show ?thesis by (simp add: u64_sub_def)
qed

lemma u64_add_less [simp]: "u64_add a b < u64_size"
  by (simp add: u64_add_def)

lemma u64_sub_less [simp]: "u64_sub a b < u64_size"
  by (simp add: u64_sub_def)

lemma u64_sub_eq_iff:
  assumes "a < u64_size" and "b < u64_size" and "c < u64_size"
  shows "u64_sub a b = c \<longleftrightarrow> a = u64_add b c"
proof (cases "b \<le> a")
  case True
  then have "u64_sub a b = a - b" using assms by (simp add: u64)
  moreover have "a = u64_add b c \<longleftrightarrow> a = b + c"
  proof (cases "b + c < u64_size")
    case False
    then have "u64_add b c = b + c - u64_size"
      using assms by (simp add: u64_add_def mod_if)
    then show ?thesis using assms True False by auto
  qed (simp add: u64)
  ultimately show ?thesis using True by auto
next
  case False
  then have "u64_sub a b = u64_size - (b - a)" using assms by (simp add: u64_sub_wraps)
  moreover have "a = u64_add b c \<longleftrightarrow> a + u64_size = b + c"
  proof (cases "b + c < u64_size")
    case True
    then show ?thesis using False by (auto simp: u64)
  next
    case F: False
    then have "u64_add b c = b + c - u64_size"
      using assms by (simp add: u64_add_def mod_if)
    then show ?thesis using F by auto
  qed
  ultimately show ?thesis using False assms by auto
qed

lemma u64_max_less: "a \<le> u64_max \<longleftrightarrow> a < u64_size"
  using u64_size_pos unfolding u64_max_def by linarith

section \<open>Slices\<close>

text \<open>Go's \<^verbatim>\<open>xs[i:j]\<close> for \<^verbatim>\<open>0 <= i <= j <= len(xs)\<close>.\<close>

definition slice :: "'a list \<Rightarrow> nat \<Rightarrow> nat \<Rightarrow> 'a list" where
  "slice xs i j = take (j - i) (drop i xs)"

lemma length_slice [simp]: "length (slice xs i j) = min (j - i) (length xs - i)"
  by (simp add: slice_def min.commute)

lemma slice_self [simp]: "slice xs i i = []"
  by (simp add: slice_def)

lemma slice_full [simp]: "slice xs 0 (length xs) = xs"
  by (simp add: slice_def)

lemma slice_to_end: "slice xs i (length xs) = drop i xs"
  by (simp add: slice_def)

lemma slice_append_left [slices]: "j \<le> length xs \<Longrightarrow> slice (xs @ ys) i j = slice xs i j"
  by (cases "i \<le> j") (auto simp: slice_def)

lemma slice_append_end [slices]:
  "i \<le> length xs \<Longrightarrow> slice (xs @ ys) i (length xs + length ys) = drop i xs @ ys"
  by (simp add: slice_def)

lemma slice_join [slices]:
  "i \<le> j \<Longrightarrow> j \<le> k \<Longrightarrow> slice xs i j @ slice xs j k = slice xs i k"
proof -
  assume ij: "i \<le> j" and jk: "j \<le> k"
  then have "take (k - i) (drop i xs) = take (j - i) (drop i xs) @ take (k - j) (drop (j - i) (drop i xs))"
    by (metis add_diff_assoc2 add_diff_cancel_left' le_add_diff_inverse take_add)
  with ij show ?thesis by (simp add: slice_def)
qed

lemma slice_of_slice [slices]:
  "a \<le> b \<Longrightarrow> i + b \<le> j \<Longrightarrow> slice (slice xs i j) a b = slice xs (i + a) (i + b)"
  by (simp add: slice_def drop_take add.commute)

lemma drop_slice [slices]: "drop n (slice xs i j) = slice xs (i + n) j"
  by (simp add: slice_def drop_take add.commute)

lemma take_slice [slices]: "n \<le> j - i \<Longrightarrow> take n (slice xs i j) = slice xs i (i + n)"
  by (simp add: slice_def min_def)

section \<open>sort.Search\<close>

text \<open>
  \<^verbatim>\<open>sort.Search(n, f)\<close>: binary search for the least index at which \<open>f\<close> holds, given that
  \<open>f\<close> is false and then true.
\<close>

function search_loop :: "(nat \<Rightarrow> bool) \<Rightarrow> nat \<Rightarrow> nat \<Rightarrow> nat" where
  "search_loop f i j =
     (if i < j
      then (let h = (i + j) div 2 in if \<not> f h then search_loop f (Suc h) j else search_loop f i h)
      else i)"
  by pat_completeness auto
termination
  by (relation "measure (\<lambda>(f, i, j). j - i)") auto

definition sort_search :: "nat \<Rightarrow> (nat \<Rightarrow> bool) \<Rightarrow> nat" where
  "sort_search n f = search_loop f 0 n"

declare search_loop.simps [simp del]

text \<open>On a predicate that is false up to some index and true from it, the search finds it.\<close>

lemma search_loop_threshold:
  assumes "i \<le> k" and "k \<le> j"
    and "\<And>h. h < k \<Longrightarrow> \<not> f h" and "\<And>h. k \<le> h \<Longrightarrow> h < n \<Longrightarrow> f h" and "j \<le> n"
  shows "search_loop f i j = k"
  using assms
proof (induction f i j rule: search_loop.induct)
  case (1 f i j)
  show ?case
  proof (cases "i < j")
    case True
    let ?h = "(i + j) div 2"
    have h: "i \<le> ?h" "?h < j" using True by auto
    show ?thesis
    proof (cases "f ?h")
      case T: True
      then have "k \<le> ?h" using "1.prems"(3)[of ?h] by (meson not_le)
      then have "search_loop f i ?h = k"
        using "1.IH"(2)[OF True refl] T "1.prems" h by auto
      with True T show ?thesis by (subst search_loop.simps) (simp add: Let_def)
    next
      case F: False
      then have "Suc ?h \<le> k" using "1.prems"(4,5) h by (metis Suc_leI leI order_less_le_trans)
      then have "search_loop f (Suc ?h) j = k"
        using "1.IH"(1)[OF True refl] F "1.prems" by auto
      with True F show ?thesis by (subst search_loop.simps) (simp add: Let_def)
    qed
  next
    case False
    with "1.prems"(1,2) show ?thesis by (subst search_loop.simps) simp
  qed
qed

lemma sort_search_threshold:
  assumes "k \<le> n" and "\<And>h. h < k \<Longrightarrow> \<not> f h" and "\<And>h. k \<le> h \<Longrightarrow> h < n \<Longrightarrow> f h"
  shows "sort_search n f = k"
  unfolding sort_search_def by (rule search_loop_threshold[where n = n]) (use assms in auto)

section \<open>Strings\<close>

text \<open>Strings are ordered by their bytes.\<close>

definition string_key :: "string \<Rightarrow> nat list" where
  "string_key s = map of_char s"

definition between :: "char \<Rightarrow> char \<Rightarrow> char \<Rightarrow> bool" where
  "between lo hi ch \<longleftrightarrow> (of_char lo :: nat) \<le> of_char ch \<and> (of_char ch :: nat) \<le> of_char hi"

text \<open>\<^verbatim>\<open>strconv.ParseUint\<close> in base 10 with 64 bits.\<close>

fun parse_digits :: "nat \<Rightarrow> string \<Rightarrow> nat option" where
  "parse_digits n [] = Some n"
| "parse_digits n (ch # cs) =
     (if between CHR ''0'' CHR ''9'' ch then parse_digits (10 * n + (of_char ch - 48)) cs else None)"

definition parse_uint :: "string \<Rightarrow> nat option" where
  "parse_uint s =
     (case (if s = [] then None else parse_digits 0 s) of
        None \<Rightarrow> None
      | Some n \<Rightarrow> if n < u64_size then Some n else None)"

section \<open>Big-endian integers\<close>

text \<open>
  \<^verbatim>\<open>binary.BigEndian.PutUint16/32/64\<close> and their readers: \<open>be_put n v\<close> is the \<open>n\<close> low-order
  bytes of \<open>v\<close>, most significant first.
\<close>

fun be_put :: "nat \<Rightarrow> nat \<Rightarrow> bytes" where
  "be_put 0 v = []"
| "be_put (Suc n) v = be_put n (v div 256) @ [char_of (v mod 256)]"

definition be_get :: "bytes \<Rightarrow> nat" where
  "be_get bs = foldl (\<lambda>v b. v * 256 + of_char b) 0 bs"

lemma length_be_put [simp]: "length (be_put n v) = n"
  by (induction n v rule: be_put.induct) simp_all

lemma be_get_snoc [simp]: "be_get (bs @ [b]) = be_get bs * 256 + of_char b"
  by (simp add: be_get_def)

lemma be_get_Nil [simp]: "be_get [] = 0"
  by (simp add: be_get_def)

lemma be_get_put [simp]: "v < 256 ^ n \<Longrightarrow> be_get (be_put n v) = v"
proof (induction n v rule: be_put.induct)
  case (2 n v)
  have "v div 256 < 256 ^ n" by (rule less_mult_imp_div_less) (use 2(2) in \<open>simp add: mult.commute\<close>)
  then have *: "be_get (be_put n (v div 256)) = v div 256" by (rule 2(1))
  show ?case unfolding be_put.simps be_get_snoc * of_char_of by simp
qed simp

lemma of_char_less_256: "(of_char (c :: char) :: nat) < 256"
  by simp

lemma char_of_digit: "char_of (of_char c :: nat) = (c :: char)"
  by simp

lemma be_digit:
  "x * 256 + of_char b < (x + 1) * (256 :: nat)"
  "(x * 256 + of_char b) div 256 = (x :: nat)" "(x * 256 + of_char b) mod 256 = (of_char b :: nat)"
proof -
  obtain c where c: "c = (of_char b :: nat)" by simp
  have "c < 256" using of_char_less_256[of b] c by simp
  then show "x * 256 + of_char b < (x + 1) * (256 :: nat)"
    "(x * 256 + of_char b) div 256 = x" "(x * 256 + of_char b) mod 256 = (of_char b :: nat)"
    unfolding c[symmetric] by simp_all
qed

lemma be_get_less: "be_get bs < 256 ^ length bs"
proof (induction bs rule: rev_induct)
  case (snoc b bs)
  have "(be_get bs + 1) * 256 \<le> 256 ^ length bs * 256" using snoc by (intro mult_right_mono) simp_all
  with be_digit(1)[of "be_get bs" b] have "be_get (bs @ [b]) < 256 ^ length bs * 256"
    unfolding be_get_snoc by (rule less_le_trans)
  then show ?case by simp
qed simp

lemma be_put_get: "be_put (length bs) (be_get bs) = bs"
proof (induction bs rule: rev_induct)
  case (snoc b bs)
  have "be_put (Suc (length bs)) (be_get (bs @ [b])) = be_put (length bs) (be_get bs) @ [char_of (of_char b :: nat)]"
    unfolding be_get_snoc be_put.simps be_digit ..
  then show ?case by (simp only: length_append_singleton snoc.IH char_of_digit)
qed simp

section \<open>Interfaces\<close>

text \<open>
  A component driven by a sequence of operations, each with the inputs the environment
  supplies. What every admissible operation keeps, every run keeps.
\<close>

locale machine =
  fixes exec :: "'op \<Rightarrow> 's \<Rightarrow> 's"
    and inv :: "'s \<Rightarrow> bool"
    and ok :: "'op \<Rightarrow> bool"
  assumes preserved: "inv s \<Longrightarrow> ok op \<Longrightarrow> inv (exec op s)"
begin

lemma run: "inv s \<Longrightarrow> list_all ok ops \<Longrightarrow> inv (fold exec ops s)"
  by (induction ops arbitrary: s) (auto intro: preserved)

lemma run_prefix: "inv s \<Longrightarrow> list_all ok ops \<Longrightarrow> inv (fold exec (take n ops) s)"
  by (rule run) (auto simp: list_all_iff dest: in_set_takeD)

end

text \<open>
  A self-delimiting wire format: the decoder takes one value off the front of the stream and
  leaves the rest, and accepts nothing but encodings of valid values. So a stream decodes to a
  sequence of values exactly when it is their encoding.
\<close>

locale codec =
  fixes encode :: "'a \<Rightarrow> bytes"
    and decode :: "bytes \<Rightarrow> ('a \<times> bytes) option"
    and valid :: "'a \<Rightarrow> bool"
  assumes decode_encode: "valid x \<Longrightarrow> decode (encode x @ rest) = Some (x, rest)"
    and decode_exact: "decode bs = Some (x, rest) \<Longrightarrow> valid x \<and> bs = encode x @ rest"
begin

lemma encode_inj:
  assumes "valid x" and "valid y" and "encode x @ r = encode y @ s"
  shows "x = y \<and> r = s"
proof -
  have "decode (encode x @ r) = Some (x, r)" "decode (encode y @ s) = Some (y, s)"
    using assms(1,2) by (simp_all add: decode_encode)
  with assms(3) show ?thesis by (metis option.inject prod.inject)
qed

text \<open>Part of an encoding is never taken for a value.\<close>

lemma torn:
  assumes "valid y" and "prefix p (encode y)" and "p \<noteq> encode y"
  shows "decode p = None"
proof (rule ccontr)
  assume "decode p \<noteq> None"
  then obtain x r where d: "decode p = Some (x, r)" by auto
  obtain q where q: "encode y = p @ q" using assms(2) by (auto simp: prefix_def)
  have "encode x @ (r @ q) = encode y @ []" using decode_exact[OF d] q by simp
  then have "x = y \<and> r @ q = []" using encode_inj decode_exact[OF d] assms(1) by blast
  then show False using decode_exact[OF d] assms(3) by simp
qed

lemma stream_inj:
  assumes "list_all valid xs" and "list_all valid ys" and "length xs = length ys"
    and "concat (map encode xs) @ r = concat (map encode ys) @ s"
  shows "xs = ys \<and> r = s"
  using assms(3,1,2,4)
proof (induction xs ys rule: list_induct2)
  case (Cons x xs y ys)
  have "x = y \<and> concat (map encode xs) @ r = concat (map encode ys) @ s"
    using Cons.prems by (intro encode_inj) simp_all
  with Cons.IH Cons.prems show ?case by (metis list.pred_inject(2))
qed simp

end

text \<open>Reading \<open>n\<close> values off a stream with a decoder.\<close>

fun read_frames :: "(bytes \<Rightarrow> ('a \<times> bytes) option) \<Rightarrow> nat \<Rightarrow> bytes \<Rightarrow> ('a list \<times> bytes) option" where
  "read_frames dec 0 bs = Some ([], bs)"
| "read_frames dec (Suc n) bs =
     (case dec bs of None \<Rightarrow> None
      | Some (x, r) \<Rightarrow> map_option (\<lambda>(xs, r'). (x # xs, r')) (read_frames dec n r))"

context codec
begin

lemma read_frames_stream:
  "list_all valid xs \<Longrightarrow>
     read_frames decode (length xs) (concat (map encode xs) @ rest) = Some (xs, rest)"
  by (induction xs) (simp_all add: decode_encode)

lemma read_frames_iff:
  "read_frames decode n bs = Some (xs, rest) \<longleftrightarrow> list_all valid xs \<and> length xs = n \<and> bs = concat (map encode xs) @ rest"
proof
  show "read_frames decode n bs = Some (xs, rest) \<Longrightarrow> list_all valid xs \<and> length xs = n \<and> bs = concat (map encode xs) @ rest"
  proof (induction n arbitrary: bs xs)
    case (Suc n)
    then obtain x r ys where d: "decode bs = Some (x, r)" "read_frames decode n r = Some (ys, rest)" "xs = x # ys"
      by (auto split: option.splits)
    show ?case using decode_exact[OF d(1)] Suc.IH[OF d(2)] d(3) by simp
  qed simp
qed (auto simp: read_frames_stream)

end

end
