(* ===== verification/History.thy ===== *)
theory History
  imports Prelude
begin

text \<open>
  The retained terminal output of a session, \<^verbatim>\<open>internal/hostruntime/history/history.go\<close>: an
  append-only sequence of output events addressed by byte offset, bounded in bytes by
  evicting whole events from the front, and replayed to attachments from any retained
  offset. The buffer pool behind \<^verbatim>\<open>Event.owner\<close> only decides when memory is reused; an event is
  modelled as the immutable value its consumers see.
\<close>

section \<open>Data\<close>

record event =
  ev_channel :: byte
  ev_start :: nat
  ev_end :: nat
  ev_data :: bytes

datatype history_error =
    ErrInvalidLimit
  | ErrInvalidCursor
  | ErrSequenceFull
  | GapError nat nat nat

record replay =
  rp_from :: nat
  rp_to :: nat
  rp_earliest :: nat
  rp_latest :: nat
  rp_events :: "event list"

record history =
  h_max :: nat
  h_bytes :: nat
  h_earliest :: nat
  h_latest :: nat
  h_events :: "event list"
  h_head :: nat
  h_acks :: "(string \<times> nat) list"

definition zero_event :: event where
  "zero_event = \<lparr>ev_channel = CHR 0x00, ev_start = 0, ev_end = 0, ev_data = []\<rparr>"

section \<open>Operations\<close>

definition New :: "nat \<Rightarrow> history_error + history" where
  "New maxBytes =
     (if maxBytes = 0 then Inl ErrInvalidLimit
      else Inr \<lparr>h_max = maxBytes, h_bytes = 0, h_earliest = 0, h_latest = 0,
                h_events = [], h_head = 0, h_acks = []\<rparr>)"

text \<open>The eviction loop of \<^verbatim>\<open>compactLocked\<close>, then its reset of an emptied ring.\<close>

function compact_loop :: "history \<Rightarrow> history" where
  "compact_loop h =
     (if h_max h < h_bytes h \<and> h_head h < length (h_events h)
      then (let e = h_events h ! h_head h
            in compact_loop
                 (h\<lparr>h_bytes := u64_sub (h_bytes h) (length (ev_data e)),
                    h_earliest := ev_end e,
                    h_events := (h_events h)[h_head h := zero_event],
                    h_head := Suc (h_head h)\<rparr>))
      else h)"
  by pat_completeness auto
termination
  by (relation "measure (\<lambda>h. length (h_events h) - h_head h)") (auto simp: Let_def)

definition compactLocked :: "history \<Rightarrow> history" where
  "compactLocked h =
     (let h' = compact_loop h
      in if h_head h' = length (h_events h')
         then h'\<lparr>h_earliest := h_latest h', h_events := [], h_head := 0\<rparr>
         else h')"

text \<open>
  \<^verbatim>\<open>appendOwned\<close>, which \<^verbatim>\<open>Append\<close>, \<^verbatim>\<open>AppendOwned\<close> and \<^verbatim>\<open>AppendBuffer\<close> share; they differ only in who
  owns the buffer.
\<close>

definition appendOwned :: "byte \<Rightarrow> bytes \<Rightarrow> history \<Rightarrow> (history_error + event) \<times> history" where
  "appendOwned ch d h =
     (if length d = 0
      then (Inr \<lparr>ev_channel = ch, ev_start = h_latest h, ev_end = h_latest h, ev_data = []\<rparr>, h)
      else if u64_sub u64_max (h_latest h) < length d then (Inl ErrSequenceFull, h)
      else (let e = \<lparr>ev_channel = ch, ev_start = h_latest h,
                     ev_end = u64_add (h_latest h) (length d), ev_data = d\<rparr>
            in (Inr e, compactLocked
                  (h\<lparr>h_latest := ev_end e,
                     h_bytes := u64_add (h_bytes h) (length d),
                     h_events := h_events h @ [e]\<rparr>))))"

definition SetLimit :: "nat \<Rightarrow> history \<Rightarrow> (history_error + unit) \<times> history" where
  "SetLimit maxBytes h =
     (if maxBytes = 0 then (Inl ErrInvalidLimit, h)
      else (Inr (), compactLocked (h\<lparr>h_max := maxBytes\<rparr>)))"

definition Clear :: "history \<Rightarrow> nat \<times> history" where
  "Clear h =
     (h_latest h, h\<lparr>h_events := [], h_head := 0, h_bytes := 0, h_earliest := h_latest h\<rparr>)"

text \<open>
  The loop of \<^verbatim>\<open>ReplayOwned\<close> over the retained events: skip what ends at or before the
  cursor, cut the first event at the cursor and the last one at the byte limit.
\<close>

fun replay_loop ::
  "nat \<Rightarrow> nat \<Rightarrow> nat \<Rightarrow> event list \<Rightarrow> nat \<Rightarrow> event list \<Rightarrow> event list \<times> nat" where
  "replay_loop from byteLimit remaining acc to [] = (acc, to)"
| "replay_loop from byteLimit remaining acc to (e # es) =
     (if ev_end e \<le> from then replay_loop from byteLimit remaining acc to es
      else
        let s = max from (ev_start e);
            en = (if 0 < byteLimit \<and> remaining < u64_sub (ev_end e) s
                  then u64_add s remaining else ev_end e)
        in if s < en
           then
             let r = e\<lparr>ev_start := s, ev_end := en,
                       ev_data := slice (ev_data e) (u64_sub s (ev_start e)) (u64_sub en (ev_start e))\<rparr>
             in if 0 < byteLimit
                then let left = u64_sub remaining (u64_sub en s)
                     in if left = 0 then (acc @ [r], en)
                        else replay_loop from byteLimit left (acc @ [r]) en es
                else replay_loop from byteLimit remaining (acc @ [r]) en es
           else replay_loop from byteLimit remaining acc to es)"

definition ReplayOwned :: "nat \<Rightarrow> nat \<Rightarrow> history \<Rightarrow> history_error + replay" where
  "ReplayOwned from byteLimit h =
     (if from < h_earliest h then Inl (GapError from (h_earliest h) (h_latest h))
      else if h_latest h < from then Inl ErrInvalidCursor
      else let (es, to) = replay_loop from byteLimit byteLimit [] from (drop (h_head h) (h_events h))
           in Inr \<lparr>rp_from = from, rp_to = to, rp_earliest = h_earliest h,
                   rp_latest = h_latest h, rp_events = es\<rparr>)"

definition ack_of :: "string \<Rightarrow> history \<Rightarrow> nat" where
  "ack_of a h = (case map_of (h_acks h) a of None \<Rightarrow> 0 | Some n \<Rightarrow> n)"

definition Acknowledge :: "string \<Rightarrow> nat \<Rightarrow> history \<Rightarrow> (history_error + unit) \<times> history" where
  "Acknowledge a n h =
     (if a = [] \<or> h_latest h < n \<or> n < ack_of a h then (Inl ErrInvalidCursor, h)
      else (Inr (), h\<lparr>h_acks := AList.update a n (h_acks h)\<rparr>))"

definition Acknowledged :: "string \<Rightarrow> history \<Rightarrow> nat option" where
  "Acknowledged a h = map_of (h_acks h) a"

definition Bounds :: "history \<Rightarrow> nat \<times> nat \<times> nat" where
  "Bounds h = (h_earliest h, h_latest h, h_bytes h)"

text \<open>The loop of \<^verbatim>\<open>Restore\<close> over the stored events, and its final checks.\<close>

fun restore_loop :: "event list \<Rightarrow> history \<Rightarrow> history option" where
  "restore_loop [] h = Some h"
| "restore_loop (e # es) h =
     (if ev_start e \<noteq> h_latest h \<or> u64_sub (ev_end e) (ev_start e) \<noteq> length (ev_data e) then None
      else restore_loop es
             (h\<lparr>h_events := h_events h @ [e],
                h_bytes := u64_add (h_bytes h) (length (ev_data e)),
                h_latest := ev_end e\<rparr>))"

definition Restore :: "nat \<Rightarrow> nat \<Rightarrow> nat \<Rightarrow> event list \<Rightarrow> history_error + history" where
  "Restore maxBytes earliest latest es =
     (case New maxBytes of Inl _ \<Rightarrow> Inl ErrInvalidCursor
      | Inr h \<Rightarrow>
          if latest < earliest then Inl ErrInvalidCursor
          else (case restore_loop es (h\<lparr>h_earliest := earliest, h_latest := earliest\<rparr>) of
                  None \<Rightarrow> Inl ErrInvalidCursor
                | Some h' \<Rightarrow>
                    if h_latest h' \<noteq> latest \<or> maxBytes < h_bytes h' then Inl ErrInvalidCursor
                    else Inr h'))"

section \<open>Specification\<close>

text \<open>
  Events are contiguous when each starts where the one before it ended and spans exactly
  its data. \<open>retained\<close> is the live part of the ring, \<open>content\<close> its bytes.
\<close>

fun contiguous :: "nat \<Rightarrow> nat \<Rightarrow> event list \<Rightarrow> bool" where
  "contiguous a b [] \<longleftrightarrow> a = b"
| "contiguous a b (e # es) \<longleftrightarrow>
     ev_start e = a \<and> ev_end e = a + length (ev_data e) \<and>
     contiguous (a + length (ev_data e)) b es"

definition retained :: "history \<Rightarrow> event list" where
  "retained h = drop (h_head h) (h_events h)"

definition payload :: "event list \<Rightarrow> bytes" where
  "payload es = concat (map ev_data es)"

text \<open>The invariant between operations; \<open>history_open\<close> is it before eviction has run.\<close>

definition history_open :: "history \<Rightarrow> bool" where
  "history_open h \<longleftrightarrow>
     0 < h_max h \<and> h_head h \<le> length (h_events h) \<and>
     contiguous (h_earliest h) (h_latest h) (retained h) \<and> h_latest h < u64_size \<and>
     h_bytes h = length (payload (retained h)) \<and>
     (\<forall>a n. map_of (h_acks h) a = Some n \<longrightarrow> n \<le> h_latest h)"

definition history_wf :: "history \<Rightarrow> bool" where
  "history_wf h \<longleftrightarrow> history_open h \<and> h_bytes h \<le> h_max h"

text \<open>
  The abstract view: \<open>evs\<close> is every event ever appended, and the history retains a suffix
  of it.
\<close>

definition history_of :: "event list \<Rightarrow> history \<Rightarrow> bool" where
  "history_of evs h \<longleftrightarrow>
     history_wf h \<and> contiguous 0 (h_latest h) evs \<and> suffix (retained h) evs"

text \<open>
  What a replay that reaches the end of the log contains: the events that end after the
  cursor, the first of them cut at the cursor.
\<close>

definition trim :: "nat \<Rightarrow> event \<Rightarrow> event" where
  "trim p e = e\<lparr>ev_start := max p (ev_start e),
               ev_data := drop (max p (ev_start e) - ev_start e) (ev_data e)\<rparr>"

definition cut :: "nat \<Rightarrow> event list \<Rightarrow> event list" where
  "cut p es = map (trim p) (filter (\<lambda>e. p < ev_end e \<and> ev_data e \<noteq> []) es)"

text \<open>
  The operations that change a history, run against it while collecting the events that
  appends return: the log a session has produced.
\<close>

datatype hist_op = OpAppend byte bytes | OpSetLimit nat | OpClear | OpAcknowledge string nat

fun hist_exec :: "hist_op \<Rightarrow> event list \<times> history \<Rightarrow> event list \<times> history" where
  "hist_exec (OpAppend ch d) (evs, h) =
     (case appendOwned ch d h of
        (Inr e, h') \<Rightarrow> (if d = [] then evs else evs @ [e], h')
      | (Inl _, h') \<Rightarrow> (evs, h'))"
| "hist_exec (OpSetLimit m) (evs, h) = (evs, snd (SetLimit m h))"
| "hist_exec OpClear (evs, h) = (evs, snd (Clear h))"
| "hist_exec (OpAcknowledge a n) (evs, h) = (evs, snd (Acknowledge a n h))"

definition log_inv :: "event list \<times> history \<Rightarrow> bool" where
  "log_inv s = history_of (fst s) (snd s)"

section \<open>Contiguous events\<close>

lemma payload_simps [simp]:
  "payload [] = []" "payload (e # es) = ev_data e @ payload es"
  "payload (es @ fs) = payload es @ payload fs"
  by (simp_all add: payload_def)

lemma contiguous_le: "contiguous a b es \<Longrightarrow> b = a + length (payload es)"
  by (induction es arbitrary: a) (fastforce simp: add.assoc)+

lemma contiguous_append:
  "contiguous a c (es @ fs) \<longleftrightarrow> (\<exists>b. contiguous a b es \<and> contiguous b c fs)"
  by (induction es arbitrary: a) auto

lemma contiguous_drop:
  assumes "contiguous a b es"
  shows "\<exists>a'. a \<le> a' \<and> contiguous a' b (drop k es)"
proof -
  from assms have "contiguous a b (take k es @ drop k es)" by simp
  then obtain c where "contiguous a c (take k es)" "contiguous c b (drop k es)"
    unfolding contiguous_append by blast
  moreover from this(1) have "a \<le> c" by (auto dest: contiguous_le)
  ultimately show ?thesis by blast
qed

lemma contiguous_start_unique: "contiguous a b es \<Longrightarrow> contiguous a' b es \<Longrightarrow> a = a'"
  by (cases es) auto

lemma contiguous_member:
  "contiguous a b es \<Longrightarrow> e \<in> set es \<Longrightarrow>
     a \<le> ev_start e \<and> ev_end e \<le> b \<and> ev_end e = ev_start e + length (ev_data e)"
proof (induction es arbitrary: a)
  case (Cons x xs)
  then have x: "contiguous (ev_end x) b xs" by simp
  from x have "ev_end x \<le> b" by (auto dest: contiguous_le)
  with Cons.prems Cons.IH[OF x] show ?case by auto
qed simp

lemma payload_drop: "\<exists>m. payload (drop k es) = drop m (payload es)"
proof -
  have "payload es = payload (take k es) @ payload (drop k es)"
    by (metis append_take_drop_id payload_simps(3))
  then have "payload (drop k es) = drop (length (payload (take k es))) (payload es)" by simp
  then show ?thesis by blast
qed

text \<open>A contiguous suffix of the log holds the bytes from its start offset.\<close>

lemma contiguous_suffix_payload:
  assumes "contiguous 0 b evs" and "contiguous a b (drop k evs)"
  shows "payload (drop k evs) = drop a (payload evs)"
proof -
  from assms(1) have "contiguous 0 b (take k evs @ drop k evs)" by simp
  then obtain c where c: "contiguous 0 c (take k evs)" "contiguous c b (drop k evs)"
    unfolding contiguous_append by blast
  with assms(2) have "c = a" by (rule_tac contiguous_start_unique) 
  with c(1) have "a = length (payload (take k evs))" by (auto dest: contiguous_le)
  moreover have "payload evs = payload (take k evs) @ payload (drop k evs)"
    by (metis append_take_drop_id payload_simps(3))
  ultimately show ?thesis by simp
qed

section \<open>Eviction\<close>

declare compact_loop.simps [simp del]

lemma compact_loop_fields [simp]:
  "h_max (compact_loop h) = h_max h" "h_latest (compact_loop h) = h_latest h"
  "h_acks (compact_loop h) = h_acks h"
proof (induction h rule: compact_loop.induct)
  case (1 h)
  { case 1 show ?case using "1.IH"(1) by (subst compact_loop.simps) (simp add: Let_def) }
  { case 2 show ?case using "1.IH"(2) by (subst compact_loop.simps) (simp add: Let_def) }
  { case 3 show ?case using "1.IH"(3) by (subst compact_loop.simps) (simp add: Let_def) }
qed

text \<open>One step of eviction drops the first retained event.\<close>

lemma evict_one:
  assumes "history_open h" and "h_head h < length (h_events h)"
  defines "e \<equiv> h_events h ! h_head h"
  defines "h' \<equiv> h\<lparr>h_bytes := u64_sub (h_bytes h) (length (ev_data e)), h_earliest := ev_end e,
     h_events := (h_events h)[h_head h := zero_event], h_head := Suc (h_head h)\<rparr>"
  shows "history_open h'" and "retained h = e # retained h'"
proof -
  show r: "retained h = e # retained h'"
    using assms(2) by (simp add: retained_def h'_def e_def Cons_nth_drop_Suc)
  from assms(1) have "h_latest h = h_earliest h + h_bytes h" "h_latest h < u64_size"
    by (auto simp: history_open_def dest: contiguous_le)
  then have "h_bytes h < u64_size" by linarith
  moreover have c: "contiguous (h_earliest h) (h_latest h) (e # retained h')"
    "h_bytes h = length (ev_data e) + length (payload (retained h'))"
    using assms(1) r by (simp_all add: history_open_def)
  ultimately have "u64_sub (h_bytes h) (length (ev_data e)) = length (payload (retained h'))"
    by (simp add: u64)
  moreover have "contiguous (ev_end e) (h_latest h) (retained h')"
    using c(1) by simp
  ultimately show "history_open h'"
    using assms(1,2) by (simp add: history_open_def h'_def)
qed

lemma compact_loop_spec:
  assumes "history_open h"
  shows "history_open (compact_loop h) \<and>
     (\<exists>k. retained (compact_loop h) = drop k (retained h) \<and>
          (\<forall>j<k. h_max h < length (payload (drop j (retained h))))) \<and>
     (h_bytes (compact_loop h) \<le> h_max h \<or> retained (compact_loop h) = [])"
  using assms
proof (induction h rule: compact_loop.induct)
  case (1 h)
  show ?case
  proof (cases "h_max h < h_bytes h \<and> h_head h < length (h_events h)")
    case False
    then have "compact_loop h = h" by (subst compact_loop.simps) auto
    moreover have "h_bytes h \<le> h_max h \<or> retained h = []"
      using False by (auto simp: retained_def)
    ultimately show ?thesis using "1.prems" by (auto intro!: exI[of _ 0])
  next
    case True
    define e where "e = h_events h ! h_head h"
    define h' where "h' = h\<lparr>h_bytes := u64_sub (h_bytes h) (length (ev_data e)),
      h_earliest := ev_end e, h_events := (h_events h)[h_head h := zero_event],
      h_head := Suc (h_head h)\<rparr>"
    have loop: "compact_loop h = compact_loop h'"
      using True by (subst compact_loop.simps) (simp add: h'_def e_def Let_def)
    have o: "history_open h'" and r: "retained h = e # retained h'"
      using evict_one[OF "1.prems"] True by (simp_all add: h'_def e_def)
    have IH: "history_open (compact_loop h') \<and>
       (\<exists>k. retained (compact_loop h') = drop k (retained h') \<and>
            (\<forall>j<k. h_max h' < length (payload (drop j (retained h'))))) \<and>
       (h_bytes (compact_loop h') \<le> h_max h' \<or> retained (compact_loop h') = [])"
      using "1.IH"[OF True e_def] o by (simp add: h'_def)
    then obtain k where k: "retained (compact_loop h') = drop k (retained h')"
      "\<forall>j<k. h_max h < length (payload (drop j (retained h')))" by (auto simp: h'_def)
    have "\<forall>j<Suc k. h_max h < length (payload (drop j (retained h)))"
    proof (intro allI impI)
      fix j assume "j < Suc k"
      then show "h_max h < length (payload (drop j (retained h)))"
        using k(2) r True "1.prems" by (cases j) (auto simp: history_open_def)
    qed
    with IH k r loop show ?thesis
      by (auto simp: h'_def intro!: exI[of _ "Suc k"])
  qed
qed

lemma compactLocked_spec:
  assumes "history_open h"
  shows "history_wf (compactLocked h)"
    and "\<exists>k. retained (compactLocked h) = drop k (retained h) \<and>
          (\<forall>j<k. h_max h < length (payload (drop j (retained h))))"
    and "h_max (compactLocked h) = h_max h" and "h_latest (compactLocked h) = h_latest h"
    and "h_acks (compactLocked h) = h_acks h"
proof -
  let ?c = "compact_loop h"
  note spec = compact_loop_spec[OF assms]
  have ret: "retained (compactLocked h) = retained ?c"
    by (simp add: compactLocked_def Let_def retained_def)
  show "history_wf (compactLocked h)"
  proof (cases "h_head ?c = length (h_events ?c)")
    case True
    with spec show ?thesis
      by (auto simp: compactLocked_def Let_def history_wf_def history_open_def retained_def)
  next
    case False
    with spec have "retained ?c \<noteq> []" by (auto simp: history_open_def retained_def)
    with spec False show ?thesis
      by (auto simp: compactLocked_def Let_def history_wf_def)
  qed
  show "\<exists>k. retained (compactLocked h) = drop k (retained h) \<and>
          (\<forall>j<k. h_max h < length (payload (drop j (retained h))))"
    using spec ret by auto
qed (simp_all add: compactLocked_def Let_def)

section \<open>Replay\<close>

lemma payload_trim: "ev_data (trim p e) = drop (p - ev_start e) (ev_data e)"
  by (simp add: trim_def max_def)

lemma cut_simps [simp]:
  "cut p [] = []"
  "cut p (e # es) = (if p < ev_end e \<and> ev_data e \<noteq> [] then trim p e # cut p es else cut p es)"
  by (simp_all add: cut_def)

text \<open>
  One event of the loop, for an event that spans its data within 64 bits: it is skipped,
  it is the last one (the limit ends in it), or it is replayed from the cursor to its end.
\<close>

definition spans :: "event \<Rightarrow> bool" where
  "spans e \<longleftrightarrow> ev_end e = ev_start e + length (ev_data e) \<and> ev_end e < u64_size"

definition piece :: "event \<Rightarrow> nat \<Rightarrow> nat \<Rightarrow> event" where
  "piece e i j = e\<lparr>ev_start := i, ev_end := j,
                  ev_data := slice (ev_data e) (i - ev_start e) (j - ev_start e)\<rparr>"

lemma replay_skip:
  assumes "spans e" and "ev_end e \<le> max fr (ev_start e)"
  shows "replay_loop fr lim rem acc to (e # es) = replay_loop fr lim rem acc to es"
  using assms by (auto simp: spans_def Let_def u64 max_def split: if_splits)

lemma replay_stop:
  assumes "spans e" and "max fr (ev_start e) < ev_end e" and "0 < lim" and "0 < rem"
    and "rem \<le> ev_end e - max fr (ev_start e)"
  shows "replay_loop fr lim rem acc to (e # es) =
     (acc @ [piece e (max fr (ev_start e)) (max fr (ev_start e) + rem)],
      max fr (ev_start e) + rem)"
proof -
  define p where "p = max fr (ev_start e)"
  have p: "ev_start e \<le> p" "p + rem \<le> ev_end e" "p < ev_end e" "fr < ev_end e" "ev_end e < u64_size"
    using assms by (auto simp: p_def spans_def)
  then have "u64_sub (ev_end e) p = ev_end e - p" "u64_sub p (ev_start e) = p - ev_start e"
    "u64_add p rem = p + rem" "u64_sub (p + rem) (ev_start e) = p + rem - ev_start e"
    "u64_sub (p + rem) p = rem" "u64_sub rem rem = 0"
    by (simp_all add: u64)
  moreover have "\<not> rem < ev_end e - p \<Longrightarrow> ev_end e = p + rem" using p by simp
  ultimately show ?thesis using p assms(3,4)
    by (cases "rem < ev_end e - p") (auto simp: p_def[symmetric] piece_def Let_def)
qed

lemma replay_go:
  assumes "spans e" and "max fr (ev_start e) < ev_end e" and "rem < u64_size"
    and "0 < lim \<Longrightarrow> ev_end e - max fr (ev_start e) < rem"
  shows "replay_loop fr lim rem acc to (e # es) =
     replay_loop fr lim (if 0 < lim then rem - (ev_end e - max fr (ev_start e)) else rem)
       (acc @ [piece e (max fr (ev_start e)) (ev_end e)]) (ev_end e) es"
proof -
  define p where "p = max fr (ev_start e)"
  have p: "ev_start e \<le> p" "p < ev_end e" "fr < ev_end e" "ev_end e < u64_size"
    using assms by (auto simp: p_def spans_def)
  then have "u64_sub (ev_end e) p = ev_end e - p" "u64_sub p (ev_start e) = p - ev_start e"
    "u64_sub (ev_end e) (ev_start e) = ev_end e - ev_start e"
    by (simp_all add: u64)
  moreover have "0 < lim \<Longrightarrow> u64_sub rem (ev_end e - p) = rem - (ev_end e - p)"
    using assms(3,4) by (simp add: u64 p_def)
  ultimately show ?thesis
    using p assms(4) by (auto simp: p_def[symmetric] piece_def Let_def)
qed

declare replay_loop.simps(2) [simp del]

text \<open>
  Over contiguous events from \<open>a\<close> to \<open>b\<close> the replay yields contiguous pieces that start at the
  cursor (or at \<open>a\<close>) and hold exactly the next \<open>n\<close> bytes, \<open>n\<close> being what the limit allows;
  when it reaches the end, the pieces are \<open>cut\<close>.
\<close>

definition replay_span :: "nat \<Rightarrow> nat \<Rightarrow> nat \<Rightarrow> nat" where
  "replay_span lim rem available = (if lim = 0 then available else min rem available)"

definition replays :: "nat \<Rightarrow> nat \<Rightarrow> nat \<Rightarrow> event list \<Rightarrow> event list \<Rightarrow> bool" where
  "replays p n b es ps \<longleftrightarrow>
     contiguous p (p + n) ps \<and>
     payload ps = take n (drop (p - (b - length (payload es))) (payload es)) \<and>
     (p + n = b \<longrightarrow> ps = cut p es)"

lemma cut_cong: "(\<And>e. e \<in> set es \<Longrightarrow> max p (ev_start e) = max q (ev_start e) \<and>
    (p < ev_end e \<and> ev_data e \<noteq> [] \<longleftrightarrow> q < ev_end e \<and> ev_data e \<noteq> [])) \<Longrightarrow> cut p es = cut q es"
  by (induction es) (auto simp: trim_def)

lemma cut_cursor_before: "contiguous a b es \<Longrightarrow> p \<le> a \<Longrightarrow> cut p es = cut a es"
  by (rule cut_cong) (fastforce dest!: contiguous_member simp: neq_Nil_conv)

lemma cut_end: "contiguous a b es \<Longrightarrow> cut b es = []"
  by (auto simp: cut_def filter_empty_conv dest: contiguous_member)

lemma replays_skip:
  assumes "spans e" and "contiguous (ev_end e) b es" and "ev_end e \<le> p" and "replays p n b es ps"
  shows "replays p n b (e # es) ps"
  using assms contiguous_le[OF assms(2)] by (auto simp: replays_def spans_def)

lemma replays_step:
  assumes "spans e" and "contiguous (ev_end e) b es" and "ev_start e \<le> p" and "p < ev_end e"
    and "replays (ev_end e) n b es ps"
  shows "replays p (ev_end e - p + n) b (e # es) (piece e p (ev_end e) # ps)"
proof -
  let ?r = "piece e p (ev_end e)"
  have r: "ev_data ?r = drop (p - ev_start e) (ev_data e)" "ev_start ?r = p" "ev_end ?r = ev_end e"
    using assms(1) by (simp_all add: piece_def slice_def spans_def)
  have len: "length (ev_data ?r) = ev_end e - p" using assms(1,3) r by (simp add: spans_def)
  have b: "b = ev_end e + length (payload es)" using assms(2) by (rule contiguous_le)
  have base: "b - length (payload (e # es)) = ev_start e" using assms(1) b by (simp add: spans_def)
  have trim: "?r = trim p e" using assms(1,3) by (simp add: piece_def trim_def slice_def spans_def max_def)
  have cut: "cut p es = cut (ev_end e) es"
    by (rule cut_cursor_before[OF assms(2)]) (use assms(4) in simp)
  have "take (ev_end e - p + n) (drop (p - ev_start e) (payload (e # es)))
      = ev_data ?r @ take n (payload es)"
    using r len assms(1,3,4) by (simp add: spans_def)
  then have "payload (?r # ps) = take (ev_end e - p + n) (drop (p - ev_start e) (payload (e # es)))"
    using assms(5) b by (simp add: replays_def)
  moreover have "contiguous p (p + (ev_end e - p + n)) (?r # ps)"
    using assms(4,5) r len by (simp add: replays_def)
  moreover have "p < ev_end e \<and> ev_data e \<noteq> []" using assms(1,3,4) by (auto simp: spans_def)
  then have "p + (ev_end e - p + n) = b \<longrightarrow> ?r # ps = cut p (e # es)"
    using assms(5) trim cut by (simp add: replays_def)
  ultimately show ?thesis unfolding replays_def base by blast
qed

lemma replays_stop:
  assumes "spans e" and "contiguous (ev_end e) b es" and "ev_start e \<le> p" and "p + n \<le> ev_end e"
    and "0 < n"
  shows "replays p n b (e # es) [piece e p (p + n)]"
proof -
  have b: "b = ev_end e + length (payload es)" using assms(2) by (rule contiguous_le)
  have base: "b - length (payload (e # es)) = ev_start e" using assms(1) b by (simp add: spans_def)
  have trim: "p + n = ev_end e \<Longrightarrow> piece e p (p + n) = trim p e"
    using assms(1,3) by (simp add: piece_def trim_def slice_def spans_def max_def)
  have "p + n = b \<Longrightarrow> cut p es = []"
    using assms(2,4) b cut_cursor_before[OF assms(2), of p] cut_end[OF assms(2)] by simp
  then show ?thesis
    using assms b base trim by (auto simp: replays_def spans_def piece_def slice_def)
qed

lemma replay_loop_spec:
  assumes "contiguous a b es" and "b < u64_size" and "fr \<le> b"
    and "0 < lim \<Longrightarrow> 0 < rem" and "rem < u64_size"
  shows "\<exists>ps. let n = replay_span lim rem (b - max fr a) in
     replay_loop fr lim rem acc to es = (acc @ ps, if n = 0 then to else max fr a + n)
     \<and> replays (max fr a) n b es ps"
  using assms
proof (induction es arbitrary: a rem acc to)
  case Nil
  then show ?case by (auto simp: replay_span_def Let_def replays_def)
next
  case (Cons e es)
  define p where "p = max fr a"
  have es: "contiguous (ev_end e) b es" and a: "ev_start e = a" and sp: "spans e"
    using Cons.prems(1,2) by (auto simp: spans_def dest: contiguous_le)
  have eb: "ev_end e \<le> b" using es by (auto dest: contiguous_le)
  note IH = Cons.IH[OF es Cons.prems(2,3)]
  have ap: "ev_start e \<le> p" by (simp add: p_def a)
  have mx: "max fr (ev_start e) = p" by (simp add: p_def a)
  consider (skip) "ev_end e \<le> p"
    | (stop) "p < ev_end e" "0 < lim" "rem \<le> ev_end e - p"
    | (go) "p < ev_end e" "0 < lim \<longrightarrow> ev_end e - p < rem" by fastforce
  then show ?case
  proof cases
    case skip
    have "max fr (ev_end e) = p" using skip sp a by (auto simp: p_def spans_def)
    then obtain ps where "let n = replay_span lim rem (b - p) in
        replay_loop fr lim rem acc to es = (acc @ ps, if n = 0 then to else p + n) \<and> replays p n b es ps"
      using IH[of rem acc to] Cons.prems(4,5) by auto
    moreover have "replay_loop fr lim rem acc to (e # es) = replay_loop fr lim rem acc to es"
      using replay_skip[OF sp] skip mx by simp
    ultimately show ?thesis
      using replays_skip[OF sp es skip] unfolding Let_def p_def[symmetric] by auto
  next
    case stop
    have "replay_span lim rem (b - p) = rem" using stop eb by (auto simp: replay_span_def)
    moreover have "replays p rem b (e # es) [piece e p (p + rem)]"
      using replays_stop[OF sp es ap, of rem] stop Cons.prems(4) by simp
    moreover have "replay_loop fr lim rem acc to (e # es) = (acc @ [piece e p (p + rem)], p + rem)"
      unfolding mx[symmetric] by (rule replay_stop[OF sp]) (use stop Cons.prems(4) mx in auto)
    ultimately show ?thesis
      using stop Cons.prems(4) unfolding Let_def p_def[symmetric] by auto
  next
    case go
    define left where "left = (if 0 < lim then rem - (ev_end e - p) else rem)"
    define m where "m = replay_span lim left (b - ev_end e)"
    have n: "replay_span lim rem (b - p) = ev_end e - p + m"
      using go eb by (auto simp: replay_span_def left_def m_def)
    have "max fr (ev_end e) = ev_end e" using go by (auto simp: p_def)
    moreover have "0 < lim \<Longrightarrow> 0 < left" "left < u64_size"
      using go Cons.prems(5) by (auto simp: left_def)
    ultimately obtain ps where ps: "replay_loop fr lim left (acc @ [piece e p (ev_end e)]) (ev_end e) es =
        ((acc @ [piece e p (ev_end e)]) @ ps, if m = 0 then ev_end e else ev_end e + m)"
      "replays (ev_end e) m b es ps"
      using IH[of left "acc @ [piece e p (ev_end e)]" "ev_end e"] by (auto simp: Let_def m_def)
    have "replay_loop fr lim rem acc to (e # es) =
        replay_loop fr lim left (acc @ [piece e p (ev_end e)]) (ev_end e) es"
      unfolding left_def mx[symmetric] by (rule replay_go[OF sp]) (use go Cons.prems(5) mx in auto)
    then have "replay_loop fr lim rem acc to (e # es) =
        (acc @ piece e p (ev_end e) # ps, p + (ev_end e - p + m))"
      using ps(1) go(1) by simp
    moreover have "replays p (ev_end e - p + m) b (e # es) (piece e p (ev_end e) # ps)"
      using replays_step[OF sp es ap go(1) ps(2)] .
    ultimately show ?thesis
      using go(1) unfolding Let_def p_def[symmetric] n by auto
  qed
qed

text \<open>
  The replay of a log: refused before the retained window and after its end, exact inside it.
\<close>

lemma history_of_drop: "history_of evs h \<Longrightarrow> \<exists>k. retained h = drop k evs"
  unfolding history_of_def suffix_def by (metis append_eq_conv_conj)

lemma ReplayOwned_exact:
  assumes "history_of evs h" and "h_earliest h \<le> fr" and "fr \<le> h_latest h" and "lim < u64_size"
  defines "n \<equiv> replay_span lim lim (h_latest h - fr)"
  shows "\<exists>ps. ReplayOwned fr lim h =
       Inr \<lparr>rp_from = fr, rp_to = fr + n, rp_earliest = h_earliest h, rp_latest = h_latest h,
            rp_events = ps\<rparr>
     \<and> contiguous fr (fr + n) ps \<and> payload ps = slice (payload evs) fr (fr + n)
     \<and> (fr + n = h_latest h \<longrightarrow> ps = cut fr (retained h))"
proof -
  have wf: "contiguous (h_earliest h) (h_latest h) (retained h)" "h_latest h < u64_size"
    and evs: "contiguous 0 (h_latest h) evs"
    using assms(1) by (auto simp: history_of_def history_wf_def history_open_def)
  obtain k where k: "retained h = drop k evs" using history_of_drop[OF assms(1)] by blast
  have pay: "payload (retained h) = drop (h_earliest h) (payload evs)"
    using contiguous_suffix_payload[OF evs] wf(1) k by simp
  have mx: "max fr (h_earliest h) = fr" using assms(2) by simp
  obtain ps where ps: "replay_loop fr lim lim [] fr (retained h) = (ps, if n = 0 then fr else fr + n)"
    and r: "replays fr n (h_latest h) (retained h) ps"
    using replay_loop_spec[OF wf assms(3), of lim lim "[]" fr] assms(4)
    by (auto simp: Let_def mx n_def)
  have base: "h_latest h - length (payload (retained h)) = h_earliest h"
    using contiguous_le[OF wf(1)] by simp
  have "payload ps = slice (payload evs) fr (fr + n)"
    using r assms(2) unfolding replays_def base by (simp add: pay slice_def)
  with ps r assms(2,3) show ?thesis
    by (auto simp: ReplayOwned_def retained_def[symmetric] replays_def)
qed

text \<open>Every replayed piece has data, and the channel of a retained event.\<close>

lemma piece_channel [simp]: "ev_channel (piece e i j) = ev_channel e"
  by (simp add: piece_def)

lemma piece_nonempty:
  "spans e \<Longrightarrow> ev_start e \<le> i \<Longrightarrow> i < j \<Longrightarrow> j \<le> ev_end e \<Longrightarrow> ev_data (piece e i j) \<noteq> []"
  by (auto simp: piece_def slice_def spans_def)

lemma replay_loop_pieces:
  assumes "\<forall>e\<in>set es. spans e" and "rem < u64_size" and "0 < lim \<Longrightarrow> 0 < rem"
    and "x \<in> set (fst (replay_loop fr lim rem acc to es))"
  shows "x \<in> set acc \<or> ev_data x \<noteq> [] \<and> ev_channel x \<in> ev_channel ` set es"
  using assms
proof (induction es arbitrary: rem acc to)
  case (Cons e es)
  let ?p = "max fr (ev_start e)"
  have sp: "spans e" using Cons.prems(1) by simp
  consider (skip) "ev_end e \<le> ?p" | (stop) "?p < ev_end e" "0 < lim" "rem \<le> ev_end e - ?p"
    | (go) "?p < ev_end e" "0 < lim \<Longrightarrow> ev_end e - ?p < rem" by linarith
  then show ?case
  proof cases
    case skip
    with replay_skip[OF sp skip] Cons show ?thesis by auto
  next
    case stop
    with Cons.prems(3) have rem: "0 < rem" by simp
    have "ev_data (piece e ?p (?p + rem)) \<noteq> []"
      using piece_nonempty[OF sp, of ?p "?p + rem"] stop rem by simp
    with replay_stop[OF sp stop(1,2) rem stop(3)] Cons.prems(4) show ?thesis by auto
  next
    case go
    have ne: "ev_data (piece e ?p (ev_end e)) \<noteq> []" using piece_nonempty[OF sp, of ?p "ev_end e"] go by simp
    let ?rem = "if 0 < lim then rem - (ev_end e - ?p) else rem"
    have "x \<in> set (fst (replay_loop fr lim ?rem (acc @ [piece e ?p (ev_end e)]) (ev_end e) es))"
      using Cons.prems(4) replay_go[OF sp go(1) Cons.prems(2) go(2)] by simp
    then have "x \<in> set (acc @ [piece e ?p (ev_end e)]) \<or> ev_data x \<noteq> [] \<and> ev_channel x \<in> ev_channel ` set es"
      using Cons.prems(1,2) go(2) by (intro Cons.IH) auto
    with ne show ?thesis by auto
  qed
qed simp

lemma ReplayOwned_pieces:
  assumes "history_of evs h" and "lim < u64_size" and "ReplayOwned fr lim h = Inr rp" and "x \<in> set (rp_events rp)"
  shows "ev_data x \<noteq> [] \<and> ev_channel x \<in> ev_channel ` set evs"
proof -
  have c: "contiguous (h_earliest h) (h_latest h) (retained h)" "h_latest h < u64_size" "suffix (retained h) evs"
    using assms(1) by (auto simp: history_of_def history_wf_def history_open_def)
  have "\<forall>e\<in>set (retained h). spans e"
    using c(1,2) by (auto simp: spans_def dest!: contiguous_member)
  moreover have "x \<in> set (fst (replay_loop fr lim lim [] fr (retained h)))"
    using assms(3,4) by (auto simp: ReplayOwned_def retained_def split: if_splits prod.splits)
  ultimately have "ev_data x \<noteq> [] \<and> ev_channel x \<in> ev_channel ` set (retained h)"
    using replay_loop_pieces[of "retained h" lim lim x fr "[]" fr] assms(2) by auto
  with c(3) show ?thesis by (auto dest: set_mono_suffix)
qed

text \<open>The cut of the retained window is the cut of the whole log.\<close>

lemma cut_retained:
  assumes "history_of evs h" and "h_earliest h \<le> fr"
  shows "cut fr (retained h) = cut fr evs"
proof -
  obtain k where k: "retained h = drop k evs" using history_of_drop[OF assms(1)] by blast
  have "contiguous 0 (h_latest h) (take k evs @ drop k evs)"
    and r: "contiguous (h_earliest h) (h_latest h) (drop k evs)"
    using assms(1) k by (auto simp: history_of_def history_wf_def history_open_def)
  then obtain c where "contiguous 0 c (take k evs)" "contiguous c (h_latest h) (drop k evs)"
    unfolding contiguous_append by blast
  with r have "contiguous 0 (h_earliest h) (take k evs)" using contiguous_start_unique by blast
  then have "cut fr (take k evs) = []"
    using assms(2) by (auto simp: cut_def filter_empty_conv dest!: contiguous_member)
  moreover have "cut fr evs = cut fr (take k evs) @ cut fr (drop k evs)"
    unfolding cut_def by (metis append_take_drop_id filter_append map_append)
  ultimately show ?thesis by (simp add: k)
qed

section \<open>Append, limit and clear\<close>

lemma history_of_latest: "history_of evs h \<Longrightarrow> h_latest h = length (payload evs)"
  by (auto simp: history_of_def dest: contiguous_le)

text \<open>The event that an append of \<open>d\<close> makes.\<close>

definition next_event :: "byte \<Rightarrow> bytes \<Rightarrow> history \<Rightarrow> event" where
  "next_event ch d h =
     \<lparr>ev_channel = ch, ev_start = h_latest h, ev_end = h_latest h + length d, ev_data = d\<rparr>"

lemma append_open:
  fixes ch :: byte
  assumes "history_wf h" and "length d \<le> u64_max - h_latest h"
  defines "e \<equiv> next_event ch d h"
  defines "g \<equiv> h\<lparr>h_latest := ev_end e, h_bytes := h_bytes h + length d, h_events := h_events h @ [e]\<rparr>"
  shows "history_open g" and "retained g = retained h @ [e]"
proof -
  have h: "history_open h" using assms(1) by (simp add: history_wf_def)
  show r: "retained g = retained h @ [e]"
    using h by (simp add: history_open_def retained_def g_def)
  have "h_latest h + length d < u64_size"
    using assms(2) h u64_max_less[of "h_latest h + length d"]
    by (auto simp: history_open_def u64_max_less[symmetric])
  then show "history_open g"
    using h r by (auto simp: history_open_def g_def e_def next_event_def contiguous_append
        intro: order_trans[OF _ le_add1])
qed

lemma appendOwned_log:
  fixes ch :: byte
  assumes "history_of evs h" and "d \<noteq> []" and "length d \<le> u64_max - h_latest h"
  defines "e \<equiv> next_event ch d h"
  shows "\<exists>h'. appendOwned ch d h = (Inr e, h') \<and> history_of (evs @ [e]) h' \<and>
     h_max h' = h_max h \<and> h_acks h' = h_acks h \<and>
     (\<exists>k. retained h' = drop k (retained h @ [e]) \<and>
          (\<forall>j<k. h_max h < length (payload (drop j (retained h @ [e])))))"
proof -
  have wf: "history_wf h" and lt: "h_latest h < u64_size"
    using assms(1) by (auto simp: history_of_def history_wf_def history_open_def)
  define g where "g = h\<lparr>h_latest := ev_end e, h_bytes := h_bytes h + length d, h_events := h_events h @ [e]\<rparr>"
  have g: "history_open g" "retained g = retained h @ [e]"
    using append_open[OF wf assms(3), of ch] by (simp_all add: g_def e_def next_event_def)
  have fit: "h_latest h + length d < u64_size"
    using g(1) by (simp add: history_open_def g_def e_def next_event_def)
  have "h_bytes h \<le> h_latest h"
    using wf by (auto simp: history_wf_def history_open_def dest: contiguous_le)
  then have arith: "u64_add (h_latest h) (length d) = h_latest h + length d"
    "u64_add (h_bytes h) (length d) = h_bytes h + length d"
    "u64_sub u64_max (h_latest h) = u64_max - h_latest h"
    using fit lt by (simp_all add: u64 u64_max_def)
  have app: "appendOwned ch d h = (Inr e, compactLocked g)"
    using assms(2,3) by (simp add: appendOwned_def Let_def arith g_def e_def next_event_def)
  note c = compactLocked_spec[OF g(1)]
  have "contiguous 0 (ev_end e) (evs @ [e])"
    using assms(1) by (auto simp: history_of_def contiguous_append e_def next_event_def)
  moreover have "suffix (retained (compactLocked g)) (evs @ [e])"
  proof -
    have "suffix (retained h @ [e]) (evs @ [e])" using assms(1) by (simp add: history_of_def)
    moreover have "suffix (retained (compactLocked g)) (retained h @ [e])"
      using c(2) g(2) by (metis suffix_drop)
    ultimately show ?thesis by (rule suffix_order.trans[rotated])
  qed
  ultimately have "history_of (evs @ [e]) (compactLocked g)"
    using c by (simp add: history_of_def g_def)
  moreover have "h_max g = h_max h" "h_acks g = h_acks h" by (simp_all add: g_def)
  ultimately show ?thesis using app c g(2) by auto
qed

lemma appendOwned_full:
  assumes "history_wf h" and "u64_max - h_latest h < length d"
  shows "appendOwned ch d h = (Inl ErrSequenceFull, h)"
proof -
  have "u64_sub u64_max (h_latest h) = u64_max - h_latest h"
    using assms(1) u64_max_less[of "h_latest h"]
    by (intro u64_sub_exact) (simp_all add: history_wf_def history_open_def u64_max_def)
  with assms(2) show ?thesis by (auto simp: appendOwned_def)
qed

lemma Clear_log:
  assumes "history_of evs h"
  shows "history_of evs (snd (Clear h))" and "h_earliest (snd (Clear h)) = h_latest h"
    and "fst (Clear h) = h_latest h"
  using assms
  by (auto simp: Clear_def history_of_def history_wf_def history_open_def retained_def)

lemma SetLimit_log:
  assumes "history_of evs h" and "0 < m"
  shows "history_of evs (snd (SetLimit m h)) \<and> h_max (snd (SetLimit m h)) = m \<and>
     length (payload (retained (snd (SetLimit m h)))) \<le> m"
proof -
  have "history_open (h\<lparr>h_max := m\<rparr>)"
    using assms by (simp add: history_of_def history_wf_def history_open_def retained_def)
  note c = compactLocked_spec[OF this]
  have "retained (h\<lparr>h_max := m\<rparr>) = retained h" by (simp add: retained_def)
  then have "suffix (retained (compactLocked (h\<lparr>h_max := m\<rparr>))) (retained h)"
    using c(2) by (metis suffix_drop)
  then have "suffix (retained (compactLocked (h\<lparr>h_max := m\<rparr>))) evs"
    using assms(1) unfolding history_of_def by (blast intro: suffix_order.trans)
  with c assms show ?thesis
    by (auto simp: SetLimit_def history_of_def history_wf_def history_open_def)
qed

section \<open>Restore and acknowledge\<close>

text \<open>
  Stored events whose sequence numbers are 64-bit values. The accumulated counters of
  \<^verbatim>\<open>Restore\<close> wrap, but its final comparison with the stored bounds rules the wrap out.
\<close>

lemma restore_loop_frame:
  "restore_loop es h = Some h' \<Longrightarrow>
     h' = h\<lparr>h_events := h_events h @ es, h_bytes := h_bytes h', h_latest := h_latest h'\<rparr>"
proof (induction es arbitrary: h)
  case (Cons e es)
  then show ?case using Cons.IH[rotated] by (fastforce split: if_splits)
qed simp

lemma restore_loop_bytes:
  "restore_loop es h = Some h' \<Longrightarrow> h_bytes h + length (payload es) < u64_size \<Longrightarrow>
     h_bytes h' = h_bytes h + length (payload es)"
  by (induction es arbitrary: h) (auto simp: u64 split: if_splits)

lemma restore_loop_latest:
  assumes "restore_loop es h = Some h'" and "h_latest h < u64_size"
    and "\<forall>e\<in>set es. ev_end e < u64_size" and "length (payload es) < u64_size"
  shows "h_latest h' = u64_add (h_latest h) (length (payload es)) \<and>
     (h_latest h + length (payload es) < u64_size \<longrightarrow> contiguous (h_latest h) (h_latest h') es)"
  using assms
proof (induction es arbitrary: h)
  case Nil
  then show ?case by (simp add: u64)
next
  case (Cons e es)
  define g where "g = h\<lparr>h_events := h_events h @ [e],
    h_bytes := u64_add (h_bytes h) (length (ev_data e)), h_latest := ev_end e\<rparr>"
  have st: "ev_start e = h_latest h" "u64_sub (ev_end e) (ev_start e) = length (ev_data e)"
    "restore_loop es g = Some h'"
    using Cons.prems(1) by (auto simp: g_def split: if_splits)
  have fits: "length (ev_data e) < u64_size" "length (payload es) < u64_size" "ev_end e < u64_size"
    using Cons.prems(3,4) by auto
  then have en: "ev_end e = u64_add (h_latest h) (length (ev_data e))"
    using u64_sub_eq_iff[of "ev_end e" "ev_start e" "length (ev_data e)"] st Cons.prems(2) by simp
  have IH: "h_latest h' = u64_add (ev_end e) (length (payload es)) \<and>
      (ev_end e + length (payload es) < u64_size \<longrightarrow> contiguous (ev_end e) (h_latest h') es)"
    using Cons.IH[OF st(3)] fits Cons.prems(3) by (auto simp: g_def)
  have "h_latest h' = u64_add (h_latest h) (length (payload (e # es)))"
    using IH en by (simp add: u64_add_def mod_add_left_eq add.assoc)
  moreover have "h_latest h + length (payload (e # es)) < u64_size \<Longrightarrow>
      contiguous (h_latest h) (h_latest h') (e # es)"
  proof -
    assume fit: "h_latest h + length (payload (e # es)) < u64_size"
    then have "ev_end e = h_latest h + length (ev_data e)" using en by (simp add: u64)
    with fit IH st(1) show ?thesis by auto
  qed
  ultimately show ?case by blast
qed

lemma Restore_wf:
  assumes "Restore m a b es = Inr h" and "a < u64_size" and "b < u64_size"
    and "\<forall>e\<in>set es. ev_end e < u64_size" and "length (payload es) < u64_size"
  shows "history_wf h \<and> retained h = es \<and> h_earliest h = a \<and> h_latest h = b \<and> h_max h = m"
proof -
  define g where "g = \<lparr>h_max = m, h_bytes = 0, h_earliest = a, h_latest = a, h_events = [],
    h_head = 0, h_acks = []\<rparr>"
  have r: "0 < m" "a \<le> b" "restore_loop es g = Some h" "h_latest h = b" "h_bytes h \<le> m"
    using assms(1) by (auto simp: Restore_def New_def g_def split: if_splits option.splits)
  have h: "h = g\<lparr>h_events := es, h_bytes := h_bytes h, h_latest := h_latest h\<rparr>"
    using restore_loop_frame[OF r(3)] by (simp add: g_def)
  note lat = restore_loop_latest[OF r(3) _ assms(4,5)]
  have fit: "a + length (payload es) < u64_size"
  proof (rule ccontr)
    assume no: "\<not> a + length (payload es) < u64_size"
    then have "u64_add a (length (payload es)) = a + length (payload es) - u64_size"
      using assms(2,5) by (simp add: u64_add_def mod_if)
    then have "b = a + length (payload es) - u64_size" using lat r(4) assms(2) by (simp add: g_def)
    with r(2) assms(5) no show False by linarith
  qed
  have "h_bytes h = length (payload es)"
    using restore_loop_bytes[OF r(3)] assms(5) by (simp add: g_def)
  moreover have "contiguous a b es" using lat fit r(4) assms(2) by (auto simp: g_def)
  moreover have "retained h = es" "h_max h = m" "h_earliest h = a" "h_head h = 0" "h_acks h = []"
    "h_events h = es"
    by (subst h, simp add: g_def retained_def)+
  ultimately show ?thesis
    using r assms(3) by (simp add: history_wf_def history_open_def)
qed

lemma restore_loop_contiguous:
  assumes "contiguous (h_latest h) b es" and "b < u64_size"
  shows "\<exists>h'. restore_loop es h = Some h' \<and> h_latest h' = b"
  using assms
proof (induction es arbitrary: h)
  case (Cons e es)
  have "ev_end e \<le> b" using Cons.prems(1) by (auto dest: contiguous_le)
  then show ?case using Cons by (simp add: u64)
qed simp

lemma Restore_retained:
  assumes "history_wf h"
  shows "\<exists>h'. Restore (h_max h) (h_earliest h) (h_latest h) (retained h) = Inr h' \<and>
     retained h' = retained h \<and> h_bytes h' = h_bytes h"
proof -
  define g where "g = \<lparr>h_max = h_max h, h_bytes = 0, h_earliest = h_earliest h,
    h_latest = h_earliest h, h_events = [], h_head = 0, h_acks = []\<rparr>"
  have wf: "0 < h_max h" "contiguous (h_earliest h) (h_latest h) (retained h)" "h_latest h < u64_size"
    "h_bytes h = length (payload (retained h))" "h_bytes h \<le> h_max h"
    using assms by (auto simp: history_wf_def history_open_def)
  have le: "h_latest h = h_earliest h + h_bytes h" using contiguous_le[OF wf(2)] wf(4) by simp
  have "contiguous (h_latest g) (h_latest h) (retained h)" using wf(2) by (simp add: g_def)
  then obtain h' where h': "restore_loop (retained h) g = Some h'" "h_latest h' = h_latest h"
    using restore_loop_contiguous wf(3) by blast
  have "h_bytes h' = h_bytes h" using restore_loop_bytes[OF h'(1)] wf(3,4) le by (simp add: g_def)
  moreover have "retained h' = retained h"
    by (subst restore_loop_frame[OF h'(1)]) (simp add: g_def retained_def)
  moreover have "Restore (h_max h) (h_earliest h) (h_latest h) (retained h) = Inr h'"
    using h' wf(1,5) le \<open>h_bytes h' = h_bytes h\<close> by (simp add: Restore_def New_def g_def)
  ultimately show ?thesis by blast
qed

lemma restore_loop_earliest: "restore_loop es h = Some h' \<Longrightarrow> h_earliest h' = h_earliest h"
  by (induction es arbitrary: h) (auto split: if_splits)

lemma Restore_bounds: "Restore m a b es = Inr h \<Longrightarrow> h_earliest h = a \<and> h_latest h = b"
  by (auto simp: Restore_def New_def split: if_splits option.splits dest: restore_loop_earliest)

lemma Acknowledge_wf:
  assumes "history_wf h"
  shows "history_wf (snd (Acknowledge a n h))"
  using assms
  by (auto simp: Acknowledge_def history_wf_def history_open_def retained_def update_conv')

lemma Acknowledge_monotone:
  "fst (Acknowledge a n h) = Inr () \<Longrightarrow>
     ack_of a h \<le> ack_of a (snd (Acknowledge a n h)) \<and> ack_of a (snd (Acknowledge a n h)) = n"
  by (auto simp: Acknowledge_def ack_of_def update_conv' split: if_splits)

section \<open>Runs\<close>

lemma Acknowledge_log: "history_of evs h \<Longrightarrow> history_of evs (snd (Acknowledge a n h))"
  using Acknowledge_wf[of h a n]
  by (auto simp: history_of_def Acknowledge_def retained_def)

lemma appendOwned_empty:
  "fst (appendOwned ch [] h) = Inr (next_event ch [] h) \<and> snd (appendOwned ch [] h) = h"
  by (simp add: appendOwned_def next_event_def)

lemma log_inv_append: "history_of evs h \<Longrightarrow> log_inv (hist_exec (OpAppend ch d) (evs, h))"
proof -
  assume h: "history_of evs h"
  then have wf: "history_wf h" by (simp add: history_of_def)
  consider "d = []" | "d \<noteq> []" "length d \<le> u64_max - h_latest h"
    | "d \<noteq> []" "u64_max - h_latest h < length d" by linarith
  then show ?thesis
  proof cases
    case 1
    with h show ?thesis by (simp add: log_inv_def appendOwned_def)
  next
    case 2
    with appendOwned_log[OF h, of d ch] show ?thesis by (auto simp: log_inv_def)
  next
    case 3
    with appendOwned_full[OF wf] h show ?thesis by (simp add: log_inv_def)
  qed
qed

lemma SetLimit_zero: "SetLimit 0 h = (Inl ErrInvalidLimit, h)"
  by (simp add: SetLimit_def)

interpretation log_run: machine hist_exec log_inv "\<lambda>_. True"
proof unfold_locales
  fix s op
  assume "log_inv s"
  then obtain evs h where s: "s = (evs, h)" "history_of evs h" by (cases s) (simp add: log_inv_def)
  show "log_inv (hist_exec op s)"
  proof (cases op)
    case (OpAppend ch d)
    with s log_inv_append show ?thesis by simp
  next
    case (OpSetLimit m)
    with s SetLimit_log[OF s(2)] show ?thesis by (cases "m = 0") (auto simp: log_inv_def SetLimit_zero)
  next
    case OpClear
    with s Clear_log show ?thesis by (simp add: log_inv_def)
  next
    case (OpAcknowledge a n)
    with s Acknowledge_log show ?thesis by (simp add: log_inv_def)
  qed
qed

lemma New_log: "New m = Inr h \<Longrightarrow> log_inv ([], h)"
  by (auto simp: New_def log_inv_def history_of_def history_wf_def history_open_def retained_def
      split: if_splits)

lemma run_log: "New m = Inr h0 \<Longrightarrow> fold hist_exec ops ([], h0) = (evs, h) \<Longrightarrow> history_of evs h"
  using log_run.run[OF New_log, of m h0 ops] by (simp add: log_inv_def list_all_iff)

text \<open>A run whose second append evicts the first event, for the examples below.\<close>

definition ex_new :: history where
  "ex_new = \<lparr>h_max = 4, h_bytes = 0, h_earliest = 0, h_latest = 0, h_events = [], h_head = 0, h_acks = []\<rparr>"

definition ex_ops :: "hist_op list" where
  "ex_ops = [OpAppend CHR 0x01 ''abc'', OpAppend CHR 0x01 ''de'', OpAcknowledge ''a'' 4]"

definition ex_evs :: "event list" where
  "ex_evs = [\<lparr>ev_channel = CHR 0x01, ev_start = 0, ev_end = 3, ev_data = ''abc''\<rparr>,
             \<lparr>ev_channel = CHR 0x01, ev_start = 3, ev_end = 5, ev_data = ''de''\<rparr>]"

definition ex_history :: history where
  "ex_history =
     \<lparr>h_max = 4, h_bytes = 2, h_earliest = 3, h_latest = 5,
      h_events = [zero_event, \<lparr>ev_channel = CHR 0x01, ev_start = 3, ev_end = 5, ev_data = ''de''\<rparr>],
      h_head = 1, h_acks = [(''a'', 4)]\<rparr>"

lemma ex_run: "New 4 = Inr ex_new" "fold hist_exec ex_ops ([], ex_new) = (ex_evs, ex_history)"
  by (simp_all add: New_def ex_new_def ex_ops_def ex_evs_def ex_history_def appendOwned_def
      compactLocked_def compact_loop.simps Acknowledge_def ack_of_def u64_sub_def u64_add_def
      u64_max_def u64_size_def Let_def)

section \<open>Properties\<close>

text \<open>
  C15. Replay is exact. Whatever appends, limit changes, clears and acknowledgements a history
  has seen, a replay from any retained offset returns contiguous events that carry exactly
  the bytes of the session's output from that offset, as many as the byte limit allows and
  all of them when it is 0.
\<close>

theorem replay_exact:
  assumes "New m = Inr h0" and "fold hist_exec ops ([], h0) = (evs, h)"
    and "h_earliest h \<le> fr" and "fr \<le> h_latest h" and "lim < u64_size"
  shows "\<exists>ps. ReplayOwned fr lim h =
       Inr \<lparr>rp_from = fr, rp_to = fr + replay_span lim lim (h_latest h - fr),
            rp_earliest = h_earliest h, rp_latest = h_latest h, rp_events = ps\<rparr>
     \<and> contiguous fr (fr + replay_span lim lim (h_latest h - fr)) ps
     \<and> payload ps = slice (payload evs) fr (fr + replay_span lim lim (h_latest h - fr))"
  using ReplayOwned_exact[OF run_log[OF assms(1,2)] assms(3-5)] by blast

theorem replay_exact_witness:
  "\<exists>ps. ReplayOwned 4 0 ex_history =
       Inr \<lparr>rp_from = 4, rp_to = 5, rp_earliest = 3, rp_latest = 5, rp_events = ps\<rparr>
     \<and> contiguous 4 5 ps \<and> payload ps = ''e''"
  using replay_exact[OF ex_run, of 4 0]
  by (simp add: ex_history_def ex_evs_def replay_span_def slice_def u64_size_def)

text \<open>
  C36. The byte bound. After any operations the history retains at most \<^verbatim>\<open>maxBytes\<close>, as a suffix of
  the output, its counter is the size of what it retains, and its end is the number of bytes
  ever appended.
\<close>

theorem history_bounded:
  assumes "New m = Inr h0" and "fold hist_exec ops ([], h0) = (evs, h)"
  shows "suffix (retained h) evs \<and> h_bytes h = length (payload (retained h)) \<and>
     h_bytes h \<le> h_max h \<and> h_latest h = length (payload evs) \<and>
     h_earliest h + h_bytes h = h_latest h"
proof -
  note h = run_log[OF assms]
  have "contiguous (h_earliest h) (h_latest h) (retained h)"
    using h by (simp add: history_of_def history_wf_def history_open_def)
  with h history_of_latest[OF h] show ?thesis
    by (auto simp: history_of_def history_wf_def history_open_def dest: contiguous_le)
qed

theorem history_bounded_witness:
  "suffix (retained ex_history) ex_evs \<and> h_bytes ex_history \<le> 4 \<and>
     h_latest ex_history = length (payload ex_evs)"
  using history_bounded[OF ex_run] by (simp add: ex_history_def)

text \<open>
  C37. Eviction is minimal. An append drops events from the front only while what is left
  exceeds the limit.
\<close>

theorem append_evicts_minimally:
  assumes "New m = Inr h0" and "fold hist_exec ops ([], h0) = (evs, h)"
    and "d \<noteq> []" and "length d \<le> u64_max - h_latest h"
  shows "\<exists>h' k. appendOwned ch d h = (Inr (next_event ch d h), h') \<and>
     retained h' = drop k (retained h @ [next_event ch d h]) \<and>
     (\<forall>j<k. h_max h < length (payload (drop j (retained h @ [next_event ch d h]))))"
  using appendOwned_log[OF run_log[OF assms(1,2)] assms(3,4), of ch] by blast

theorem append_evicts_minimally_witness:
  "\<exists>h' k. appendOwned CHR 0x01 ''xyz'' ex_history = (Inr (next_event CHR 0x01 ''xyz'' ex_history), h') \<and>
     retained h' = drop k (retained ex_history @ [next_event CHR 0x01 ''xyz'' ex_history]) \<and>
     (\<forall>j<k. 4 < length (payload (drop j (retained ex_history @ [next_event CHR 0x01 ''xyz'' ex_history]))))"
proof -
  have "h_max ex_history = 4" "length ''xyz'' \<le> u64_max - h_latest ex_history"
    by (simp_all add: ex_history_def u64_max_def u64_size_def)
  with append_evicts_minimally[OF ex_run, of "''xyz''" "CHR 0x01"] show ?thesis by simp
qed

text \<open>
  C38. Restore round trip. Storing the bounds and retained events of a history and restoring
  them is accepted and gives back the same retained output.
\<close>

theorem restore_roundtrip:
  assumes "New m = Inr h0" and "fold hist_exec ops ([], h0) = (evs, h)"
  shows "\<exists>h'. Restore (h_max h) (h_earliest h) (h_latest h) (retained h) = Inr h' \<and>
     retained h' = retained h \<and> Bounds h' = Bounds h"
proof -
  have wf: "history_wf h" using run_log[OF assms] by (simp add: history_of_def)
  obtain h' where h': "Restore (h_max h) (h_earliest h) (h_latest h) (retained h) = Inr h'"
    "retained h' = retained h" "h_bytes h' = h_bytes h"
    using Restore_retained[OF wf] by blast
  then show ?thesis using Restore_bounds[OF h'(1)] by (auto simp: Bounds_def)
qed

theorem restore_roundtrip_witness:
  "\<exists>h'. Restore 4 3 5 (retained ex_history) = Inr h' \<and>
     retained h' = retained ex_history \<and> Bounds h' = (3, 5, 2)"
  using restore_roundtrip[OF ex_run] by (simp add: ex_history_def Bounds_def)

end
