(* ===== verification/Session_State.thy ===== *)
theory Session_State
  imports Prelude
begin

text \<open>
  The life cycle of a terminal session and of an attachment,
  \<^verbatim>\<open>internal/hostruntime/session/state.go\<close>, and the part of \<^verbatim>\<open>Manager.recover\<close>
  (\<^verbatim>\<open>internal/hostruntime/session/manager.go\<close>) that rebuilds a life cycle from a stored record
  after the runtime restarts.
\<close>

section \<open>Life cycle\<close>

text \<open>
  The source has \<^verbatim>\<open>type State string\<close> with seven constants. A life cycle only ever holds one of the
  seven; \<open>state_of\<close> is the reading of a stored string, \<^const>\<open>None\<close> for a string that is not a key of
  \<^verbatim>\<open>transitions\<close>.
\<close>

datatype state = Creating | Running | Exited | Restarting | Closing | Closed | Deleted

fun state_string :: "state \<Rightarrow> string" where
  "state_string Creating = ''creating''"
| "state_string Running = ''running''"
| "state_string Exited = ''exited''"
| "state_string Restarting = ''restarting''"
| "state_string Closing = ''closing''"
| "state_string Closed = ''closed''"
| "state_string Deleted = ''deleted''"

definition state_of :: "string \<Rightarrow> state option" where
  "state_of s =
     List.find (\<lambda>st. state_string st = s)
       [Creating, Running, Exited, Restarting, Closing, Closed, Deleted]"

text \<open>The table \<^verbatim>\<open>transitions\<close>.\<close>

fun transitions :: "state \<Rightarrow> state set" where
  "transitions Creating = {Running, Exited, Closed}"
| "transitions Running = {Exited, Closing, Restarting}"
| "transitions Exited = {Restarting, Closing, Deleted}"
| "transitions Restarting = {Running, Exited, Closed}"
| "transitions Closing = {Closed}"
| "transitions Closed = {Restarting, Deleted}"
| "transitions Deleted = {}"

record lifecycle =
  lc_state :: state
  lc_generation :: nat

datatype state_error = ErrInvalidTransition | ErrInvalidSession

definition NewLifecycle :: lifecycle where
  "NewLifecycle = \<lparr>lc_state = Creating, lc_generation = 0\<rparr>"

definition RecoverLifecycle :: "string \<Rightarrow> nat \<Rightarrow> state_error + lifecycle" where
  "RecoverLifecycle s g =
     (case state_of s of
        None \<Rightarrow> Inl ErrInvalidTransition
      | Some st \<Rightarrow>
          if st = Creating \<and> g \<noteq> 0 \<or>
             (st = Running \<or> st = Exited \<or> st = Restarting \<or> st = Closing) \<and> g = 0
          then Inl ErrInvalidTransition
          else Inr \<lparr>lc_state = st, lc_generation = g\<rparr>)"

definition Snapshot :: "lifecycle \<Rightarrow> state \<times> nat" where
  "Snapshot l = (lc_state l, lc_generation l)"

definition Transition :: "state \<Rightarrow> lifecycle \<Rightarrow> state_error + lifecycle" where
  "Transition to l =
     (if to \<notin> transitions (lc_state l) then Inl ErrInvalidTransition
      else
        let g = (if to = Running \<and> (lc_state l = Creating \<or> lc_state l = Restarting)
                 then u64_add (lc_generation l) 1 else lc_generation l)
        in Inr \<lparr>lc_state = to, lc_generation = g\<rparr>)"

section \<open>Attachments\<close>

datatype attachment_state = Attaching | Attached | Detached | Evicted

fun attachmentTransitions :: "attachment_state \<Rightarrow> attachment_state set" where
  "attachmentTransitions Attaching = {Attached, Detached, Evicted}"
| "attachmentTransitions Attached = {Detached, Evicted}"
| "attachmentTransitions Detached = {}"
| "attachmentTransitions Evicted = {}"

definition NewAttachment :: attachment_state where
  "NewAttachment = Attaching"

definition Attachment_Transition :: "attachment_state \<Rightarrow> attachment_state \<Rightarrow> state_error + attachment_state" where
  "Attachment_Transition to s = (if to \<in> attachmentTransitions s then Inr to else Inl ErrInvalidTransition)"

section \<open>Recovery of a stored session\<close>

text \<open>
  The switch of \<^verbatim>\<open>Manager.recover\<close> on the stored state of a record, \<^const>\<open>None\<close> for its default
  branch, and the two failures a record's life cycle can cause.
\<close>

fun recovered_state :: "state option \<Rightarrow> state option" where
  "recovered_state (Some Creating) = Some Closed"
| "recovered_state (Some Running) = Some Exited"
| "recovered_state (Some Restarting) = Some Exited"
| "recovered_state (Some Closing) = Some Closed"
| "recovered_state (Some Exited) = Some Exited"
| "recovered_state (Some Closed) = Some Closed"
| "recovered_state _ = None"

definition recover_record :: "string \<Rightarrow> nat \<Rightarrow> state_error + lifecycle" where
  "recover_record s g =
     (case recovered_state (state_of s) of
        None \<Rightarrow> Inl ErrInvalidSession
      | Some r \<Rightarrow> RecoverLifecycle (state_string r) g)"

text \<open>
  A life cycle changes by a transition, or by a restart of the runtime that finds it stored
  as it was.
\<close>

inductive lc_step :: "lifecycle \<Rightarrow> lifecycle \<Rightarrow> bool" where
  transition: "Transition to l = Inr l' \<Longrightarrow> lc_step l l'"
| recovery: "recover_record (state_string (lc_state l)) (lc_generation l) = Inr l' \<Longrightarrow> lc_step l l'"

inductive_cases lc_stepE: "lc_step l l'"

section \<open>Lemmas\<close>

lemma state_of_string [simp]: "state_of (state_string st) = Some st"
  by (cases st) (simp_all add: state_of_def)

lemma state_of_Some: "state_of s = Some st \<Longrightarrow> s = state_string st"
  by (auto simp: state_of_def split: if_splits)

declare state_string.simps [simp del]

lemma Transition_Inr:
  "Transition to l = Inr l' \<longleftrightarrow>
     to \<in> transitions (lc_state l) \<and> lc_state l' = to \<and>
     lc_generation l' =
       (if to = Running \<and> (lc_state l = Creating \<or> lc_state l = Restarting)
        then u64_add (lc_generation l) 1 else lc_generation l)"
  by (cases l') (auto simp: Transition_def Let_def)

lemma enter_Running: "Running \<in> transitions s \<longleftrightarrow> s = Creating \<or> s = Restarting"
  by (cases s) auto

text \<open>The generation increases by one exactly when a process is started.\<close>

lemma Transition_generation:
  assumes "Transition to l = Inr l'" and "lc_generation l < u64_max"
  shows "lc_generation l' = (if to = Running then Suc (lc_generation l) else lc_generation l)"
  using assms by (auto simp: Transition_Inr enter_Running u64 u64_max_def)

lemma recovered_state_cases:
  "recovered_state st = Some r \<Longrightarrow> r = Exited \<or> r = Closed"
  by (induction st rule: recovered_state.induct) auto

lemma recover_record_keeps:
  "recover_record s g = Inr l \<Longrightarrow> lc_generation l = g \<and> (lc_state l = Exited \<or> lc_state l = Closed)"
  by (auto simp: recover_record_def RecoverLifecycle_def dest: recovered_state_cases
      split: option.splits if_splits)

text \<open>Deletion is final.\<close>

lemma Deleted_final: "lc_state l = Deleted \<Longrightarrow> \<not> lc_step l l'"
  by (auto elim!: lc_stepE simp: Transition_Inr recover_record_def)

text \<open>
  A running process has a generation of its own: along any run the generation never
  decreases and each entry into \<^const>\<open>Running\<close> takes a fresh one.
\<close>

lemma lc_step_generation:
  assumes "lc_step l l'" and "lc_generation l < u64_max"
  shows "lc_generation l \<le> lc_generation l' \<and>
     (lc_state l' = Running \<longrightarrow> lc_generation l < lc_generation l')"
  using assms(1)
proof cases
  case (transition to)
  then show ?thesis using Transition_generation[OF transition assms(2)]
    by (auto simp: Transition_Inr)
next
  case recovery
  then show ?thesis by (auto dest!: recover_record_keeps)
qed

text \<open>Which stored records recovery accepts.\<close>

lemma recover_record_accepts:
  "(\<exists>l. recover_record (state_string st) g = Inr l) \<longleftrightarrow>
     st \<noteq> Deleted \<and> (st = Running \<or> st = Restarting \<or> st = Exited \<longrightarrow> 0 < g)"
  by (cases st) (auto simp: recover_record_def RecoverLifecycle_def)

text \<open>Along \<open>n\<close> steps the generation grows by at most \<open>n\<close>.\<close>

lemma lc_step_bound: "lc_step l l' \<Longrightarrow> lc_generation l < u64_max \<Longrightarrow> lc_generation l' \<le> Suc (lc_generation l)"
  by (auto elim!: lc_stepE dest!: recover_record_keeps simp: Transition_Inr u64 u64_max_def split: if_splits)

lemma lc_steps_generation:
  "(lc_step ^^ n) l l' \<Longrightarrow> lc_generation l + n \<le> u64_max \<Longrightarrow>
     lc_generation l \<le> lc_generation l' \<and> lc_generation l' \<le> lc_generation l + n"
proof (induction n arbitrary: l')
  case (Suc n)
  then obtain k where k: "(lc_step ^^ n) l k" "lc_step k l'" by auto
  then have "lc_generation l \<le> lc_generation k" "lc_generation k \<le> lc_generation l + n"
    using Suc.IH[OF k(1)] Suc.prems(2) by simp_all
  moreover from this have "lc_generation k < u64_max" using Suc.prems(2) by simp
  ultimately show ?case
    using lc_step_generation[OF k(2)] lc_step_bound[OF k(2)] by simp
qed simp

section \<open>Properties\<close>





end
