(* ===== verification/Fanout.thy ===== *)
theory Fanout
  imports History Session_State
begin

text \<open>
  Distribution of a session's output to its attachments,
  \<^verbatim>\<open>internal/hostruntime/session/fanout.go\<close>: one ordered ring of output events shared by all
  attachments, and for each attachment a cursor into it with a bound on the bytes it has
  still to read. An attachment that falls behind its bound is evicted; it never slows the
  others down.
\<close>

section \<open>Data\<close>

datatype fanout_error =
    ErrAttachmentExists
  | ErrAttachmentUnknown
  | ErrAttachmentEvicted
  | ErrOutputOrder
  | ErrInvalidQueueLimit
  | ErrFanoutTransition

record eviction =
  evict_id :: string
  evict_queued :: nat
  evict_reason :: string

text \<open>\<open>cu_notify\<close> is whether the one-element channel \<^verbatim>\<open>notify\<close> holds its token.\<close>

record attachmentCursor =
  cu_state :: attachment_state
  cu_max :: nat
  cu_queued :: nat
  cu_evicted :: nat
  cu_cursor :: nat
  cu_end :: nat
  cu_has :: bool
  cu_notify :: bool

record fanout =
  fo_attachments :: "(string \<times> attachmentCursor) list"
  fo_active :: "string set"
  fo_ring :: "event list"

definition NewFanout :: fanout where
  "NewFanout = \<lparr>fo_attachments = [], fo_active = {}, fo_ring = []\<rparr>"

section \<open>The ring\<close>

definition validOutputEvent :: "event \<Rightarrow> bool" where
  "validOutputEvent e \<longleftrightarrow>
     ev_start e \<le> ev_end e \<and> ev_end e - ev_start e = length (ev_data e) \<and> length (ev_data e) \<noteq> 0"

definition eventAtLocked :: "nat \<Rightarrow> event list \<Rightarrow> event option" where
  "eventAtLocked s ring =
     (let i = sort_search (length ring) (\<lambda>i. s < ev_end (ring ! i))
      in if i = length ring \<or> s < ev_start (ring ! i) then None else Some (ring ! i))"

text \<open>
  The test that one event contains another, made both ways by \<^verbatim>\<open>insertEventLocked\<close>; its guards
  keep the differences from wrapping.
\<close>

definition covers :: "event \<Rightarrow> event \<Rightarrow> bool" where
  "covers x e \<longleftrightarrow>
     ev_start x \<le> ev_start e \<and> ev_end e \<le> ev_end x \<and> ev_channel x = ev_channel e \<and>
     slice (ev_data x) (ev_start e - ev_start x) (ev_end e - ev_start x) = ev_data e"

datatype scan = Covered | Absorbs "event list" | Fresh

text \<open>
  The loop over the ring: \<open>Covered\<close> is its early return, \<open>Absorbs\<close> the ring without the first
  event that the new one contains, \<open>Fresh\<close> the end of the loop.
\<close>

fun scan_ring :: "event \<Rightarrow> event list \<Rightarrow> event list \<Rightarrow> scan" where
  "scan_ring e seen [] = Fresh"
| "scan_ring e seen (x # xs) =
     (if covers x e then Covered
      else if covers e x then Absorbs (seen @ xs)
      else scan_ring e (seen @ [x]) xs)"

definition sort_ring :: "event list \<Rightarrow> event list" where
  "sort_ring = sort_key (\<lambda>e. (int (ev_start e), - int (ev_end e)))"

lemma scan_ring_shrinks: "scan_ring e seen xs = Absorbs r \<Longrightarrow> length r < length seen + length xs"
  by (induction xs arbitrary: seen) (fastforce split: if_splits)+

function insertEventLocked :: "event \<Rightarrow> event list \<Rightarrow> event list" where
  "insertEventLocked e ring =
     (case scan_ring e [] ring of
        Covered \<Rightarrow> ring
      | Absorbs r \<Rightarrow> insertEventLocked e r
      | Fresh \<Rightarrow> sort_ring (ring @ [e]))"
  by pat_completeness auto
termination
  by (relation "measure (\<lambda>(e, ring). length ring)") (auto dest: scan_ring_shrinks)

declare insertEventLocked.simps [simp del]

text \<open>The least cursor of the attached clients, and the ring from it on.\<close>

fun min_cursor :: "(string \<times> attachmentCursor) list \<Rightarrow> nat option \<Rightarrow> nat option" where
  "min_cursor [] m = m"
| "min_cursor ((i, c) # cs) m =
     (if cu_state c \<noteq> Attached \<or> \<not> cu_has c then min_cursor cs m
      else (case m of
              None \<Rightarrow> min_cursor cs (Some (cu_cursor c))
            | Some k \<Rightarrow> min_cursor cs (Some (if cu_cursor c < k then cu_cursor c else k))))"

definition fanout_compactLocked :: "fanout \<Rightarrow> fanout" where
  "fanout_compactLocked f =
     (case min_cursor (fo_attachments f) None of
        None \<Rightarrow> f\<lparr>fo_ring := []\<rparr>
      | Some k \<Rightarrow> f\<lparr>fo_ring := dropWhile (\<lambda>e. ev_end e \<le> k) (fo_ring f)\<rparr>)"

section \<open>Operations\<close>

definition Attach :: "string \<Rightarrow> nat \<Rightarrow> fanout \<Rightarrow> (fanout_error + unit) \<times> fanout" where
  "Attach a maxPending f =
     (if a = [] \<or> maxPending = 0 then (Inl ErrInvalidQueueLimit, f)
      else if (case map_of (fo_attachments f) a of
                 None \<Rightarrow> False | Some c \<Rightarrow> cu_state c = Attached)
      then (Inl ErrAttachmentExists, f)
      else (Inr (),
            f\<lparr>fo_attachments := AList.update a
                 \<lparr>cu_state = Attached, cu_max = maxPending, cu_queued = 0, cu_evicted = 0,
                  cu_cursor = 0, cu_end = 0, cu_has = False, cu_notify = False\<rparr> (fo_attachments f),
               fo_active := insert a (fo_active f)\<rparr>))"

definition Detach :: "string \<Rightarrow> fanout \<Rightarrow> (fanout_error + unit) \<times> fanout" where
  "Detach a f =
     (case map_of (fo_attachments f) a of
        None \<Rightarrow> (Inl ErrAttachmentUnknown, f)
      | Some c \<Rightarrow>
          if cu_state c \<noteq> Attached \<and> cu_state c \<noteq> Evicted then (Inl ErrFanoutTransition, f)
          else (Inr (), fanout_compactLocked
                  (f\<lparr>fo_attachments := AList.delete a (fo_attachments f),
                     fo_active := fo_active f - {a}\<rparr>)))"

definition Count :: "fanout \<Rightarrow> nat" where
  "Count f = length (filter (\<lambda>(i, c). cu_state c = Attached) (fo_attachments f))"

definition IsAttached :: "string \<Rightarrow> fanout \<Rightarrow> bool" where
  "IsAttached a f \<longleftrightarrow> a \<in> fo_active f"

definition evict :: "attachmentCursor \<Rightarrow> attachmentCursor" where
  "evict c = c\<lparr>cu_evicted := cu_queued c, cu_queued := 0, cu_state := Evicted, cu_notify := True\<rparr>"

definition enqueue :: "event \<Rightarrow> attachmentCursor \<Rightarrow> attachmentCursor" where
  "enqueue e c =
     (let c = (if cu_has c then c else c\<lparr>cu_cursor := ev_start e, cu_has := True\<rparr>)
      in c\<lparr>cu_end := ev_end e, cu_queued := u64_add (cu_queued c) (length (ev_data e)),
           cu_notify := True\<rparr>)"

definition overflows :: "event \<Rightarrow> attachmentCursor \<Rightarrow> bool" where
  "overflows e c \<longleftrightarrow> u64_sub (cu_max c) (cu_queued c) < length (ev_data e)"

definition publish_one :: "event \<Rightarrow> attachmentCursor \<Rightarrow> attachmentCursor" where
  "publish_one e c =
     (if cu_state c \<noteq> Attached then c else if overflows e c then evict c else enqueue e c)"

definition slow :: "event \<Rightarrow> fanout \<Rightarrow> (string \<times> attachmentCursor) list" where
  "slow e f = filter (\<lambda>(i, c). cu_state c = Attached \<and> overflows e c) (fo_attachments f)"

definition PublishOwned :: "event \<Rightarrow> fanout \<Rightarrow> (fanout_error + eviction list) \<times> fanout" where
  "PublishOwned e f =
     (if \<not> validOutputEvent e then (Inl ErrOutputOrder, f)
      else if list_ex (\<lambda>(i, c). cu_state c = Attached \<and> cu_has c \<and> cu_end c \<noteq> ev_start e) (fo_attachments f)
      then (Inl ErrOutputOrder, f)
      else (Inr (map (\<lambda>(i, c). \<lparr>evict_id = i, evict_queued = cu_queued c, evict_reason = ''slow_consumer''\<rparr>) (slow e f)),
            fanout_compactLocked
              (f\<lparr>fo_ring := insertEventLocked e (fo_ring f),
                 fo_attachments := map (\<lambda>(i, c). (i, publish_one e c)) (fo_attachments f),
                 fo_active := fo_active f - fst ` set (slow e f)\<rparr>)))"

definition EnqueueOwned :: "string \<Rightarrow> event \<Rightarrow> fanout \<Rightarrow> (fanout_error + eviction option) \<times> fanout" where
  "EnqueueOwned a e f =
     (if \<not> validOutputEvent e then (Inl ErrOutputOrder, f)
      else case map_of (fo_attachments f) a of
        None \<Rightarrow> (Inl ErrAttachmentUnknown, f)
      | Some c \<Rightarrow>
          if cu_state c = Evicted then (Inl ErrAttachmentEvicted, f)
          else if cu_state c \<noteq> Attached then (Inl ErrFanoutTransition, f)
          else if cu_has c \<and> cu_end c \<noteq> ev_start e then (Inl ErrOutputOrder, f)
          else if overflows e c
          then (Inr (Some \<lparr>evict_id = a, evict_queued = cu_queued c, evict_reason = ''slow_consumer''\<rparr>),
                fanout_compactLocked
                  (f\<lparr>fo_attachments := AList.update a (evict c) (fo_attachments f),
                     fo_active := fo_active f - {a}\<rparr>))
          else (Inr None,
                f\<lparr>fo_ring := insertEventLocked e (fo_ring f),
                  fo_attachments := AList.update a (enqueue e c) (fo_attachments f)\<rparr>))"

text \<open>
  \<^verbatim>\<open>Next\<close>, and one pass of the loop of \<^verbatim>\<open>WaitNextOwned\<close> up to the point where it would wait for
  a notification: they take the same event, \<^const>\<open>None\<close> is the empty answer of the one and the wait
  of the other.
\<close>

definition Next :: "string \<Rightarrow> fanout \<Rightarrow> (fanout_error + event option) \<times> fanout" where
  "Next a f =
     (case map_of (fo_attachments f) a of
        None \<Rightarrow> (Inl ErrAttachmentUnknown, f)
      | Some c \<Rightarrow>
          if cu_state c = Evicted then (Inl ErrAttachmentEvicted, f)
          else if cu_state c \<noteq> Attached then (Inl ErrFanoutTransition, f)
          else if \<not> cu_has c \<or> cu_end c \<le> cu_cursor c then (Inr None, f)
          else (case eventAtLocked (cu_cursor c) (fo_ring f) of
                  None \<Rightarrow> (Inl ErrOutputOrder, f)
                | Some e \<Rightarrow>
                    (Inr (Some \<lparr>ev_channel = ev_channel e, ev_start = cu_cursor c, ev_end = ev_end e,
                                ev_data = drop (u64_sub (cu_cursor c) (ev_start e)) (ev_data e)\<rparr>),
                     fanout_compactLocked
                       (f\<lparr>fo_attachments := AList.update a
                            (c\<lparr>cu_cursor := ev_end e,
                               cu_queued := u64_sub (cu_queued c) (u64_sub (ev_end e) (cu_cursor c))\<rparr>)
                            (fo_attachments f)\<rparr>))))"

definition Status :: "string \<Rightarrow> fanout \<Rightarrow> fanout_error + (attachment_state \<times> nat)" where
  "Status a f =
     (case map_of (fo_attachments f) a of
        None \<Rightarrow> Inl ErrAttachmentUnknown
      | Some c \<Rightarrow> Inr (cu_state c, if cu_state c = Evicted then cu_evicted c else cu_queued c))"

section \<open>Specification\<close>

text \<open>
  The log \<open>evs\<close> is everything the session has produced. The ring holds suffixes of log events,
  disjoint and in order; \<open>ring_has s\<close> says that it holds the byte at offset \<open>s\<close>.
\<close>

definition log_ok :: "event list \<Rightarrow> bool" where
  "log_ok evs \<longleftrightarrow>
     contiguous 0 (length (payload evs)) evs \<and> (\<forall>e\<in>set evs. ev_data e \<noteq> []) \<and>
     length (payload evs) < u64_size"

definition piece_of :: "event list \<Rightarrow> event \<Rightarrow> bool" where
  "piece_of evs r \<longleftrightarrow> (\<exists>l\<in>set evs. \<exists>p. ev_start l \<le> p \<and> p < ev_end l \<and> r = trim p l)"

definition boundary :: "event list \<Rightarrow> nat \<Rightarrow> bool" where
  "boundary evs n \<longleftrightarrow> (\<exists>l\<in>set evs. ev_end l = n)"

definition before :: "event \<Rightarrow> event \<Rightarrow> bool" where
  "before x y \<longleftrightarrow> ev_end x \<le> ev_start y"

definition ring_ok :: "event list \<Rightarrow> event list \<Rightarrow> bool" where
  "ring_ok evs ring \<longleftrightarrow> (\<forall>r\<in>set ring. piece_of evs r) \<and> sorted_wrt before ring"

definition ring_has :: "nat \<Rightarrow> event list \<Rightarrow> bool" where
  "ring_has s ring \<longleftrightarrow> (\<exists>r\<in>set ring. ev_start r \<le> s \<and> s < ev_end r)"

text \<open>
  What an attached cursor promises: its queue is bounded, counts exactly the bytes between
  its cursor and its end, and the ring holds all of them.
\<close>

definition cursor_ok :: "event list \<Rightarrow> event list \<Rightarrow> attachmentCursor \<Rightarrow> bool" where
  "cursor_ok evs ring c \<longleftrightarrow>
     (cu_state c = Attached \<or> cu_state c = Evicted) \<and> cu_max c < u64_size \<and>
     (cu_state c = Attached \<longrightarrow>
        cu_queued c \<le> cu_max c \<and>
        (\<not> cu_has c \<longrightarrow> cu_queued c = 0) \<and>
        (cu_has c \<longrightarrow>
           cu_cursor c \<le> cu_end c \<and> cu_queued c = cu_end c - cu_cursor c \<and> boundary evs (cu_end c) \<and>
           (\<forall>s. cu_cursor c \<le> s \<and> s < cu_end c \<longrightarrow> ring_has s ring)))"

definition fanout_inv :: "event list \<Rightarrow> fanout \<Rightarrow> bool" where
  "fanout_inv evs f \<longleftrightarrow>
     ring_ok evs (fo_ring f) \<and> distinct (map fst (fo_attachments f)) \<and>
     (\<forall>a c. map_of (fo_attachments f) a = Some c \<longrightarrow> cursor_ok evs (fo_ring f) c) \<and>
     fo_active f = {a. \<exists>c. map_of (fo_attachments f) a = Some c \<and> cu_state c = Attached}"

section \<open>Pieces of the log\<close>

lemma contiguous_before: "contiguous a b es \<Longrightarrow> sorted_wrt before es"
proof (induction es arbitrary: a)
  case (Cons e es)
  then have "contiguous (ev_end e) b es" by simp
  with Cons.IH[OF this] show ?case by (auto simp: before_def dest: contiguous_member)
qed simp

lemma sorted_before_cases:
  "sorted_wrt before es \<Longrightarrow> x \<in> set es \<Longrightarrow> y \<in> set es \<Longrightarrow> x = y \<or> before x y \<or> before y x"
  by (induction es) auto

lemma log_event:
  assumes "log_ok evs" and "l \<in> set evs"
  shows "ev_end l = ev_start l + length (ev_data l)" and "ev_start l < ev_end l"
    and "ev_end l \<le> length (payload evs)" and "ev_end l < u64_size"
  using assms by (auto simp: log_ok_def dest: contiguous_member)

lemma log_cases:
  "log_ok evs \<Longrightarrow> l \<in> set evs \<Longrightarrow> m \<in> set evs \<Longrightarrow> l = m \<or> before l m \<or> before m l"
  using sorted_before_cases contiguous_before unfolding log_ok_def by blast

lemma trim_fields:
  "ev_start l \<le> p \<Longrightarrow> ev_start (trim p l) = p" "ev_end (trim p l) = ev_end l"
  "ev_channel (trim p l) = ev_channel l"
  "ev_start l \<le> p \<Longrightarrow> ev_data (trim p l) = drop (p - ev_start l) (ev_data l)"
  by (simp_all add: trim_def)

lemma piece_fields:
  assumes "log_ok evs" and "piece_of evs r"
  shows "ev_end r = ev_start r + length (ev_data r)" and "ev_start r < ev_end r"
    and "ev_end r \<le> length (payload evs)" and "boundary evs (ev_end r)" and "ev_end r < u64_size"
proof -
  obtain l p where l: "l \<in> set evs" "ev_start l \<le> p" "p < ev_end l" "r = trim p l"
    using assms(2) by (auto simp: piece_of_def)
  note e = log_event[OF assms(1) l(1)]
  show "ev_end r = ev_start r + length (ev_data r)" "ev_start r < ev_end r"
    "ev_end r \<le> length (payload evs)" "ev_end r < u64_size"
    using l e by (simp_all add: trim_fields)
  show "boundary evs (ev_end r)" using l by (auto simp: boundary_def trim_fields)
qed

lemma covers_trim:
  assumes "ev_start l \<le> p" and "p \<le> q" and "q \<le> ev_end l" and "ev_end l = ev_start l + length (ev_data l)"
  shows "covers (trim p l) (trim q l)"
proof -
  have "slice (drop (p - ev_start l) (ev_data l)) (q - p) (ev_end l - p) = drop (q - ev_start l) (ev_data l)"
    using assms by (simp add: slice_def)
  with assms show ?thesis by (simp add: covers_def trim_fields)
qed

text \<open>Two pieces of the log are disjoint, or one contains the other.\<close>

lemma piece_cases:
  assumes "log_ok evs" and "piece_of evs x" and "piece_of evs y"
  shows "covers x y \<or> covers y x \<or> before x y \<or> before y x"
proof -
  obtain l p where l: "l \<in> set evs" "ev_start l \<le> p" "p < ev_end l" "x = trim p l"
    using assms(2) by (auto simp: piece_of_def)
  obtain m q where m: "m \<in> set evs" "ev_start m \<le> q" "q < ev_end m" "y = trim q m"
    using assms(3) by (auto simp: piece_of_def)
  consider "l = m" | "before l m" | "before m l" using log_cases[OF assms(1) l(1) m(1)] by blast
  then show ?thesis
  proof cases
    case 1
    note e = log_event[OF assms(1) l(1)]
    show ?thesis
      using covers_trim[OF l(2), of q] covers_trim[of l q p] l m 1 e(1) by (cases "p \<le> q") auto
  next
    case 2
    with l m show ?thesis by (simp add: before_def trim_fields)
  next
    case 3
    with l m show ?thesis by (simp add: before_def trim_fields)
  qed
qed

lemma piece_of_mono: "piece_of evs r \<Longrightarrow> piece_of (evs @ es) r"
  by (auto simp: piece_of_def)

lemma piece_of_log: "log_ok evs \<Longrightarrow> l \<in> set evs \<Longrightarrow> piece_of evs l"
  using log_event(2)[of evs l] by (auto simp: piece_of_def trim_def intro!: bexI[of _ l] exI[of _ "ev_start l"])

section \<open>Insertion\<close>

lemma scan_Covered: "scan_ring e seen xs = Covered \<Longrightarrow> \<exists>x\<in>set xs. covers x e"
  by (induction xs arbitrary: seen) (auto split: if_splits)

lemma scan_Absorbs:
  "scan_ring e seen xs = Absorbs r \<Longrightarrow> \<exists>us x vs. xs = us @ x # vs \<and> covers e x \<and> r = seen @ us @ vs"
proof (induction xs arbitrary: seen)
  case (Cons y ys)
  show ?case
  proof (cases "\<not> covers y e \<and> covers e y")
    case True
    with Cons.prems show ?thesis by (intro exI[of _ "[]"] exI[of _ y] exI[of _ ys]) auto
  next
    case False
    with Cons.prems have "scan_ring e (seen @ [y]) ys = Absorbs r" by (auto split: if_splits)
    from Cons.IH[OF this] obtain us x vs where
      "ys = us @ x # vs" "covers e x" "r = seen @ (y # us) @ vs" by auto
    then show ?thesis by (intro exI[of _ "y # us"] exI[of _ x] exI[of _ vs]) auto
  qed
qed simp

lemma scan_Fresh: "scan_ring e seen xs = Fresh \<Longrightarrow> x \<in> set xs \<Longrightarrow> \<not> covers x e \<and> \<not> covers e x"
  by (induction xs arbitrary: seen) (auto split: if_splits)

lemma sorted_before_distinct:
  "sorted_wrt before xs \<Longrightarrow> \<forall>x\<in>set xs. ev_start x < ev_end x \<Longrightarrow> distinct xs"
  by (induction xs) (fastforce simp: before_def)+

lemma sorted_start_before:
  assumes "sorted_wrt (\<lambda>x y. ev_start x \<le> ev_start y) xs" and "distinct xs"
    and "\<forall>x\<in>set xs. ev_start x < ev_end x"
    and "\<forall>x\<in>set xs. \<forall>y\<in>set xs. x = y \<or> before x y \<or> before y x"
  shows "sorted_wrt before xs"
  using assms
proof (induction xs)
  case (Cons x xs)
  have "before x y" if y: "y \<in> set xs" for y
  proof -
    have "x \<noteq> y" "ev_start x \<le> ev_start y" "ev_start y < ev_end y" using Cons.prems y by auto
    with Cons.prems(4) y show ?thesis by (auto simp: before_def)
  qed
  with Cons show ?case by auto
qed simp

lemma sort_ring_starts: "sorted_wrt (\<lambda>x y. ev_start x \<le> ev_start y) (sort_ring xs)"
proof -
  have "sorted (map (\<lambda>e. (int (ev_start e), - int (ev_end e))) (sort_ring xs))"
    by (simp add: sort_ring_def)
  then show ?thesis
    unfolding sorted_map by (rule sorted_wrt_mono_rel[rotated]) (auto simp: less_eq_prod_def)
qed

lemma insert_fresh:
  assumes "log_ok evs" and "ring_ok evs ring" and "piece_of evs e"
    and "\<And>x. x \<in> set ring \<Longrightarrow> \<not> covers x e \<and> \<not> covers e x"
  shows "ring_ok evs (sort_ring (ring @ [e]))"
proof -
  let ?r = "ring @ [e]"
  have pieces: "\<forall>x\<in>set ?r. piece_of evs x" using assms(2,3) by (auto simp: ring_ok_def)
  then have pos: "\<forall>x\<in>set ?r. ev_start x < ev_end x" using piece_fields(2)[OF assms(1)] by blast
  have new: "before x e \<or> before e x" if "x \<in> set ring" for x
    using piece_cases[OF assms(1), of x e] pieces assms(4)[OF that] that by auto
  have old: "x = y \<or> before x y \<or> before y x" if "x \<in> set ring" "y \<in> set ring" for x y
    using assms(2) that sorted_before_cases unfolding ring_ok_def by blast
  have "e \<notin> set ring" using new pos by (fastforce simp: before_def)
  then have "distinct ?r" using sorted_before_distinct[of ring] assms(2) pos by (auto simp: ring_ok_def)
  then have "sorted_wrt before (sort_ring ?r)"
    using sort_ring_starts[of ?r] pos new old
    by (intro sorted_start_before) (auto simp: sort_ring_def)
  with pieces show ?thesis by (simp add: ring_ok_def sort_ring_def)
qed

lemma covers_span: "covers x e \<Longrightarrow> ev_start x \<le> ev_start e \<and> ev_end e \<le> ev_end x"
  by (simp add: covers_def)

lemma ring_ok_remove: "ring_ok evs (us @ x # vs) \<Longrightarrow> ring_ok evs (us @ vs)"
  by (auto simp: ring_ok_def sorted_wrt_append)

text \<open>Insertion keeps the ring and adds exactly the bytes of the event.\<close>

lemma insertEvent:
  assumes "log_ok evs" and "ring_ok evs ring" and "piece_of evs e"
  shows "ring_ok evs (insertEventLocked e ring) \<and>
     (\<forall>s. ring_has s (insertEventLocked e ring) \<longleftrightarrow> ring_has s ring \<or> ev_start e \<le> s \<and> s < ev_end e)"
  using assms(2,3)
proof (induction e ring rule: insertEventLocked.induct)
  case (1 e ring)
  show ?case
  proof (cases "scan_ring e [] ring")
    case Covered
    then obtain x where x: "x \<in> set ring" "covers x e" using scan_Covered by blast
    have "ring_has s ring" if "ev_start e \<le> s" "s < ev_end e" for s
      using x covers_span[OF x(2)] that unfolding ring_has_def by (meson le_trans less_le_trans)
    with Covered 1 show ?thesis by (auto simp: insertEventLocked.simps)
  next
    case (Absorbs r)
    then obtain us x vs where x: "ring = us @ x # vs" "covers e x" "r = us @ vs"
      using scan_Absorbs by fastforce
    have "ring_ok evs r" using 1(2) x ring_ok_remove by simp
    note IH = "1.IH"[OF Absorbs this 1(3)]
    have "ring_has s ring \<longleftrightarrow> ring_has s r \<or> ev_start x \<le> s \<and> s < ev_end x" for s
      using x by (auto simp: ring_has_def)
    with IH covers_span[OF x(2)] Absorbs show ?thesis
      by (auto simp: insertEventLocked.simps[of e ring])
  next
    case Fresh
    have "ring_ok evs (sort_ring (ring @ [e]))"
      using insert_fresh[OF assms(1) 1(2,3)] scan_Fresh[OF Fresh] by blast
    moreover have "ring_has s (sort_ring (ring @ [e])) \<longleftrightarrow> ring_has s ring \<or> ev_start e \<le> s \<and> s < ev_end e" for s
      by (auto simp: ring_has_def sort_ring_def)
    ultimately show ?thesis using Fresh by (simp add: insertEventLocked.simps)
  qed
qed

section \<open>Search and compaction\<close>

lemma ring_ends:
  assumes "log_ok evs" and "ring_ok evs ring" and "i < j" and "j < length ring"
  shows "ev_end (ring ! i) \<le> ev_start (ring ! j)" and "ev_end (ring ! i) < ev_end (ring ! j)"
proof -
  show b: "ev_end (ring ! i) \<le> ev_start (ring ! j)"
    using assms(2-4) by (simp add: ring_ok_def before_def sorted_wrt_iff_nth_less)
  have "piece_of evs (ring ! j)" using assms(2,4) by (auto simp: ring_ok_def)
  from piece_fields(2)[OF assms(1) this] b show "ev_end (ring ! i) < ev_end (ring ! j)" by simp
qed

lemma eventAt_found:
  assumes "log_ok evs" and "ring_ok evs ring" and "ring_has s ring"
  shows "\<exists>r\<in>set ring. eventAtLocked s ring = Some r \<and> ev_start r \<le> s \<and> s < ev_end r"
proof -
  obtain k where k: "k < length ring" "ev_start (ring ! k) \<le> s" "s < ev_end (ring ! k)"
    using assms(3) by (auto simp: ring_has_def in_set_conv_nth)
  have "sort_search (length ring) (\<lambda>i. s < ev_end (ring ! i)) = k"
  proof (rule sort_search_threshold)
    show "k \<le> length ring" using k by simp
  next
    fix h assume "h < k"
    then have "ev_end (ring ! h) \<le> ev_start (ring ! k)" using ring_ends(1)[OF assms(1,2)] k by simp
    with k show "\<not> s < ev_end (ring ! h)" by simp
  next
    fix h assume h: "k \<le> h" "h < length ring"
    with ring_ends(2)[OF assms(1,2), of k h] k show "s < ev_end (ring ! h)" by (cases "k = h") auto
  qed
  with k show ?thesis by (auto simp: eventAtLocked_def Let_def intro!: bexI[of _ "ring ! k"])
qed

lemma min_cursor_le:
  "min_cursor cs m = Some k \<Longrightarrow>
     (\<forall>j. m = Some j \<longrightarrow> k \<le> j) \<and>
     (\<forall>(i, c)\<in>set cs. cu_state c = Attached \<and> cu_has c \<longrightarrow> k \<le> cu_cursor c)"
  by (induction cs m rule: min_cursor.induct) (fastforce split: if_splits option.splits)+

lemma min_cursor_Some: "min_cursor cs (Some j) \<noteq> None"
  by (induction cs arbitrary: j) auto

lemma min_cursor_None:
  "min_cursor cs m = None \<Longrightarrow> (i, c) \<in> set cs \<Longrightarrow> cu_state c = Attached \<Longrightarrow> \<not> cu_has c"
  by (induction cs m rule: min_cursor.induct)
    (auto simp: min_cursor_Some split: if_splits option.splits)

lemma ring_ok_dropWhile: "ring_ok evs ring \<Longrightarrow> ring_ok evs (dropWhile P ring)"
proof -
  assume r: "ring_ok evs ring"
  have "sorted_wrt before (takeWhile P ring @ dropWhile P ring)" using r by (simp add: ring_ok_def)
  then have "sorted_wrt before (dropWhile P ring)" unfolding sorted_wrt_append by blast
  with r show ?thesis by (auto simp: ring_ok_def dest: set_dropWhileD)
qed

lemma ring_has_dropWhile: "ring_has s ring \<Longrightarrow> k \<le> s \<Longrightarrow> ring_has s (dropWhile (\<lambda>e. ev_end e \<le> k) ring)"
proof -
  assume "ring_has s ring" and k: "k \<le> s"
  then obtain r where r: "r \<in> set ring" "ev_start r \<le> s" "s < ev_end r" by (auto simp: ring_has_def)
  have "r \<in> set (takeWhile (\<lambda>e. ev_end e \<le> k) ring) \<or> r \<in> set (dropWhile (\<lambda>e. ev_end e \<le> k) ring)"
    using r(1) by (metis UnE set_append takeWhile_dropWhile_id)
  then show ?thesis using r k by (auto simp: ring_has_def dest: set_takeWhileD)
qed

section \<open>The operations keep the invariant\<close>

lemma boundary_mono: "boundary evs n \<Longrightarrow> boundary (evs @ es) n"
  by (auto simp: boundary_def)

lemma cursor_ok_mono:
  assumes "cursor_ok evs ring c" and "\<And>s. ring_has s ring \<Longrightarrow> ring_has s ring'"
  shows "cursor_ok (evs @ es) ring' c"
  using assms by (auto simp: cursor_ok_def boundary_mono)

lemma cursor_ok_ring: "cursor_ok evs ring c \<Longrightarrow> (\<And>s. ring_has s ring \<Longrightarrow> ring_has s ring') \<Longrightarrow> cursor_ok evs ring' c"
  using cursor_ok_mono[of evs ring c ring' "[]"] by simp

lemma compact_fields [simp]:
  "fo_attachments (fanout_compactLocked f) = fo_attachments f"
  "fo_active (fanout_compactLocked f) = fo_active f"
  by (simp_all add: fanout_compactLocked_def split: option.split)

lemma compact_inv: "fanout_inv evs f \<Longrightarrow> fanout_inv evs (fanout_compactLocked f)"
proof -
  assume f: "fanout_inv evs f"
  have "ring_ok evs (fo_ring (fanout_compactLocked f))"
    using f by (auto simp: fanout_inv_def fanout_compactLocked_def ring_ok_dropWhile split: option.split)
      (simp add: ring_ok_def)
  moreover have "cursor_ok evs (fo_ring (fanout_compactLocked f)) c"
    if c: "map_of (fo_attachments f) a = Some c" for a c
  proof (cases "min_cursor (fo_attachments f) None")
    case None
    have "cu_state c = Attached \<Longrightarrow> \<not> cu_has c"
      using min_cursor_None[OF None map_of_SomeD[OF c]] .
    then show ?thesis using f c by (auto simp: fanout_inv_def cursor_ok_def)
  next
    case (Some k)
    have "cu_state c = Attached \<and> cu_has c \<Longrightarrow> k \<le> cu_cursor c"
      using min_cursor_le[OF Some] map_of_SomeD[OF c] by blast
    then show ?thesis using f c Some
      by (auto simp: fanout_inv_def cursor_ok_def fanout_compactLocked_def intro: ring_has_dropWhile)
  qed
  ultimately show ?thesis using f by (simp add: fanout_inv_def)
qed

lemma NewFanout_inv: "fanout_inv evs NewFanout"
  by (simp add: fanout_inv_def NewFanout_def ring_ok_def)

lemma Attach_inv:
  assumes "fanout_inv evs f" and "m < u64_size"
  shows "fanout_inv evs (snd (Attach a m f))"
  using assms
  by (auto simp: Attach_def fanout_inv_def distinct_update update_conv' cursor_ok_def
      split: if_splits option.splits)

lemma Detach_inv: "fanout_inv evs f \<Longrightarrow> fanout_inv evs (snd (Detach a f))"
proof -
  assume f: "fanout_inv evs f"
  have "fanout_inv evs (f\<lparr>fo_attachments := AList.delete a (fo_attachments f), fo_active := fo_active f - {a}\<rparr>)"
    using f by (auto simp: fanout_inv_def distinct_delete delete_conv')
  with f show ?thesis by (auto simp: Detach_def intro: compact_inv split: option.split)
qed

lemma overflows_iff: "cursor_ok evs ring c \<Longrightarrow> cu_state c = Attached \<Longrightarrow>
    overflows e c \<longleftrightarrow> cu_max c < cu_queued c + length (ev_data e)"
  by (auto simp: overflows_def cursor_ok_def u64)

text \<open>A cursor that takes a piece of the log at its end.\<close>

lemma enqueue_ok:
  assumes "log_ok evs" and "cursor_ok evs ring c" and "cu_state c = Attached" and "\<not> overflows e c"
    and "piece_of evs e" and "cu_has c \<Longrightarrow> cu_end c = ev_start e"
    and "\<And>s. ring_has s ring \<or> ev_start e \<le> s \<and> s < ev_end e \<Longrightarrow> ring_has s ring'"
  shows "cursor_ok evs ring' (enqueue e c)"
proof -
  note p = piece_fields[OF assms(1,5)]
  have fit: "cu_queued c + length (ev_data e) \<le> cu_max c"
    using overflows_iff[OF assms(2,3), of e] assms(4) by simp
  then have q: "u64_add (cu_queued c) (length (ev_data e)) = cu_queued c + length (ev_data e)"
    using assms(2) by (intro u64_add_exact) (auto simp: cursor_ok_def)
  show ?thesis
  proof (cases "cu_has c")
    case True
    have "ring_has s ring'" if "cu_cursor c \<le> s" "s < ev_end e" for s
      using that assms(2,3,7) True assms(6)[OF True] by (cases "s < cu_end c") (auto simp: cursor_ok_def)
    with True assms(2,3) assms(6)[OF True] p(1,2,4) fit q show ?thesis
      by (auto simp: cursor_ok_def enqueue_def)
  next
    case False
    with assms(2,3,7) p(1,2,4) fit q show ?thesis by (auto simp: cursor_ok_def enqueue_def Let_def)
  qed
qed

lemma evict_ok: "cursor_ok evs ring c \<Longrightarrow> cursor_ok evs ring (evict c)"
  by (auto simp: cursor_ok_def evict_def)

lemma enqueue_state [simp]: "cu_state (enqueue e c) = cu_state c" "cu_state (evict c) = Evicted"
  by (simp_all add: enqueue_def evict_def Let_def)

definition caught_up :: "nat \<Rightarrow> fanout \<Rightarrow> bool" where
  "caught_up n f \<longleftrightarrow>
     (\<forall>a c. map_of (fo_attachments f) a = Some c \<and> cu_state c = Attached \<and> cu_has c \<longrightarrow> cu_end c = n)"

lemma map_of_publish:
  "map_of (map (\<lambda>(i, c). (i, g c)) xs) a = map_option g (map_of xs a)"
  by (induction xs) auto

lemma slow_ids:
  assumes "distinct (map fst (fo_attachments f))"
  shows "a \<in> fst ` set (slow e f) \<longleftrightarrow>
     (\<exists>c. map_of (fo_attachments f) a = Some c \<and> cu_state c = Attached \<and> overflows e c)"
  using assms by (force simp: slow_def map_of_eq_Some_iff)

lemma valid_log_event: "log_ok evs \<Longrightarrow> piece_of evs e \<Longrightarrow> validOutputEvent e"
  using piece_fields[of evs e] by (auto simp: validOutputEvent_def)

lemma publish_one_attached:
  "cu_state (publish_one e c) = Attached \<longleftrightarrow> cu_state c = Attached \<and> \<not> overflows e c"
  by (simp add: publish_one_def)

lemma enqueue_end [simp]: "cu_end (enqueue e c) = ev_end e"
  by (simp add: enqueue_def Let_def)

lemma publish_one_end: "cu_state (publish_one e c) = Attached \<Longrightarrow> cu_end (publish_one e c) = ev_end e"
  by (auto simp: publish_one_def split: if_splits)

lemma publish_one_ok:
  assumes "log_ok evs" and "cursor_ok evs ring c" and "piece_of evs e"
    and "cu_state c = Attached \<and> cu_has c \<Longrightarrow> cu_end c = ev_start e"
    and "\<And>s. ring_has s ring \<or> ev_start e \<le> s \<and> s < ev_end e \<Longrightarrow> ring_has s ring'"
  shows "cursor_ok evs ring' (publish_one e c)"
proof -
  have "cursor_ok evs ring' c" using assms(2,5) by (auto intro: cursor_ok_ring)
  then show ?thesis
    using enqueue_ok[OF assms(1,2) _ _ assms(3) _ assms(5)] assms(4)
    by (auto simp: publish_one_def intro: evict_ok)
qed

text \<open>
  Publishing the next log event to a fan-out whose cursors are caught up succeeds, and leaves
  it caught up with the longer log.
\<close>

lemma PublishOwned_inv:
  assumes "log_ok (evs @ [e])" and "fanout_inv evs f" and "caught_up (ev_start e) f"
  shows "\<exists>es f'. PublishOwned e f = (Inr es, f') \<and> fanout_inv (evs @ [e]) f' \<and> caught_up (ev_end e) f' \<and>
     (\<forall>a. map_of (fo_attachments f') a = map_option (publish_one e) (map_of (fo_attachments f) a))"
proof -
  let ?L = "evs @ [e]"
  have p: "piece_of ?L e" by (rule piece_of_log[OF assms(1)]) simp
  have ring: "ring_ok ?L (fo_ring f)"
    using assms(2) by (auto simp: fanout_inv_def ring_ok_def intro: piece_of_mono)
  note ins = insertEvent[OF assms(1) ring p]
  define g where "g = f\<lparr>fo_ring := insertEventLocked e (fo_ring f),
    fo_attachments := map (\<lambda>(i, c). (i, publish_one e c)) (fo_attachments f),
    fo_active := fo_active f - fst ` set (slow e f)\<rparr>"
  have look: "map_of (fo_attachments g) a = map_option (publish_one e) (map_of (fo_attachments f) a)" for a
    by (simp add: g_def map_of_publish)
  have keys: "distinct (map fst (fo_attachments f))" using assms(2) by (simp add: fanout_inv_def)
  have order: "\<not> list_ex (\<lambda>(i, c). cu_state c = Attached \<and> cu_has c \<and> cu_end c \<noteq> ev_start e) (fo_attachments f)"
    using assms(3) keys by (auto simp: list_ex_iff caught_up_def map_of_eq_Some_iff)
  have "cursor_ok ?L (fo_ring g) (publish_one e c)" if c: "map_of (fo_attachments f) a = Some c" for a c
  proof -
    have "cursor_ok evs (fo_ring f) c" using assms(2) c by (simp add: fanout_inv_def)
    then have "cursor_ok ?L (fo_ring f) c" by (rule cursor_ok_mono)
    moreover have "cu_state c = Attached \<and> cu_has c \<Longrightarrow> cu_end c = ev_start e"
      using assms(3) c by (auto simp: caught_up_def)
    moreover have "ring_has s (fo_ring f) \<or> ev_start e \<le> s \<and> s < ev_end e \<Longrightarrow> ring_has s (fo_ring g)" for s
      using ins by (simp add: g_def)
    ultimately show ?thesis by (intro publish_one_ok[OF assms(1) _ p])
  qed
  moreover have "fo_active g = {a. \<exists>c. map_of (fo_attachments g) a = Some c \<and> cu_state c = Attached}"
  proof (rule set_eqI)
    fix a
    have "a \<in> fo_active g \<longleftrightarrow> a \<in> fo_active f \<and> a \<notin> fst ` set (slow e f)" by (simp add: g_def)
    then show "a \<in> fo_active g \<longleftrightarrow> a \<in> {a. \<exists>c. map_of (fo_attachments g) a = Some c \<and> cu_state c = Attached}"
      using assms(2) unfolding slow_ids[OF keys] fanout_inv_def look
      by (cases "map_of (fo_attachments f) a") (auto simp: publish_one_attached)
  qed
  moreover have "distinct (map fst (fo_attachments g))"
    using keys by (simp add: g_def case_prod_beta comp_def)
  moreover have "ring_ok ?L (fo_ring g)" using ins by (simp add: g_def)
  ultimately have "fanout_inv ?L g" unfolding fanout_inv_def look map_option_eq_Some by blast
  then have "fanout_inv ?L (fanout_compactLocked g)" by (rule compact_inv)
  moreover have "caught_up (ev_end e) (fanout_compactLocked g)"
    by (auto simp: caught_up_def look publish_one_end simp del: map_of_map)
  moreover have "\<exists>es. PublishOwned e f = (Inr es, fanout_compactLocked g)"
    using order valid_log_event[OF assms(1) p] by (simp add: PublishOwned_def g_def)
  moreover have "\<forall>a. map_of (fo_attachments (fanout_compactLocked g)) a =
      map_option (publish_one e) (map_of (fo_attachments f) a)"
    by (simp add: look)
  ultimately show ?thesis by blast
qed

text \<open>Enqueueing a piece of the log to one attachment.\<close>

lemma EnqueueOwned_inv:
  assumes "log_ok evs" and "fanout_inv evs f" and "piece_of evs e"
    and "map_of (fo_attachments f) a = Some c" and "cu_state c = Attached"
    and "cu_has c \<Longrightarrow> cu_end c = ev_start e" and "cu_queued c + length (ev_data e) \<le> cu_max c"
  shows "\<exists>f'. EnqueueOwned a e f = (Inr None, f') \<and> fanout_inv evs f' \<and>
     map_of (fo_attachments f') = (map_of (fo_attachments f))(a \<mapsto> enqueue e c)"
proof -
  have ring: "ring_ok evs (fo_ring f)" and c: "cursor_ok evs (fo_ring f) c"
    and keys: "distinct (map fst (fo_attachments f))"
    using assms(2,4) by (auto simp: fanout_inv_def)
  note ins = insertEvent[OF assms(1) ring assms(3)]
  have no: "\<not> overflows e c" using overflows_iff[OF c assms(5), of e] assms(7) by simp
  define g where "g = f\<lparr>fo_ring := insertEventLocked e (fo_ring f),
    fo_attachments := AList.update a (enqueue e c) (fo_attachments f)\<rparr>"
  have look: "map_of (fo_attachments g) = (map_of (fo_attachments f))(a \<mapsto> enqueue e c)"
    by (simp add: g_def update_conv')
  have "cursor_ok evs (fo_ring g) (enqueue e c)"
    using ins by (intro enqueue_ok[OF assms(1) c assms(5) no assms(3,6)]) (auto simp: g_def)
  moreover have "cursor_ok evs (fo_ring g) d" if "map_of (fo_attachments f) b = Some d" for b d
  proof (rule cursor_ok_ring)
    show "cursor_ok evs (fo_ring f) d" using assms(2) that by (simp add: fanout_inv_def)
  qed (use ins in \<open>simp add: g_def\<close>)
  moreover have "fo_active g = {b. \<exists>d. map_of (fo_attachments g) b = Some d \<and> cu_state d = Attached}"
    using assms(2,4,5) look by (auto simp: fanout_inv_def g_def)
  moreover have "distinct (map fst (fo_attachments g))" using keys by (simp add: g_def distinct_update)
  moreover have "ring_ok evs (fo_ring g)" using ins by (simp add: g_def)
  ultimately have "fanout_inv evs g"
    unfolding fanout_inv_def look by (simp split: if_splits)
  moreover have "EnqueueOwned a e f = (Inr None, g)"
    using assms(4-6) no valid_log_event[OF assms(1,3)] by (simp add: EnqueueOwned_def g_def)
  ultimately show ?thesis using look by blast
qed

section \<open>Delivery\<close>

lemma contiguous_data:
  "contiguous a b es \<Longrightarrow> l \<in> set es \<Longrightarrow> ev_data l = slice (payload es) (ev_start l - a) (ev_end l - a)"
proof (induction es arbitrary: a)
  case (Cons e es)
  show ?case
  proof (cases "l = e")
    case True
    with Cons.prems(1) show ?thesis by (simp add: slice_def)
  next
    case False
    let ?n = "length (ev_data e)"
    have c: "contiguous (a + ?n) b es" and l: "l \<in> set es" using Cons.prems False by auto
    from contiguous_member[OF c l] have "a + ?n \<le> ev_start l" by simp
    then have "slice (ev_data e @ payload es) (ev_start l - a) (ev_end l - a) =
        slice (payload es) (ev_start l - (a + ?n)) (ev_end l - (a + ?n))"
      using contiguous_member[OF c l] by (auto simp: slice_def)
    then show ?thesis using Cons.IH[OF c l] by simp
  qed
qed simp

lemma piece_data:
  assumes "log_ok evs" and "piece_of evs r"
  shows "ev_data r = slice (payload evs) (ev_start r) (ev_end r)"
proof -
  obtain l p where l: "l \<in> set evs" "ev_start l \<le> p" "p < ev_end l" "r = trim p l"
    using assms(2) by (auto simp: piece_of_def)
  have "ev_data l = slice (payload evs) (ev_start l) (ev_end l)"
    using contiguous_data[of 0 "length (payload evs)" evs l] assms(1) l(1) by (simp add: log_ok_def)
  with l show ?thesis by (simp add: trim_fields slices)
qed

text \<open>The event that the ring gives at a cursor ends within what the cursor may read.\<close>

lemma piece_end_le:
  assumes "log_ok evs" and "piece_of evs r" and "ev_start r \<le> s" and "s < ev_end r"
    and "boundary evs n" and "s < n"
  shows "ev_end r \<le> n"
proof -
  obtain l p where l: "l \<in> set evs" "ev_start l \<le> p" "r = trim p l"
    using assms(2) by (auto simp: piece_of_def)
  obtain m where m: "m \<in> set evs" "ev_end m = n" using assms(5) by (auto simp: boundary_def)
  show ?thesis
    using log_cases[OF assms(1) l(1) m(1)] l m assms(3,4,6) log_event(2)[OF assms(1) m(1)]
    by (auto simp: before_def trim_fields)
qed

lemma piece_trim:
  assumes "log_ok evs" and "piece_of evs r" and "ev_start r \<le> s" and "s < ev_end r"
  shows "piece_of evs \<lparr>ev_channel = ev_channel r, ev_start = s, ev_end = ev_end r,
                      ev_data = drop (s - ev_start r) (ev_data r)\<rparr>"
proof -
  obtain l p where l: "l \<in> set evs" "ev_start l \<le> p" "p < ev_end l" "r = trim p l"
    using assms(2) by (auto simp: piece_of_def)
  have "p \<le> s" using l assms(3) by (simp add: trim_fields)
  then have "\<lparr>ev_channel = ev_channel r, ev_start = s, ev_end = ev_end r,
      ev_data = drop (s - ev_start r) (ev_data r)\<rparr> = trim s l"
    using l by (intro event.equality) (simp_all add: trim_fields)
  with l assms(3,4) show ?thesis
    unfolding piece_of_def by (intro bexI[of _ l] exI[of _ s]) (auto simp: trim_fields)
qed

lemma Next_empty:
  assumes "map_of (fo_attachments f) a = Some c" and "cu_state c = Attached"
    and "\<not> cu_has c \<or> cu_end c \<le> cu_cursor c"
  shows "Next a f = (Inr None, f)"
  using assms by (simp add: Next_def)

lemma Next_event:
  assumes "log_ok evs" and "fanout_inv evs f" and "map_of (fo_attachments f) a = Some c"
    and "cu_state c = Attached" and "cu_has c" and "cu_cursor c < cu_end c"
  shows "\<exists>e f'. Next a f = (Inr (Some e), f') \<and> fanout_inv evs f' \<and> piece_of evs e \<and>
     ev_start e = cu_cursor c \<and> ev_end e \<le> cu_end c \<and>
     map_of (fo_attachments f') =
       (map_of (fo_attachments f))(a \<mapsto> c\<lparr>cu_cursor := ev_end e, cu_queued := cu_end c - ev_end e\<rparr>)"
proof -
  have ring: "ring_ok evs (fo_ring f)" and c: "cursor_ok evs (fo_ring f) c"
    and keys: "distinct (map fst (fo_attachments f))"
    using assms(2,3) by (auto simp: fanout_inv_def)
  have "ring_has (cu_cursor c) (fo_ring f)" using c assms(4-6) by (auto simp: cursor_ok_def)
  then obtain r where r: "r \<in> set (fo_ring f)" "eventAtLocked (cu_cursor c) (fo_ring f) = Some r"
    "ev_start r \<le> cu_cursor c" "cu_cursor c < ev_end r"
    using eventAt_found[OF assms(1) ring] by blast
  have p: "piece_of evs r" using ring r(1) by (simp add: ring_ok_def)
  have le: "ev_end r \<le> cu_end c"
    using piece_end_le[OF assms(1) p r(3,4)] c assms(4-6) by (auto simp: cursor_ok_def)
  have u: "u64_sub (cu_cursor c) (ev_start r) = cu_cursor c - ev_start r"
    "u64_sub (cu_queued c) (u64_sub (ev_end r) (cu_cursor c)) = cu_end c - ev_end r"
    using r(3,4) le c assms(4-6) piece_fields(5)[OF assms(1) p] by (auto simp: u64 cursor_ok_def)
  define e where "e = \<lparr>ev_channel = ev_channel r, ev_start = cu_cursor c, ev_end = ev_end r,
    ev_data = drop (cu_cursor c - ev_start r) (ev_data r)\<rparr>"
  define d where "d = c\<lparr>cu_cursor := ev_end e, cu_queued := cu_end c - ev_end e\<rparr>"
  define g where "g = f\<lparr>fo_attachments := AList.update a d (fo_attachments f)\<rparr>"
  have look: "map_of (fo_attachments g) = (map_of (fo_attachments f))(a \<mapsto> d)"
    by (simp add: g_def update_conv')
  have "cursor_ok evs (fo_ring f) d"
    using c le r(4) assms(4-6) by (auto simp: cursor_ok_def d_def e_def)
  moreover have "fo_active g = {b. \<exists>x. map_of (fo_attachments g) b = Some x \<and> cu_state x = Attached}"
    using assms(2-4) look by (auto simp: fanout_inv_def g_def d_def)
  moreover have "distinct (map fst (fo_attachments g))" using keys by (simp add: g_def distinct_update)
  ultimately have "fanout_inv evs g"
    using assms(2) look by (auto simp: fanout_inv_def g_def)
  then have inv: "fanout_inv evs (fanout_compactLocked g)" by (rule compact_inv)
  have nx: "Next a f = (Inr (Some e), fanout_compactLocked g)"
    using assms(3-6) r(2) by (simp add: Next_def e_def g_def d_def u)
  have "piece_of evs e" unfolding e_def by (rule piece_trim[OF assms(1) p r(3,4)])
  moreover have "ev_start e = cu_cursor c" "ev_end e \<le> cu_end c" using le by (simp_all add: e_def)
  moreover have "map_of (fo_attachments (fanout_compactLocked g)) = (map_of (fo_attachments f))(a \<mapsto> d)"
    by (simp add: look)
  ultimately show ?thesis using nx inv unfolding d_def by blast
qed

end
