(* ===== verification/Input_Journal.thy ===== *)
theory Input_Journal
  imports Prelude
begin

text \<open>
  Terminal input with at-most-once delivery, \<^verbatim>\<open>internal/hostruntime/session/input.go\<close>. Each
  input carries an identity; the journal reserves the identity before the bytes reach the
  PTY and records the outcome after, so a client that reconnects can ask what became of an
  input instead of sending it again. The digest \<^verbatim>\<open>sha256.Sum256\<close> is the parameter \<open>sha\<close>.
\<close>

section \<open>Data\<close>

datatype inputStatus = InputAccepted | InputDuplicate | InputRejected | InputUncertain

datatype input_error =
    ErrInvalidInput
  | ErrInputConflict
  | ErrInputSequence
  | ErrInputUncertain
  | StaleGenerationError nat
  | ErrInputUnknown
  | ErrInputJournalFull

record inputKey =
  ik_client :: string
  ik_attachment :: string
  ik_generation :: nat
  ik_sequence :: nat
  ik_id :: string

record inputDecision =
  id_status :: inputStatus
  id_sequence :: nat
  id_bytes :: int
  id_error :: string
  id_hash :: bytes

record inputCursor =
  ic_client :: string
  ic_attachment :: string
  ic_generation :: nat

record inputJournal =
  j_current :: nat
  j_max :: int
  j_decisions :: "(inputKey \<times> inputDecision) list"
  j_last :: "(inputCursor \<times> nat) list"

section \<open>Operations\<close>

definition NewBoundedInputJournal :: "nat \<Rightarrow> int \<Rightarrow> inputJournal" where
  "NewBoundedInputJournal g m = \<lparr>j_current = g, j_max = m, j_decisions = [], j_last = []\<rparr>"

definition SetGeneration :: "nat \<Rightarrow> inputJournal \<Rightarrow> inputJournal" where
  "SetGeneration g j = j\<lparr>j_current := g\<rparr>"

definition normalizeInputKey :: "inputKey \<Rightarrow> inputKey \<times> bool" where
  "normalizeInputKey k = (if ik_sequence k \<noteq> 0 then (k\<lparr>ik_id := []\<rparr>, False) else (k, True))"

definition zero_hash :: bytes where
  "zero_hash = replicate 32 (CHR 0x00)"

definition publicDecision :: "inputDecision \<Rightarrow> inputDecision" where
  "publicDecision d = d\<lparr>id_hash := zero_hash\<rparr>"

definition cursor_of :: "inputKey \<Rightarrow> inputCursor" where
  "cursor_of k = \<lparr>ic_client = ik_client k, ic_attachment = ik_attachment k,
                 ic_generation = ik_generation k\<rparr>"

definition LastSequence :: "inputCursor \<Rightarrow> inputJournal \<Rightarrow> nat" where
  "LastSequence c j = (case map_of (j_last j) c of None \<Rightarrow> 0 | Some n \<Rightarrow> n)"

text \<open>The key under which the last sequence of a cursor is recorded.\<close>

definition last_key :: "inputKey \<Rightarrow> nat \<Rightarrow> inputKey" where
  "last_key k n = \<lparr>ik_client = ik_client k, ik_attachment = ik_attachment k,
                  ik_generation = ik_generation k, ik_sequence = n, ik_id = []\<rparr>"

text \<open>The ordering test that \<^verbatim>\<open>Write\<close> and \<^verbatim>\<open>Admit\<close> share: \<^const>\<open>None\<close> admits the key.\<close>

definition sequence_error :: "inputKey \<Rightarrow> inputJournal \<Rightarrow> input_error option" where
  "sequence_error k j =
     (let l = LastSequence (cursor_of k) j
      in if ik_sequence k = 0 \<or> l = 0 then None
         else if (case map_of (j_decisions j) (last_key k l) of
                    None \<Rightarrow> False | Some d \<Rightarrow> id_status d = InputUncertain)
         then Some ErrInputUncertain
         else if ik_sequence k \<noteq> u64_add l 1 then Some ErrInputSequence
         else None)"

text \<open>
  \<^verbatim>\<open>Write\<close> up to the point where it releases the lock to write: it has answered, or it has
  reserved the key with an uncertain decision.
\<close>

datatype reservation = Answered "input_error + inputDecision" | Reserved inputKey inputDecision

definition reserve :: "(bytes \<Rightarrow> bytes) \<Rightarrow> inputKey \<Rightarrow> bytes \<Rightarrow> bool \<Rightarrow> inputJournal \<Rightarrow> reservation \<times> inputJournal" where
  "reserve sha key0 data hasWriter j =
     (let (key, legacy) = normalizeInputKey key0; hash = sha data
      in if ik_client key = [] \<or> ik_attachment key = [] \<or> ik_generation key = 0 \<or>
            ik_sequence key = 0 \<and> ik_id key = [] \<or> \<not> hasWriter
         then (Answered (Inl ErrInvalidInput), j)
         else case map_of (j_decisions j) key of
           Some previous \<Rightarrow>
             if id_hash previous \<noteq> hash then (Answered (Inl ErrInputConflict), j)
             else (Answered (Inr (publicDecision
                     (if legacy \<and> id_status previous = InputAccepted
                      then previous\<lparr>id_status := InputDuplicate\<rparr> else previous))), j)
         | None \<Rightarrow>
             if j_max j \<le> int (length (j_decisions j)) then (Answered (Inl ErrInputJournalFull), j)
             else if ik_generation key \<noteq> j_current j
             then (Answered (Inl (StaleGenerationError (j_current j))), j)
             else (case sequence_error key j of
                 Some e \<Rightarrow> (Answered (Inl e), j)
               | None \<Rightarrow>
                   let d = \<lparr>id_status = InputUncertain, id_sequence = ik_sequence key, id_bytes = 0,
                            id_error = [], id_hash = hash\<rparr>
                   in (Reserved key d,
                       j\<lparr>j_decisions := AList.update key d (j_decisions j),
                         j_last := (if ik_sequence key \<noteq> 0
                                    then AList.update (cursor_of key) (ik_sequence key) (j_last j)
                                    else j_last j)\<rparr>)))"

text \<open>The decision after the writer returned \<open>n\<close> and an error or none.\<close>

definition outcome :: "inputKey \<Rightarrow> bytes \<Rightarrow> int \<Rightarrow> bool \<Rightarrow> inputDecision \<Rightarrow> inputDecision" where
  "outcome key data n err d =
     (let st = (if n = int (length data) then InputAccepted else if n = 0 then InputRejected else InputUncertain);
          st = (if err \<and> 0 < n \<and> n < int (length data) then InputUncertain else st)
      in d\<lparr>id_bytes := n, id_status := st,
           id_error := (if err then ''pty_write_failed'' else id_error d),
           id_sequence := (if ik_sequence key \<noteq> 0 then ik_sequence key else id_sequence d)\<rparr>)"

definition complete :: "inputKey \<Rightarrow> inputDecision \<Rightarrow> inputJournal \<Rightarrow> inputJournal" where
  "complete key d j =
     (case map_of (j_decisions j) key of
        Some current \<Rightarrow>
          (if id_hash current = id_hash d then j\<lparr>j_decisions := AList.update key d (j_decisions j)\<rparr> else j)
      | None \<Rightarrow> j)"

text \<open>
  \<^verbatim>\<open>Write\<close> as one call: \<open>w\<close> is the writer, \<^const>\<open>None\<close> for \<^verbatim>\<open>nil\<close>, and the list holds what was
  written to it.
\<close>

definition journal_Write ::
  "(bytes \<Rightarrow> bytes) \<Rightarrow> inputKey \<Rightarrow> bytes \<Rightarrow> (bytes \<Rightarrow> int \<times> bool) option \<Rightarrow> inputJournal \<Rightarrow>
     (input_error + inputDecision) \<times> bytes list \<times> inputJournal" where
  "journal_Write sha key0 data w j =
     (case reserve sha key0 data (w \<noteq> None) j of
        (Answered r, j1) \<Rightarrow> (r, [], j1)
      | (Reserved key d, j1) \<Rightarrow>
          let (n, err) = the w data; d' = outcome key data n err d
          in (Inr (publicDecision d'), [data], complete key d' j1))"

definition Query :: "inputKey \<Rightarrow> inputJournal \<Rightarrow> input_error + inputDecision" where
  "Query k j =
     (case map_of (j_decisions j) (fst (normalizeInputKey k)) of
        None \<Rightarrow> Inl ErrInputUnknown
      | Some d \<Rightarrow> Inr (publicDecision d))"

definition Admit :: "inputKey \<Rightarrow> inputJournal \<Rightarrow> input_error option" where
  "Admit k0 j =
     (let k = fst (normalizeInputKey k0)
      in if map_of (j_decisions j) k \<noteq> None then None
         else if j_max j \<le> int (length (j_decisions j)) then Some ErrInputJournalFull
         else sequence_error k j)"

definition journal_Restore ::
  "inputKey \<Rightarrow> bytes \<Rightarrow> inputStatus option \<Rightarrow> int \<Rightarrow> string \<Rightarrow> inputJournal \<Rightarrow> (input_error + unit) \<times> inputJournal" where
  "journal_Restore k0 hash status n code j =
     (let k = fst (normalizeInputKey k0)
      in if length hash \<noteq> 32 \<or> ik_client k = [] \<or> ik_attachment k = [] \<or>
            ik_sequence k = 0 \<and> ik_id k = [] \<or> ik_generation k = 0
         then (Inl ErrInvalidInput, j)
         else case status of
           None \<Rightarrow> (Inl ErrInvalidInput, j)
         | Some st \<Rightarrow>
             if st \<noteq> InputAccepted \<and> st \<noteq> InputRejected \<and> st \<noteq> InputUncertain
             then (Inl ErrInvalidInput, j)
             else if map_of (j_decisions j) k \<noteq> None then (Inl ErrInputConflict, j)
             else if j_max j \<le> int (length (j_decisions j)) then (Inl ErrInputJournalFull, j)
             else (Inr (),
                   j\<lparr>j_decisions := AList.update k
                       \<lparr>id_status = st, id_sequence = ik_sequence k, id_bytes = n,
                        id_error = code, id_hash = hash\<rparr> (j_decisions j),
                     j_last := (if ik_sequence k \<noteq> 0 \<and> LastSequence (cursor_of k) j < ik_sequence k
                                then AList.update (cursor_of k) (ik_sequence k) (j_last j)
                                else j_last j)\<rparr>))"

section \<open>Concurrent calls\<close>

text \<open>
  Calls of \<^verbatim>\<open>Write\<close> interleave: each reserves its key under the lock, writes to the PTY without
  the lock, and records the outcome under the lock again. \<open>sy_calls\<close> holds the calls that
  reserved, in that order, and \<open>sy_pty\<close> what the PTY received, in order, with the number of bytes
  it took.
\<close>

datatype phase = Writing | Written int bool | Finished int bool

record input_call =
  ca_data :: bytes
  ca_dec :: inputDecision
  ca_phase :: phase

record input_system =
  sy_journal :: inputJournal
  sy_calls :: "(inputKey \<times> input_call) list"
  sy_pty :: "(inputKey \<times> bytes \<times> int) list"

datatype input_op = Start inputKey bytes | Emit inputKey int bool | Finish inputKey | Generation nat

definition set_phase :: "inputKey \<Rightarrow> phase \<Rightarrow> (inputKey \<times> input_call) list \<Rightarrow> (inputKey \<times> input_call) list" where
  "set_phase k p = map (\<lambda>(i, x). if i = k then (i, x\<lparr>ca_phase := p\<rparr>) else (i, x))"

fun input_exec :: "(bytes \<Rightarrow> bytes) \<Rightarrow> input_op \<Rightarrow> input_system \<Rightarrow> input_system" where
  "input_exec sha (Start k d) s =
     (case reserve sha k d True (sy_journal s) of
        (Answered _, j) \<Rightarrow> s\<lparr>sy_journal := j\<rparr>
      | (Reserved key dec, j) \<Rightarrow>
          s\<lparr>sy_journal := j,
            sy_calls := sy_calls s @ [(key, \<lparr>ca_data = d, ca_dec = dec, ca_phase = Writing\<rparr>)]\<rparr>)"
| "input_exec sha (Emit k n err) s =
     (case map_of (sy_calls s) k of
        None \<Rightarrow> s
      | Some x \<Rightarrow>
          if ca_phase x = Writing
          then s\<lparr>sy_calls := set_phase k (Written n err) (sy_calls s),
                 sy_pty := sy_pty s @ [(k, ca_data x, n)]\<rparr>
          else s)"
| "input_exec sha (Finish k) s =
     (case map_of (sy_calls s) k of
        None \<Rightarrow> s
      | Some x \<Rightarrow>
          (case ca_phase x of
             Written n err \<Rightarrow>
               s\<lparr>sy_calls := set_phase k (Finished n err) (sy_calls s),
                 sy_journal := complete k (outcome k (ca_data x) n err (ca_dec x)) (sy_journal s)\<rparr>
           | _ \<Rightarrow> s))"
| "input_exec sha (Generation g) s = s\<lparr>sy_journal := SetGeneration g (sy_journal s)\<rparr>"

definition input_init :: "inputJournal \<Rightarrow> input_system" where
  "input_init j = \<lparr>sy_journal = j, sy_calls = [], sy_pty = []\<rparr>"

section \<open>Invariant\<close>

text \<open>The decision the journal holds for a call.\<close>

definition recorded :: "inputKey \<Rightarrow> input_call \<Rightarrow> inputDecision" where
  "recorded k x =
     (case ca_phase x of Finished n err \<Rightarrow> outcome k (ca_data x) n err (ca_dec x) | _ \<Rightarrow> ca_dec x)"

text \<open>The calls of one ordered stream of input, and whether one has reached the PTY.\<close>

definition of_cursor :: "inputCursor \<Rightarrow> inputKey \<Rightarrow> bool" where
  "of_cursor c k \<longleftrightarrow> cursor_of k = c \<and> ik_sequence k \<noteq> 0"

definition emitted :: "input_call \<Rightarrow> bool" where
  "emitted x \<longleftrightarrow> ca_phase x \<noteq> Writing"

definition settled :: "inputKey \<Rightarrow> input_call \<Rightarrow> bool" where
  "settled k x \<longleftrightarrow> id_status (recorded k x) \<noteq> InputUncertain"

definition calls_of :: "inputCursor \<Rightarrow> input_system \<Rightarrow> (inputKey \<times> input_call) list" where
  "calls_of c s = filter (\<lambda>(k, x). of_cursor c k) (sy_calls s)"

text \<open>
  What the journal \<open>j0\<close> that the system started with, its present journal, the calls and the
  PTY have to do with each other.
\<close>

definition calls_inv :: "inputJournal \<Rightarrow> input_system \<Rightarrow> bool" where
  "calls_inv j0 s \<longleftrightarrow>
     distinct (map fst (sy_calls s)) \<and>
     (\<forall>k x. (k, x) \<in> set (sy_calls s) \<longrightarrow>
        map_of (j_decisions (sy_journal s)) k = Some (recorded k x) \<and>
        id_status (ca_dec x) = InputUncertain \<and> map_of (j_decisions j0) k = None \<and>
        (ik_sequence k \<noteq> 0 \<longrightarrow> ik_id k = []) \<and> ik_sequence k < u64_size) \<and>
     dom (map_of (j_decisions j0)) \<subseteq> dom (map_of (j_decisions (sy_journal s)))"

definition pty_inv :: "input_system \<Rightarrow> bool" where
  "pty_inv s \<longleftrightarrow>
     distinct (map fst (sy_pty s)) \<and>
     (\<forall>k d n. (k, d, n) \<in> set (sy_pty s) \<longrightarrow>
        (\<exists>x. (k, x) \<in> set (sy_calls s) \<and> ca_data x = d \<and>
             (\<exists>err. ca_phase x = Written n err \<or> ca_phase x = Finished n err)))"

definition order_inv :: "input_system \<Rightarrow> bool" where
  "order_inv s \<longleftrightarrow>
     (\<forall>c. calls_of c s \<noteq> [] \<longrightarrow>
        LastSequence c (sy_journal s) = ik_sequence (fst (last (calls_of c s))) \<and>
        (\<exists>b. map (ik_sequence \<circ> fst) (calls_of c s) = [b..<b + length (calls_of c s)]) \<and>
        (\<forall>(k, x)\<in>set (butlast (calls_of c s)). settled k x)) \<and>
     (\<forall>c. filter (of_cursor c) (map fst (sy_pty s)) =
        map fst (filter (\<lambda>(k, x). emitted x) (calls_of c s)))"

definition input_inv :: "inputJournal \<Rightarrow> input_system \<Rightarrow> bool" where
  "input_inv j0 s \<longleftrightarrow> calls_inv j0 s \<and> pty_inv s \<and> order_inv s"

definition input_ok :: "input_op \<Rightarrow> bool" where
  "input_ok op \<longleftrightarrow> (case op of Start k d \<Rightarrow> ik_sequence k < u64_size | _ \<Rightarrow> True)"

section \<open>Reservation\<close>

lemma normalize_key:
  "ik_sequence (fst (normalizeInputKey k)) = ik_sequence k"
  "ik_sequence k \<noteq> 0 \<Longrightarrow> ik_id (fst (normalizeInputKey k)) = []"
  by (simp_all add: normalizeInputKey_def)

text \<open>What a reservation does, and that it is the only change \<^verbatim>\<open>reserve\<close> makes.\<close>

lemma reserve_Answered: "reserve sha k d w j = (Answered r, j') \<Longrightarrow> j' = j"
  by (auto simp: reserve_def Let_def split: prod.splits if_splits option.splits)

lemma reserve_Reserved:
  assumes "reserve sha k d w j = (Reserved key dec, j')"
  shows "key = fst (normalizeInputKey k)" and "map_of (j_decisions j) key = None"
    and "sequence_error key j = None" and "id_status dec = InputUncertain"
    and "map_of (j_decisions j') = (map_of (j_decisions j))(key \<mapsto> dec)"
    and "LastSequence c j' = (if of_cursor c key then ik_sequence key else LastSequence c j)"
  using assms
  by (auto simp: reserve_def Let_def update_conv' LastSequence_def of_cursor_def
      split: prod.splits if_splits option.splits)

lemma complete_recorded:
  assumes "map_of (j_decisions j) k = Some d" and "id_hash d = id_hash d'"
  shows "map_of (j_decisions (complete k d' j)) = (map_of (j_decisions j))(k \<mapsto> d')"
    and "LastSequence c (complete k d' j) = LastSequence c j"
  using assms by (simp_all add: complete_def update_conv' LastSequence_def)

lemma outcome_hash [simp]: "id_hash (outcome k d n err x) = id_hash x"
  by (simp add: outcome_def Let_def)

lemma outcome_uncertain:
  "id_status (outcome k d n err x) \<noteq> InputUncertain \<longleftrightarrow> n = int (length d) \<or> n = 0"
  by (auto simp: outcome_def Let_def)

section \<open>Preservation\<close>

lemma set_phase_keys [simp]: "map fst (set_phase k p cs) = map fst cs"
  by (auto simp: set_phase_def)

lemma set_phase_simps [simp]:
  "set_phase k p [] = []"
  "set_phase k p (y # ys) = (if fst y = k then (fst y, (snd y)\<lparr>ca_phase := p\<rparr>) else y) # set_phase k p ys"
  by (auto simp: set_phase_def split: prod.split)

lemma set_phase_member:
  "(i, y) \<in> set (set_phase k p cs) \<longleftrightarrow>
     (\<exists>x. (i, x) \<in> set cs \<and> y = (if i = k then x\<lparr>ca_phase := p\<rparr> else x))"
  by (induction cs) (auto split: if_splits)

lemma set_phase_filter:
  "filter (\<lambda>(i, x). P i) (set_phase k p cs) = set_phase k p (filter (\<lambda>(i, x). P i) cs)"
  by (induction cs) (auto split: if_splits)

lemma set_phase_last: "cs \<noteq> [] \<Longrightarrow> fst (last (set_phase k p cs)) = fst (last cs)"
  by (metis last_map map_is_Nil_conv set_phase_keys)

lemma set_phase_butlast: "butlast (set_phase k p cs) = set_phase k p (butlast cs)"
  by (simp add: set_phase_def map_butlast)

lemma set_phase_Nil [simp]: "set_phase k p cs = [] \<longleftrightarrow> cs = []"
  by (simp add: set_phase_def)

lemma calls_of_member: "(k, x) \<in> set (calls_of c s) \<longleftrightarrow> (k, x) \<in> set (sy_calls s) \<and> of_cursor c k"
  by (auto simp: calls_of_def)

lemma recorded_simps:
  "ca_phase x = Writing \<Longrightarrow> recorded k x = ca_dec x"
  "ca_phase x = Written n err \<Longrightarrow> recorded k x = ca_dec x"
  "recorded k (x\<lparr>ca_phase := Written n err\<rparr>) = ca_dec x"
  "recorded k (x\<lparr>ca_phase := Finished n err\<rparr>) = outcome k (ca_data x) n err (ca_dec x)"
  by (simp_all add: recorded_def)

text \<open>The key a stream recorded last is the key of its last call.\<close>

lemma last_key_call:
  assumes "of_cursor c k" and "of_cursor c key" and "ik_id k = []"
  shows "last_key key (ik_sequence k) = k"
  using assms by (cases k) (auto simp: last_key_def of_cursor_def cursor_of_def)

lemma next_in_order:
  assumes "calls_inv j0 s" and "order_inv s" and "of_cursor c key" and "calls_of c s \<noteq> []"
    and "sequence_error key (sy_journal s) = None"
  shows "ik_sequence key = Suc (ik_sequence (fst (last (calls_of c s)))) \<and>
     settled (fst (last (calls_of c s))) (snd (last (calls_of c s)))"
proof -
  obtain k x where kx: "last (calls_of c s) = (k, x)" by fastforce
  then have m: "(k, x) \<in> set (sy_calls s)" "of_cursor c k"
    using assms(4) last_in_set calls_of_member by metis+
  then have k: "ik_sequence k \<noteq> 0" "ik_id k = []" "ik_sequence k < u64_size"
    "map_of (j_decisions (sy_journal s)) k = Some (recorded k x)"
    using assms(1) by (auto simp: calls_inv_def of_cursor_def)
  have l: "LastSequence (cursor_of key) (sy_journal s) = ik_sequence k"
    using assms(2-4) kx by (auto simp: order_inv_def of_cursor_def)
  have lk: "last_key key (ik_sequence k) = k" using last_key_call[OF m(2) assms(3) k(2)] .
  have "ik_sequence key \<noteq> 0" using assms(3) by (simp add: of_cursor_def)
  then have st: "settled k x" and u: "ik_sequence key = u64_add (ik_sequence k) 1"
    using assms(5) k l lk by (auto simp: sequence_error_def Let_def settled_def split: if_splits)
  have "ik_sequence k + 1 < u64_size"
  proof (rule ccontr)
    assume "\<not> ?thesis"
    with k(3) have "ik_sequence k + 1 = u64_size" by simp
    then have "u64_add (ik_sequence k) 1 = 0" by (simp add: u64_add_def)
    with u \<open>ik_sequence key \<noteq> 0\<close> show False by simp
  qed
  with st u kx show ?thesis by (simp add: u64)
qed

text \<open>A system with one more reserved call.\<close>

lemma start_calls:
  assumes "calls_inv j0 s" and "reserve sha k d True (sy_journal s) = (Reserved key dec, j)"
    and "ik_sequence k < u64_size"
  shows "calls_inv j0 (s\<lparr>sy_journal := j, sy_calls := sy_calls s @ [(key, \<lparr>ca_data = d, ca_dec = dec, ca_phase = Writing\<rparr>)]\<rparr>)"
proof -
  note r = reserve_Reserved[OF assms(2)]
  have fresh: "key \<notin> fst ` set (sy_calls s)" "map_of (j_decisions j0) key = None"
    using assms(1) r(2) by (auto simp: calls_inv_def) 
  have "ik_sequence key \<noteq> 0 \<Longrightarrow> ik_id key = []" "ik_sequence key < u64_size"
    using r(1) assms(3) by (simp_all add: normalize_key)
  with fresh assms(1) r(4,5) show ?thesis
    by (auto simp: calls_inv_def recorded_simps image_iff)
qed

lemma start_order:
  assumes "calls_inv j0 s" and "order_inv s"
    and "reserve sha k d True (sy_journal s) = (Reserved key dec, j)"
  shows "order_inv (s\<lparr>sy_journal := j, sy_calls := sy_calls s @ [(key, \<lparr>ca_data = d, ca_dec = dec, ca_phase = Writing\<rparr>)]\<rparr>)"
    (is "order_inv ?s")
proof -
  note r = reserve_Reserved[OF assms(3)]
  let ?x = "\<lparr>ca_data = d, ca_dec = dec, ca_phase = Writing\<rparr>"
  have co: "calls_of c ?s = calls_of c s @ (if of_cursor c key then [(key, ?x)] else [])" for c
    by (simp add: calls_of_def)
  have emit: "filter (\<lambda>(k, x). emitted x) (calls_of c ?s) = filter (\<lambda>(k, x). emitted x) (calls_of c s)" for c
    by (simp add: co emitted_def)
  have seq: "LastSequence c j = ik_sequence (fst (last (calls_of c ?s))) \<and>
      (\<exists>b. map (ik_sequence \<circ> fst) (calls_of c ?s) = [b..<b + length (calls_of c ?s)]) \<and>
      (\<forall>(k, x)\<in>set (butlast (calls_of c ?s)). settled k x)" if ne: "calls_of c ?s \<noteq> []" for c
  proof (cases "of_cursor c key")
    case False
    with ne assms(2) r(6)[of c] show ?thesis by (simp add: co order_inv_def)
  next
    case True
    show ?thesis
    proof (cases "calls_of c s = []")
      case e: True
      with True r(6)[of c] show ?thesis by (auto simp: co)
    next
      case ne': False
      let ?cs = "calls_of c s"
      obtain b where b: "map (ik_sequence \<circ> fst) ?cs = [b..<b + length ?cs]"
        and st: "\<forall>(k, x)\<in>set (butlast ?cs). settled k x"
        using assms(2) ne' by (auto simp: order_inv_def)
      note n = next_in_order[OF assms(1,2) True ne' r(3)]
      have "ik_sequence (fst (last ?cs)) = b + length ?cs - 1"
        using arg_cong[OF b, of last] ne' by (simp add: last_map last_upt)
      then have "ik_sequence key = b + length ?cs" using n ne' by (cases ?cs) auto
      then have "map (ik_sequence \<circ> fst) (calls_of c ?s) = [b..<b + length (calls_of c ?s)]"
        using True b by (simp add: co)
      moreover have "\<forall>(k, x)\<in>set ?cs. settled k x"
      proof -
        have "set ?cs = insert (last ?cs) (set (butlast ?cs))"
          using ne' by (metis append_butlast_last_id list.simps(15) rotate1.simps(2) set_rotate1)
        with st n show ?thesis by (auto simp: case_prod_beta)
      qed
      ultimately show ?thesis using True r(6)[of c] by (auto simp: co)
    qed
  qed
  show ?thesis using assms(2) seq emit by (auto simp: order_inv_def)
qed

text \<open>A call that is not settled is the last of its stream.\<close>

lemma unsettled_last:
  assumes "calls_inv j0 s" and "order_inv s" and "map_of (sy_calls s) k = Some x"
    and "\<not> settled k x" and "of_cursor c k"
  shows "\<exists>us. calls_of c s = us @ [(k, x)] \<and> k \<notin> fst ` set us"
proof -
  let ?cs = "calls_of c s"
  have m: "(k, x) \<in> set ?cs" using assms(3,5) map_of_SomeD by (fastforce simp: calls_of_member)
  then have ne: "?cs \<noteq> []" by auto
  then have "\<forall>(k, x)\<in>set (butlast ?cs). settled k x" using assms(2) by (auto simp: order_inv_def)
  with assms(4) have "(k, x) \<notin> set (butlast ?cs)" by auto
  moreover have cs: "butlast ?cs @ [last ?cs] = ?cs" using ne by simp
  ultimately have "last ?cs = (k, x)" using m by (metis Un_iff empty_iff empty_set insert_iff list.simps(15) set_append)
  with cs have split: "?cs = butlast ?cs @ [(k, x)]" by simp
  have "distinct (map fst ?cs)" using assms(1) by (auto simp: calls_inv_def calls_of_def distinct_map_filter)
  then have "k \<notin> fst ` set (butlast ?cs)" by (subst (asm) split) auto
  with split show ?thesis by blast
qed

lemma set_phase_fresh: "k \<notin> fst ` set us \<Longrightarrow> set_phase k p us = us"
  by (induction us) auto

lemma calls_of_set_phase:
  "calls_of c (s\<lparr>sy_calls := set_phase k p (sy_calls s)\<rparr>) = set_phase k p (calls_of c s)"
  by (simp add: calls_of_def set_phase_filter)

lemma call_unique: "calls_inv j0 s \<Longrightarrow> map_of (sy_calls s) k = Some x \<Longrightarrow> (k, y) \<in> set (sy_calls s) \<longleftrightarrow> y = x"
  unfolding calls_inv_def by (metis map_of_eq_Some_iff option.inject)

lemma call_facts:
  assumes "calls_inv j0 s" and "map_of (sy_calls s) k = Some x"
  shows "map_of (j_decisions (sy_journal s)) k = Some (recorded k x)" and "id_status (ca_dec x) = InputUncertain"
  using assms map_of_SomeD[OF assms(2)] by (auto simp: calls_inv_def)

lemma unsettled_cases:
  assumes "calls_inv j0 s" and "order_inv s" and "map_of (sy_calls s) k = Some x" and "\<not> settled k x"
  obtains us where "of_cursor c k" "calls_of c s = us @ [(k, x)]" "k \<notin> fst ` set us"
    | "\<not> of_cursor c k" "k \<notin> fst ` set (calls_of c s)"
proof -
  have "\<not> of_cursor c k \<Longrightarrow> k \<notin> fst ` set (calls_of c s)" by (auto simp: calls_of_def)
  then show thesis using that unsettled_last[OF assms, of c] by blast
qed

lemma set_phase_calls:
  assumes "calls_inv j0 s" and "sy_calls s' = set_phase k p (sy_calls s)"
    and "\<And>i y. (i, y) \<in> set (sy_calls s) \<Longrightarrow> map_of (j_decisions (sy_journal s')) i =
            Some (recorded i (if i = k then y\<lparr>ca_phase := p\<rparr> else y))"
    and "dom (map_of (j_decisions (sy_journal s))) \<subseteq> dom (map_of (j_decisions (sy_journal s')))"
  shows "calls_inv j0 s'"
proof -
  have "map_of (j_decisions (sy_journal s')) i = Some (recorded i z) \<and>
      id_status (ca_dec z) = InputUncertain \<and> map_of (j_decisions j0) i = None \<and>
      (ik_sequence i \<noteq> 0 \<longrightarrow> ik_id i = []) \<and> ik_sequence i < u64_size"
    if z: "(i, z) \<in> set (sy_calls s')" for i z
  proof -
    obtain y where y: "(i, y) \<in> set (sy_calls s)" "z = (if i = k then y\<lparr>ca_phase := p\<rparr> else y)"
      using z assms(2) by (auto simp: set_phase_member)
    have "ca_dec z = ca_dec y" using y(2) by simp
    with assms(1) y assms(3)[OF y(1)] show ?thesis by (simp add: calls_inv_def)
  qed
  moreover have "dom (map_of (j_decisions j0)) \<subseteq> dom (map_of (j_decisions (sy_journal s')))"
    using assms(1,4) unfolding calls_inv_def by (meson order_trans)
  moreover have "distinct (map fst (sy_calls s'))" using assms(1,2) by (simp add: calls_inv_def)
  ultimately show ?thesis unfolding calls_inv_def by blast
qed

text \<open>
  Moving an unsettled call to its next phase keeps its stream: the call is the last one, so
  nothing that has to be settled changes.
\<close>

lemma set_phase_order:
  assumes "calls_inv j0 s" and "order_inv s" and "map_of (sy_calls s) k = Some x" and "\<not> settled k x"
    and "sy_calls s' = set_phase k p (sy_calls s)"
    and "\<And>c. LastSequence c (sy_journal s') = LastSequence c (sy_journal s)"
    and "\<And>c. filter (of_cursor c) (map fst (sy_pty s')) =
            filter (of_cursor c) (map fst (sy_pty s)) @ (if of_cursor c k \<and> \<not> emitted x then [k] else [])"
    and "p \<noteq> Writing"
  shows "order_inv s'"
proof -
  have co: "calls_of c s' = set_phase k p (calls_of c s)" for c
    using assms(5) by (simp add: calls_of_def set_phase_filter)
  have seqs: "map (ik_sequence \<circ> fst) (calls_of c s') = map (ik_sequence \<circ> fst) (calls_of c s)" for c
    unfolding co map_map[symmetric] set_phase_keys ..
  have pty: "filter (of_cursor c) (map fst (sy_pty s)) = map fst (filter (\<lambda>(k, x). emitted x) (calls_of c s))" for c
    using assms(2) by (simp add: order_inv_def)
  note cases = unsettled_cases[OF assms(1-4)]
  have bl: "butlast (calls_of c s') = butlast (calls_of c s)" for c
    by (rule cases[of c]) (simp_all add: co set_phase_butlast set_phase_fresh)
  have pty': "filter (of_cursor c) (map fst (sy_pty s')) = map fst (filter (\<lambda>(k, x). emitted x) (calls_of c s'))" for c
  proof (rule cases[of c])
    fix us assume us: "of_cursor c k" "calls_of c s = us @ [(k, x)]" "k \<notin> fst ` set us"
    then have "calls_of c s' = us @ [(k, x\<lparr>ca_phase := p\<rparr>)]"
      using set_phase_fresh[OF us(3)] by (simp add: co set_phase_def)
    moreover have "emitted (x\<lparr>ca_phase := p\<rparr>)" using assms(8) by (simp add: emitted_def)
    ultimately show ?thesis using us unfolding assms(7) pty by simp
  next
    assume "\<not> of_cursor c k" "k \<notin> fst ` set (calls_of c s)"
    then show ?thesis unfolding assms(7) pty by (simp add: co set_phase_fresh)
  qed
  have ne: "calls_of c s' \<noteq> [] \<longleftrightarrow> calls_of c s \<noteq> []" "length (calls_of c s') = length (calls_of c s)"
    "calls_of c s \<noteq> [] \<Longrightarrow> fst (last (calls_of c s')) = fst (last (calls_of c s))" for c
    by (simp_all add: co set_phase_last) (simp add: set_phase_def)
  show ?thesis
    using assms(2) pty' unfolding order_inv_def seqs bl assms(6) ne by (simp add: ne)
qed

text \<open>The PTY takes the bytes of a call.\<close>

lemma emit_inv:
  assumes "input_inv j0 s" and "map_of (sy_calls s) k = Some x" and "ca_phase x = Writing"
  shows "input_inv j0 (s\<lparr>sy_calls := set_phase k (Written n err) (sy_calls s),
                        sy_pty := sy_pty s @ [(k, ca_data x, n)]\<rparr>)" (is "input_inv j0 ?s")
proof -
  have ci: "calls_inv j0 s" and pi: "pty_inv s" and oi: "order_inv s"
    using assms(1) by (simp_all add: input_inv_def)
  note u = call_unique[OF ci assms(2)] and f = call_facts[OF ci assms(2)]
  have "map_of (j_decisions (sy_journal s)) i =
      Some (recorded i (if i = k then y\<lparr>ca_phase := Written n err\<rparr> else y))"
    if "(i, y) \<in> set (sy_calls s)" for i y
    using that u assms(3) f(1) ci by (cases "i = k") (simp_all add: recorded_simps calls_inv_def)
  then have "calls_inv j0 ?s" by (intro set_phase_calls[OF ci]) simp_all
  moreover have "pty_inv ?s"
  proof -
    have new: "k \<notin> fst ` set (sy_pty s)"
      using pi u assms(3) unfolding pty_inv_def by (metis (no_types, lifting) imageE phase.distinct(1,3) prod.collapse)
    have "\<exists>y. (i, y) \<in> set (sy_calls ?s) \<and> ca_data y = d \<and> (\<exists>e. ca_phase y = Written m e \<or> ca_phase y = Finished m e)"
      if "(i, d, m) \<in> set (sy_pty ?s)" for i d m
    proof (cases "i = k")
      case True
      with that new have "d = ca_data x" "m = n" by (auto simp: image_iff)
      with True u show ?thesis by (auto simp: set_phase_member)
    next
      case False
      with that pi obtain y where "(i, y) \<in> set (sy_calls s)" "ca_data y = d"
        "\<exists>e. ca_phase y = Written m e \<or> ca_phase y = Finished m e"
        unfolding pty_inv_def by auto metis
      with False show ?thesis by (auto simp: set_phase_member)
    qed
    with new pi show ?thesis by (simp add: pty_inv_def)
  qed
  moreover have "order_inv ?s"
    by (rule set_phase_order[OF ci oi assms(2), where p = "Written n err"])
      (use f(2) assms(3) in \<open>simp_all add: settled_def recorded_simps emitted_def\<close>)
  ultimately show ?thesis by (simp add: input_inv_def)
qed

text \<open>A call records its outcome.\<close>

lemma finish_inv:
  assumes "input_inv j0 s" and "map_of (sy_calls s) k = Some x" and "ca_phase x = Written n err"
  shows "input_inv j0 (s\<lparr>sy_calls := set_phase k (Finished n err) (sy_calls s),
     sy_journal := complete k (outcome k (ca_data x) n err (ca_dec x)) (sy_journal s)\<rparr>)" (is "input_inv j0 ?s")
proof -
  have ci: "calls_inv j0 s" and pi: "pty_inv s" and oi: "order_inv s"
    using assms(1) by (simp_all add: input_inv_def)
  note u = call_unique[OF ci assms(2)] and f = call_facts[OF ci assms(2)]
  have "id_hash (recorded k x) = id_hash (outcome k (ca_data x) n err (ca_dec x))"
    using assms(3) by (simp add: recorded_simps)
  note c = complete_recorded[OF f(1) this]
  have "calls_inv j0 ?s"
    by (rule set_phase_calls[OF ci]) (use ci u c(1) in \<open>auto simp: recorded_simps calls_inv_def\<close>)
  moreover have "\<exists>y. (i, y) \<in> set (sy_calls ?s) \<and> ca_data y = d \<and> (\<exists>e. ca_phase y = Written m e \<or> ca_phase y = Finished m e)"
    if idm: "(i, d, m) \<in> set (sy_pty s)" for i d m
  proof -
    obtain y where y: "(i, y) \<in> set (sy_calls s)" "ca_data y = d"
      "\<exists>e. ca_phase y = Written m e \<or> ca_phase y = Finished m e"
      using idm pi unfolding pty_inv_def by metis
    then show ?thesis using u assms(3) by (cases "i = k") (auto simp: set_phase_member)
  qed
  then have "pty_inv ?s" using pi by (simp add: pty_inv_def)
  moreover have "order_inv ?s"
    by (rule set_phase_order[OF ci oi assms(2), where p = "Finished n err"])
      (use f(2) assms(3) c(2) in \<open>simp_all add: settled_def recorded_simps emitted_def\<close>)
  ultimately show ?thesis by (simp add: input_inv_def)
qed

lemma start_inv:
  assumes "input_inv j0 s" and "ik_sequence k < u64_size"
  shows "input_inv j0 (input_exec sha (Start k d) s)"
proof (cases "reserve sha k d True (sy_journal s)")
  case (Pair r j)
  show ?thesis
  proof (cases r)
    case (Answered a)
    then have "j = sy_journal s" using Pair reserve_Answered by blast
    with assms(1) Pair Answered show ?thesis by simp
  next
    case (Reserved key dec)
    have r: "reserve sha k d True (sy_journal s) = (Reserved key dec, j)" using Pair Reserved by simp
    have ci: "calls_inv j0 s" and pi: "pty_inv s" and oi: "order_inv s"
      using assms(1) by (simp_all add: input_inv_def)
    have "pty_inv (s\<lparr>sy_journal := j, sy_calls := sy_calls s @ cs\<rparr>)" for cs
      using pi unfolding pty_inv_def by simp metis
    with start_calls[OF ci r assms(2)] start_order[OF ci oi r] show ?thesis
      by (simp add: input_inv_def r)
  qed
qed

lemma generation_inv: "input_inv j0 s \<Longrightarrow> input_inv j0 (input_exec sha (Generation g) s)"
  by (simp add: input_inv_def calls_inv_def pty_inv_def order_inv_def SetGeneration_def
      LastSequence_def calls_of_def)

interpretation input_run: machine "input_exec sha" "input_inv j0" input_ok for sha j0
proof unfold_locales
  fix s op
  assume inv: "input_inv j0 s" and ok: "input_ok op"
  show "input_inv j0 (input_exec sha op s)"
  proof (cases op)
    case (Start k d)
    with inv ok show ?thesis using start_inv[of j0 s k sha d] by (simp add: input_ok_def)
  next
    case (Emit k n err)
    with inv show ?thesis by (auto intro: emit_inv split: option.split)
  next
    case (Finish k)
    with inv show ?thesis by (auto intro: finish_inv split: option.split phase.split)
  next
    case (Generation g)
    with inv show ?thesis by (simp only: generation_inv)
  qed
qed

lemma input_init_inv: "input_inv j (input_init j)"
  by (simp add: input_init_def input_inv_def calls_inv_def pty_inv_def order_inv_def calls_of_def)

lemma input_reachable:
  "list_all input_ok ops \<Longrightarrow> input_inv j0 (fold (input_exec sha) ops (input_init j0))"
  by (rule input_run.run[OF input_init_inv])

lemma filter_keys: "map fst (filter (\<lambda>(k, d, n). P k) xs) = filter P (map fst xs)"
  by (induction xs) auto

text \<open>In a stream, every write but the last was taken whole or refused whole.\<close>

lemma stream_writes_settled:
  assumes "input_inv j0 s" and "filter (\<lambda>(k, d, n). of_cursor c k) (sy_pty s) = ws @ [w]"
    and "(k, d, n) \<in> set ws"
  shows "n = int (length d) \<or> n = 0"
proof -
  let ?E = "filter (\<lambda>(k, x). emitted x) (calls_of c s)"
  have ci: "calls_inv j0 s" and pi: "pty_inv s" and oi: "order_inv s"
    using assms(1) by (simp_all add: input_inv_def)
  have "(k, d, n) \<in> set (filter (\<lambda>(k, d, n). of_cursor c k) (sy_pty s))" using assms(2,3) by simp
  then have p: "(k, d, n) \<in> set (sy_pty s)" and c: "of_cursor c k" by auto
  then obtain x err where x: "(k, x) \<in> set (sy_calls s)" "ca_data x = d"
    "ca_phase x = Written n err \<or> ca_phase x = Finished n err"
    using pi unfolding pty_inv_def by metis
  then have look: "map_of (sy_calls s) k = Some x" using ci by (simp add: calls_inv_def)
  have "map fst (filter (\<lambda>(k, d, n). of_cursor c k) (sy_pty s)) = filter (of_cursor c) (map fst (sy_pty s))"
    by (rule filter_keys)
  then have keys: "map fst ws @ [fst w] = map fst ?E"
    using oi assms(2) by (simp add: order_inv_def)
  have "distinct (map fst ?E)"
    using ci by (auto simp: calls_inv_def calls_of_def distinct_map_filter)
  then have "k \<noteq> fst w" using keys[symmetric] assms(3) by (auto simp: image_iff)
  have "settled k x"
  proof (rule ccontr)
    assume "\<not> settled k x"
    then obtain us where us: "calls_of c s = us @ [(k, x)]" using unsettled_last[OF ci oi look _ c] by blast
    moreover have "emitted x" using x(3) by (auto simp: emitted_def)
    ultimately have "map fst ?E = map fst (filter (\<lambda>(k, x). emitted x) us) @ [k]" by simp
    with keys \<open>k \<noteq> fst w\<close> show False by simp
  qed
  then have "ca_phase x = Finished n err"
    using x(3) call_facts(2)[OF ci look] by (auto simp: settled_def recorded_simps)
  with \<open>settled k x\<close> x(2) show ?thesis by (simp add: settled_def recorded_def outcome_uncertain)
qed

lemma stream_sequences:
  assumes "input_inv j0 s"
  shows "\<exists>b. map ik_sequence (filter (of_cursor c) (map fst (sy_pty s))) =
     [b..<b + length (filter (of_cursor c) (map fst (sy_pty s)))]"
proof -
  have ci: "calls_inv j0 s" and oi: "order_inv s" using assms by (simp_all add: input_inv_def)
  have p: "filter (of_cursor c) (map fst (sy_pty s)) = map fst (filter (\<lambda>(k, x). emitted x) (calls_of c s))"
    using oi by (simp add: order_inv_def)
  show ?thesis
  proof (cases "calls_of c s" rule: rev_cases)
    case Nil
    with p show ?thesis by simp
  next
    case (snoc us y)
    then obtain b where b: "map (ik_sequence \<circ> fst) (us @ [y]) = [b..<b + length (us @ [y])]"
      and st: "\<forall>(k, x)\<in>set us. settled k x"
      using oi unfolding order_inv_def
      by (metis (no_types, lifting) butlast_snoc snoc_eq_iff_butlast)
    have "emitted x" if "(k, x) \<in> set us" for k x
    proof -
      have "(k, x) \<in> set (calls_of c s)" using that snoc by simp
      then have "(k, x) \<in> set (sy_calls s)" by (simp add: calls_of_member)
      then have "id_status (ca_dec x) = InputUncertain" using ci by (simp add: calls_inv_def)
      moreover have "settled k x" using st that by auto
      ultimately show ?thesis by (auto simp: emitted_def settled_def recorded_simps)
    qed
    then have "filter (\<lambda>(k, x). emitted x) us = us" by (auto intro: filter_True)
    then have "filter (\<lambda>(k, x). emitted x) (calls_of c s) = us \<or>
        filter (\<lambda>(k, x). emitted x) (calls_of c s) = us @ [y]" using snoc by auto
    moreover have "map (ik_sequence \<circ> fst) us = [b..<b + length us]"
      using b by (simp add: upt_Suc_append)
    ultimately show ?thesis unfolding p using b by (auto simp: comp_def)
  qed
qed

text \<open>A reserved key names its client, attachment and generation, and carries the digest of its data.\<close>

definition ids_inv :: "(bytes \<Rightarrow> bytes) \<Rightarrow> input_system \<Rightarrow> bool" where
  "ids_inv sha s \<longleftrightarrow>
     (\<forall>(k, x)\<in>set (sy_calls s). ik_client k \<noteq> [] \<and> ik_attachment k \<noteq> [] \<and> ik_generation k \<noteq> 0 \<and>
        id_hash (ca_dec x) = sha (ca_data x))"

lemma reserve_ids:
  assumes "reserve sha k d w j = (Reserved key dec, j')"
  shows "ik_client key \<noteq> [] \<and> ik_attachment key \<noteq> [] \<and> ik_generation key \<noteq> 0 \<and> id_hash dec = sha d"
  using assms by (auto simp: reserve_def Let_def split: prod.splits if_splits option.splits)

lemma set_phase_ids:
  "ids_inv sha s \<Longrightarrow> sy_calls s' = set_phase k p (sy_calls s) \<Longrightarrow> ids_inv sha s'"
  by (fastforce simp: ids_inv_def set_phase_member)

interpretation ids_run: machine "input_exec sha" "ids_inv sha" "\<lambda>_. True" for sha
proof unfold_locales
  fix s op
  assume inv: "ids_inv sha s"
  show "ids_inv sha (input_exec sha op s)"
  proof (cases op)
    case (Start k d)
    with inv show ?thesis
      by (auto simp: ids_inv_def dest: reserve_ids split: prod.split reservation.split)
  next
    case (Emit k n err)
    with inv show ?thesis by (auto intro: set_phase_ids split: option.split)
  next
    case (Finish k)
    with inv show ?thesis by (auto intro: set_phase_ids split: option.split phase.split)
  next
    case (Generation g)
    with inv show ?thesis by (simp add: ids_inv_def)
  qed
qed

lemma ids_reachable: "ids_inv sha (fold (input_exec sha) ops (input_init j0))"
  by (rule ids_run.run) (simp_all add: ids_inv_def input_init_def list_all_iff)

text \<open>A call that nothing interleaves with is the three steps in a row.\<close>

lemma journal_Write_steps:
  assumes "reserve sha k0 d True (sy_journal s) = (Reserved k dec, j)" and "calls_inv j0 s" and "w d = (n, err)"
  shows "sy_journal (fold (input_exec sha) [Start k0 d, Emit k n err, Finish k] s) =
       snd (snd (journal_Write sha k0 d (Some w) (sy_journal s)))"
    and "sy_pty (fold (input_exec sha) [Start k0 d, Emit k n err, Finish k] s) = sy_pty s @ [(k, d, n)]"
proof -
  have new: "k \<notin> fst ` set (sy_calls s)"
    using reserve_Reserved(2)[OF assms(1)] assms(2) by (auto simp: calls_inv_def)
  then have "map_of (sy_calls s) k = None" by (simp add: map_of_eq_None_iff)
  moreover have "set_phase k p (sy_calls s @ cs) = sy_calls s @ set_phase k p cs" for p cs
    using set_phase_fresh[OF new, of p] by (simp add: set_phase_def)
  ultimately show "sy_journal (fold (input_exec sha) [Start k0 d, Emit k n err, Finish k] s) =
       snd (snd (journal_Write sha k0 d (Some w) (sy_journal s)))"
    "sy_pty (fold (input_exec sha) [Start k0 d, Emit k n err, Finish k] s) = sy_pty s @ [(k, d, n)]"
    using assms(1,3)
    by (simp_all add: journal_Write_def map_add_def Let_def)
qed

text \<open>Two inputs of one stream, the second of them retried.\<close>

definition ex_key :: "nat \<Rightarrow> inputKey" where
  "ex_key n = \<lparr>ik_client = ''c'', ik_attachment = ''a'', ik_generation = 1, ik_sequence = n, ik_id = []\<rparr>"

definition ex_journal :: inputJournal where
  "ex_journal = NewBoundedInputJournal 1 8"

definition ex_input :: "input_op list" where
  "ex_input = [Start (ex_key 1) ''ab'', Emit (ex_key 1) 2 False, Finish (ex_key 1),
               Start (ex_key 2) ''c'', Start (ex_key 2) ''c'', Emit (ex_key 2) 1 False]"

definition ex_dec :: "nat \<Rightarrow> bytes \<Rightarrow> inputDecision" where
  "ex_dec n d = \<lparr>id_status = InputUncertain, id_sequence = n, id_bytes = 0, id_error = [], id_hash = d\<rparr>"

definition ex_system :: input_system where
  "ex_system = fold (input_exec (\<lambda>d. d)) ex_input (input_init ex_journal)"

lemma ex_input_ok: "list_all input_ok ex_input"
  by (simp add: ex_input_def input_ok_def ex_key_def u64_size_def)

lemma ex_system_calls:
  "sy_calls ex_system =
     [(ex_key 1, \<lparr>ca_data = ''ab'', ca_dec = ex_dec 1 ''ab'', ca_phase = Finished 2 False\<rparr>),
      (ex_key 2, \<lparr>ca_data = ''c'', ca_dec = ex_dec 2 ''c'', ca_phase = Written 1 False\<rparr>)]"
  "sy_pty ex_system = [(ex_key 1, ''ab'', 2), (ex_key 2, ''c'', 1)]"
  by (simp_all add: ex_system_def ex_input_def input_init_def ex_journal_def NewBoundedInputJournal_def
      reserve_def normalizeInputKey_def ex_key_def ex_dec_def sequence_error_def LastSequence_def
      complete_def outcome_def cursor_of_def last_key_def u64_add_def u64_size_def Let_def)

section \<open>Properties\<close>

text \<open>
  C9. At most once. However calls of \<^verbatim>\<open>Write\<close> interleave, the PTY receives each input at most
  once, and never one that the journal held a decision for when it was opened or restored.
\<close>

theorem input_at_most_once:
  assumes "list_all input_ok ops"
  shows "distinct (map fst (sy_pty (fold (input_exec sha) ops (input_init j0)))) \<and>
     fst ` set (sy_pty (fold (input_exec sha) ops (input_init j0))) \<inter> dom (map_of (j_decisions j0)) = {}"
proof -
  let ?s = "fold (input_exec sha) ops (input_init j0)"
  have ci: "calls_inv j0 ?s" and pi: "pty_inv ?s"
    using input_reachable[OF assms] by (simp_all add: input_inv_def)
  have "map_of (j_decisions j0) k = None" if "(k, d, n) \<in> set (sy_pty ?s)" for k d n
    using that pi ci unfolding pty_inv_def calls_inv_def by metis
  then show ?thesis using pi by (auto simp: pty_inv_def)
qed

theorem input_at_most_once_witness:
  "distinct (map fst (sy_pty (fold (input_exec (\<lambda>d. d)) ex_input (input_init ex_journal)))) \<and>
     map fst (sy_pty ex_system) = [ex_key 1, ex_key 2]"
  using input_at_most_once[OF ex_input_ok, of "\<lambda>d. d" ex_journal] by (simp add: ex_system_calls)





end
