(* ===== verification/Terminal_Modes.thy ===== *)
theory Terminal_Modes
  imports Prelude
begin

text \<open>
  Tracking of the terminal modes a program has switched on,
  \<^verbatim>\<open>internal/hostruntime/session/terminal_modes.go\<close>: the tracker reads the PTY's output as it
  arrives, in chunks of any size, and \<^verbatim>\<open>ResumeSequence\<close> is what a newly attached terminal is sent
  to bring it into the same modes.
\<close>

section \<open>Data and operations\<close>

record terminalModes =
  AlternateScreen :: bool
  MouseClick :: bool
  MouseDrag :: bool
  MouseMotion :: bool
  MouseURXVT :: bool
  MouseSGR :: bool
  FocusEvents :: bool
  BracketedPaste :: bool

definition zero_modes :: terminalModes where
  "zero_modes = \<lparr>AlternateScreen = False, MouseClick = False, MouseDrag = False, MouseMotion = False,
     MouseURXVT = False, MouseSGR = False, FocusEvents = False, BracketedPaste = False\<rparr>"

definition ESC :: byte where
  "ESC = CHR 0x1B"

definition resume_items :: "terminalModes \<Rightarrow> (bool \<times> string) list" where
  "resume_items m =
     [(AlternateScreen m, ''1049''), (MouseClick m, ''1000''), (MouseDrag m, ''1002''),
      (MouseMotion m, ''1003''), (MouseURXVT m, ''1015''), (MouseSGR m, ''1006''),
      (BracketedPaste m, ''2004''), (FocusEvents m, ''1004'')]"

definition ResumeSequence :: "terminalModes \<Rightarrow> bytes" where
  "ResumeSequence m =
     concat (map (\<lambda>(on, i). if on then ESC # ''[?'' @ i @ ''h'' else []) (resume_items m))"

record terminalModeTracker =
  tm_modes :: terminalModes
  tm_tail :: bytes

definition Modes :: "terminalModeTracker \<Rightarrow> terminalModes" where
  "Modes t = tm_modes t"

definition Reset :: "terminalModeTracker \<Rightarrow> terminalModeTracker" where
  "Reset t = \<lparr>tm_modes = zero_modes, tm_tail = []\<rparr>"

text \<open>\<^verbatim>\<open>bytes.Split(params, ";")\<close>, which gives one empty field for empty parameters.\<close>

fun split_semi :: "bytes \<Rightarrow> bytes list" where
  "split_semi [] = [[]]"
| "split_semi (c # cs) =
     (if c = CHR '';'' then [] # split_semi cs
      else (case split_semi cs of [] \<Rightarrow> [[c]] | f # fs \<Rightarrow> (c # f) # fs))"

definition set_mode :: "bool \<Rightarrow> bytes \<Rightarrow> terminalModes \<Rightarrow> terminalModes" where
  "set_mode on v m =
     (if v = ''47'' \<or> v = ''1047'' \<or> v = ''1049'' then m\<lparr>AlternateScreen := on\<rparr>
      else if v = ''1000'' then m\<lparr>MouseClick := on\<rparr>
      else if v = ''1002'' then m\<lparr>MouseDrag := on\<rparr>
      else if v = ''1003'' then m\<lparr>MouseMotion := on\<rparr>
      else if v = ''1015'' then m\<lparr>MouseURXVT := on\<rparr>
      else if v = ''1006'' then m\<lparr>MouseSGR := on\<rparr>
      else if v = ''1004'' then m\<lparr>FocusEvents := on\<rparr>
      else if v = ''2004'' then m\<lparr>BracketedPaste := on\<rparr>
      else m)"

definition setPrivate :: "bytes \<Rightarrow> bool \<Rightarrow> terminalModes \<Rightarrow> terminalModes" where
  "setPrivate params on m = fold (set_mode on) (split_semi params) m"

definition is_final :: "byte \<Rightarrow> bool" where
  "is_final c \<longleftrightarrow> 0x40 \<le> (of_char c :: nat) \<and> (of_char c :: nat) \<le> 0x7e"

text \<open>
  The loop of \<^verbatim>\<open>Consume\<close>; \<open>data\<close> from the next escape character on is \<open>x # y # rest\<close>. The result
  is the modes and the tail that is kept for the next chunk.
\<close>

function consume_loop :: "terminalModes \<Rightarrow> bytes \<Rightarrow> terminalModes \<times> bytes" where
  "consume_loop m data =
     (case dropWhile (\<lambda>c. c \<noteq> ESC) data of
        [] \<Rightarrow> (m, [])
      | [x] \<Rightarrow> (m, [x])
      | x # y # rest \<Rightarrow>
          if y = CHR ''c'' then consume_loop zero_modes rest
          else if y \<noteq> CHR ''['' then consume_loop m rest
          else (case dropWhile (\<lambda>c. \<not> is_final c) rest of
                  [] \<Rightarrow> (m, if length (x # y # rest) \<le> 64 then x # y # rest else [])
                | f # after \<Rightarrow>
                    let params = takeWhile (\<lambda>c. \<not> is_final c) rest;
                        m' = (if (f = CHR ''h'' \<or> f = CHR ''l'') \<and> 3 < length (x # y # rest) \<and> hd rest = CHR ''?''
                              then setPrivate (drop 1 params) (f = CHR ''h'') m else m)
                    in consume_loop m' after))"
  by pat_completeness auto
termination
proof (relation "measure (\<lambda>(m, data). length data)", goal_cases)
  case (2 m data x xs y rest)
  then have "length (x # y # rest) \<le> length data" using length_dropWhile_le by metis
  then show ?case by simp
next
  case (3 m data x xs y rest)
  then have "length (x # y # rest) \<le> length data" using length_dropWhile_le by metis
  then show ?case by simp
next
  case (4 m data x xs y rest f after)
  then have "length (x # y # rest) \<le> length data" "length (f # after) \<le> length rest"
    using length_dropWhile_le by metis+
  then show ?case by simp
qed simp

declare consume_loop.simps [simp del]

definition Consume :: "bytes \<Rightarrow> terminalModeTracker \<Rightarrow> terminalModeTracker" where
  "Consume data t =
     (let (m, tl) = consume_loop (tm_modes t) (tm_tail t @ data) in \<lparr>tm_modes = m, tm_tail = tl\<rparr>)"

section \<open>Specification\<close>

text \<open>
  What a stream of output means without the bound on the kept tail: the modes after it, and
  the unfinished escape sequence at its end.
\<close>

function scan_modes :: "terminalModes \<Rightarrow> bytes \<Rightarrow> terminalModes \<times> bytes" where
  "scan_modes m data =
     (case dropWhile (\<lambda>c. c \<noteq> ESC) data of
        [] \<Rightarrow> (m, [])
      | [x] \<Rightarrow> (m, [x])
      | x # y # rest \<Rightarrow>
          if y = CHR ''c'' then scan_modes zero_modes rest
          else if y \<noteq> CHR ''['' then scan_modes m rest
          else (case dropWhile (\<lambda>c. \<not> is_final c) rest of
                  [] \<Rightarrow> (m, x # y # rest)
                | f # after \<Rightarrow>
                    let params = takeWhile (\<lambda>c. \<not> is_final c) rest;
                        m' = (if (f = CHR ''h'' \<or> f = CHR ''l'') \<and> 3 < length (x # y # rest) \<and> hd rest = CHR ''?''
                              then setPrivate (drop 1 params) (f = CHR ''h'') m else m)
                    in scan_modes m' after))"
  by pat_completeness auto
termination
proof (relation "measure (\<lambda>(m, data). length data)", goal_cases)
  case (2 m data x xs y rest)
  then have "length (x # y # rest) \<le> length data" using length_dropWhile_le by metis
  then show ?case by simp
next
  case (3 m data x xs y rest)
  then have "length (x # y # rest) \<le> length data" using length_dropWhile_le by metis
  then show ?case by simp
next
  case (4 m data x xs y rest f after)
  then have "length (x # y # rest) \<le> length data" "length (f # after) \<le> length rest"
    using length_dropWhile_le by metis+
  then show ?case by simp
qed simp

declare scan_modes.simps [simp del] dropWhile_eq_Nil_conv [simp del]

definition kept :: "bytes \<Rightarrow> bytes" where
  "kept r = (if length r \<le> 64 then r else [])"

lemma consume_scan: "consume_loop m data = (fst (scan_modes m data), kept (snd (scan_modes m data)))"
proof (induction m data rule: consume_loop.induct)
  case (1 m data)
  note unfold = consume_loop.simps[of m data] scan_modes.simps[of m data]
  consider "dropWhile (\<lambda>c. c \<noteq> ESC) data = []" | x where "dropWhile (\<lambda>c. c \<noteq> ESC) data = [x]"
    | x y rest where "dropWhile (\<lambda>c. c \<noteq> ESC) data = x # y # rest"
    by (metis neq_Nil_conv)
  then show ?case
  proof cases
    case (3 x y rest)
    note IH = "1.IH"[OF 3 refl]
    consider "y = CHR ''c''" | "y \<noteq> CHR ''c''" "y \<noteq> CHR ''[''" | "y = CHR ''[''" by blast
    then show ?thesis
    proof cases
      case a: 3
      show ?thesis
      proof (cases "dropWhile (\<lambda>c. \<not> is_final c) rest")
        case Nil
        with 3 a show ?thesis by (simp add: unfold kept_def)
      next
        case (Cons f after)
        with 3 a IH(3)[OF _ _ Cons refl refl] show ?thesis by (simp add: unfold Let_def)
      qed
    qed (use 3 IH(1,2) in \<open>simp_all add: unfold\<close>)
  qed (simp_all add: unfold kept_def)
qed

section \<open>Chunks\<close>

lemma scan_Nil [simp]: "scan_modes m [] = (m, [])"
  by (subst scan_modes.simps) simp

lemma dropWhile_esc_again: "dropWhile (\<lambda>c. c \<noteq> ESC) (dropWhile (\<lambda>c. c \<noteq> ESC) d) = dropWhile (\<lambda>c. c \<noteq> ESC) d"
  by simp

lemma scan_skip: "scan_modes m (dropWhile (\<lambda>c. c \<noteq> ESC) d) = scan_modes m d"
  by (subst (1 2) scan_modes.simps) simp

lemma dropWhile_append_some: "dropWhile P a \<noteq> [] \<Longrightarrow> dropWhile P (a @ b) = dropWhile P a @ b"
  by (auto simp: dropWhile_append dropWhile_eq_Nil_conv)

lemma takeWhile_append_some: "dropWhile P a \<noteq> [] \<Longrightarrow> takeWhile P (a @ b) = takeWhile P a"
  by (auto simp: takeWhile_append dropWhile_eq_Nil_conv)

lemma question_not_final: "\<not> is_final (CHR ''?'')"
  by (simp add: is_final_def)

text \<open>Once a sequence is complete, what follows does not change how it is read.\<close>

lemma complete_length:
  assumes "dropWhile (\<lambda>c. \<not> is_final c) rest = f # after"
  shows "hd (rest @ b) = hd rest" and "hd rest = CHR ''?'' \<Longrightarrow> 3 < length (x # y # rest)"
proof -
  show "hd (rest @ b) = hd rest" using assms by (cases rest) auto
  show "hd rest = CHR ''?'' \<Longrightarrow> 3 < length (x # y # rest)"
    using assms question_not_final by (cases rest; cases "tl rest") auto
qed

lemma scan_append:
  "scan_modes m (a @ b) = (let (m', r) = scan_modes m a in scan_modes m' (r @ b))"
proof (induction m a rule: scan_modes.induct)
  case (1 m a)
  let ?D = "dropWhile (\<lambda>c. c \<noteq> ESC)"
  note unfold = scan_modes.simps[of m a] scan_modes.simps[of m "a @ b"]
  consider "?D a = []" | x where "?D a = [x]" | x y rest where "?D a = x # y # rest"
    by (metis neq_Nil_conv)
  then show ?case
  proof cases
    case 1
    then have "?D (a @ b) = ?D b" by (auto simp: dropWhile_append dropWhile_eq_Nil_conv)
    then have "scan_modes m (a @ b) = scan_modes m b" by (metis scan_skip)
    with 1 show ?thesis by (simp add: unfold(1))
  next
    case (2 x)
    then have "?D (a @ b) = x # b" by (simp add: dropWhile_append_some)
    then have "scan_modes m (a @ b) = scan_modes m (x # b)" by (metis scan_skip)
    with 2 show ?thesis by (simp add: unfold(1))
  next
    case (3 x y rest)
    then have D: "?D (a @ b) = x # y # rest @ b" by (simp add: dropWhile_append_some)
    note IH = "1.IH"[OF 3 refl]
    consider "y = CHR ''c''" | "y \<noteq> CHR ''c''" "y \<noteq> CHR ''[''" | "y = CHR ''[''" by blast
    then show ?thesis
    proof cases
      case a: 3
      show ?thesis
      proof (cases "dropWhile (\<lambda>c. \<not> is_final c) rest")
        case Nil
        have "scan_modes m (a @ b) = scan_modes m (x # y # rest @ b)" by (metis D scan_skip)
        with 3 a Nil show ?thesis by (simp add: unfold(1))
      next
        case (Cons f after)
        note c = complete_length[OF Cons]
        have "dropWhile (\<lambda>c. \<not> is_final c) (rest @ b) = f # after @ b"
          "takeWhile (\<lambda>c. \<not> is_final c) (rest @ b) = takeWhile (\<lambda>c. \<not> is_final c) rest"
          using Cons by (simp_all add: dropWhile_append_some takeWhile_append_some)
        with 3 D a Cons c IH(3)[OF _ _ Cons refl refl] show ?thesis
          by (auto simp: unfold Let_def)
      qed
    qed (use 3 D IH(1,2) in \<open>simp_all add: unfold\<close>)
  qed
qed

text \<open>A tracker that has read some output.\<close>

definition tracks :: "bytes \<Rightarrow> terminalModeTracker \<Rightarrow> bool" where
  "tracks out t \<longleftrightarrow> tm_modes t = fst (scan_modes zero_modes out) \<and> tm_tail t = kept (snd (scan_modes zero_modes out))"

definition new_tracker :: terminalModeTracker where
  "new_tracker = \<lparr>tm_modes = zero_modes, tm_tail = []\<rparr>"

lemma Consume_tracks:
  assumes "tracks out t" and "length (snd (scan_modes zero_modes out)) \<le> 64"
  shows "tracks (out @ data) (Consume data t)"
  using assms scan_append[of zero_modes out data]
  by (simp add: tracks_def Consume_def consume_scan kept_def case_prod_beta)

lemma chunks_track:
  assumes "tracks out t"
    and "\<forall>n<length chunks. length (snd (scan_modes zero_modes (out @ concat (take n chunks)))) \<le> 64"
  shows "tracks (out @ concat chunks) (fold Consume chunks t)"
  using assms
proof (induction chunks arbitrary: out t)
  case (Cons d ds)
  have "length (snd (scan_modes zero_modes out)) \<le> 64"
    using Cons.prems(2)[rule_format, of 0] by simp
  then have "tracks (out @ d) (Consume d t)" using Consume_tracks Cons.prems(1) by blast
  moreover have "\<forall>n<length ds. length (snd (scan_modes zero_modes ((out @ d) @ concat (take n ds)))) \<le> 64"
  proof (intro allI impI)
    fix n assume "n < length ds"
    with Cons.prems(2)[rule_format, of "Suc n"]
    show "length (snd (scan_modes zero_modes ((out @ d) @ concat (take n ds)))) \<le> 64" by simp
  qed
  ultimately have "tracks ((out @ d) @ concat ds) (fold Consume ds (Consume d t))" by (rule Cons.IH)
  then show ?case by simp
qed simp

lemma new_tracks: "tracks [] new_tracker"
  by (simp add: tracks_def new_tracker_def kept_def)

section \<open>Round trip\<close>

lemma split_semi_plain: "CHR '';'' \<notin> set p \<Longrightarrow> split_semi p = [p]"
  by (induction p) auto

lemma scan_private:
  assumes "\<forall>c\<in>set p. \<not> is_final c \<and> c \<noteq> CHR '';''"
  shows "scan_modes m (ESC # ''[?'' @ p @ ''h'' @ out) = scan_modes (set_mode True p m) out"
proof -
  have f: "is_final (CHR ''h'')" by (simp add: is_final_def)
  have w: "dropWhile (\<lambda>c. \<not> is_final c) (CHR ''?'' # p @ CHR ''h'' # out) = CHR ''h'' # out"
    "takeWhile (\<lambda>c. \<not> is_final c) (CHR ''?'' # p @ CHR ''h'' # out) = CHR ''?'' # p"
    using assms question_not_final f by (simp_all add: dropWhile_append2 takeWhile_append2)
  have "CHR '';'' \<notin> set p" using assms by blast
  then have set: "setPrivate p True m = set_mode True p m"
    by (simp add: setPrivate_def split_semi_plain)
  have "dropWhile (\<lambda>c. c \<noteq> ESC) (ESC # CHR ''['' # d) = ESC # CHR ''['' # d" for d by simp
  then have "scan_modes m (ESC # CHR ''['' # CHR ''?'' # p @ CHR ''h'' # out) = scan_modes (setPrivate p True m) out"
    by (subst scan_modes.simps) (simp add: w del: dropWhile.simps takeWhile.simps)
  then show ?thesis by (simp add: set)
qed

lemma scan_items:
  assumes "\<forall>(on, i)\<in>set items. \<forall>c\<in>set i. \<not> is_final c \<and> c \<noteq> CHR '';''"
  shows "scan_modes m (concat (map (\<lambda>(on, i). if on then ESC # ''[?'' @ i @ ''h'' else []) items)) =
     (fold (\<lambda>(on, i) m. if on then set_mode True i m else m) items m, [])"
  using assms
proof (induction items arbitrary: m)
  case Nil
  show ?case by simp
next
  case (Cons it items)
  obtain on i where it: "it = (on, i)" by fastforce
  have i: "\<forall>c\<in>set i. \<not> is_final c \<and> c \<noteq> CHR '';''" using Cons.prems it by auto
  have r: "\<forall>(on, i)\<in>set items. \<forall>c\<in>set i. \<not> is_final c \<and> c \<noteq> CHR '';''" using Cons.prems by auto
  show ?case
    using scan_private[OF i, of m] Cons.IH[OF r] it by (cases on) simp_all
qed

lemma resume_items_plain: "\<forall>(on, i)\<in>set (resume_items m). \<forall>c\<in>set i. \<not> is_final c \<and> c \<noteq> CHR '';''"
  by (simp add: resume_items_def is_final_def)

lemma set_mode_if:
  "(if b then set_mode True ''1049'' m else m) = m\<lparr>AlternateScreen := b \<or> AlternateScreen m\<rparr>"
  "(if b then set_mode True ''1000'' m else m) = m\<lparr>MouseClick := b \<or> MouseClick m\<rparr>"
  "(if b then set_mode True ''1002'' m else m) = m\<lparr>MouseDrag := b \<or> MouseDrag m\<rparr>"
  "(if b then set_mode True ''1003'' m else m) = m\<lparr>MouseMotion := b \<or> MouseMotion m\<rparr>"
  "(if b then set_mode True ''1015'' m else m) = m\<lparr>MouseURXVT := b \<or> MouseURXVT m\<rparr>"
  "(if b then set_mode True ''1006'' m else m) = m\<lparr>MouseSGR := b \<or> MouseSGR m\<rparr>"
  "(if b then set_mode True ''2004'' m else m) = m\<lparr>BracketedPaste := b \<or> BracketedPaste m\<rparr>"
  "(if b then set_mode True ''1004'' m else m) = m\<lparr>FocusEvents := b \<or> FocusEvents m\<rparr>"
  by (cases m; cases b; simp add: set_mode_def)+

lemma resume_modes: "fold (\<lambda>(on, i) m. if on then set_mode True i m else m) (resume_items m) zero_modes = m"
  unfolding resume_items_def fold_simps id_apply case_prod_conv set_mode_if
  by (simp add: zero_modes_def)

section \<open>Properties\<close>

text \<open>
  C32. Round trip. A terminal that reads \<^verbatim>\<open>ResumeSequence\<close> of some modes from a reset state is in
  exactly those modes, with no unfinished sequence left over.
\<close>

theorem resume_roundtrip:
  "Consume (ResumeSequence m) new_tracker = \<lparr>tm_modes = m, tm_tail = []\<rparr>"
  by (simp add: Consume_def new_tracker_def consume_scan ResumeSequence_def
      scan_items[OF resume_items_plain] resume_modes kept_def)

text \<open>
  C34. Chunks do not matter. However the PTY's output is cut into chunks, the tracker ends in
  the modes of the whole output, provided no cut leaves an unfinished sequence of more than
  64 bytes behind it.
\<close>

theorem chunk_invariance:
  assumes "\<forall>n<length chunks. length (snd (scan_modes zero_modes (concat (take n chunks)))) \<le> 64"
  shows "fold Consume chunks new_tracker = Consume (concat chunks) new_tracker"
proof -
  have "tracks (concat chunks) (fold Consume chunks new_tracker)"
    using chunks_track[OF new_tracks, of chunks] assms by simp
  moreover have "tracks (concat chunks) (Consume (concat chunks) new_tracker)"
    using Consume_tracks[OF new_tracks, of "concat chunks"] by simp
  ultimately show ?thesis by (simp add: tracks_def)
qed

theorem chunk_invariance_witness:
  "fold Consume [ESC # ''[?10'', ''49h''] new_tracker = Consume (ESC # ''[?1049h'') new_tracker"
proof -
  have "scan_modes zero_modes (ESC # ''[?10'') = (zero_modes, ESC # ''[?10'')"
    by (subst scan_modes.simps) (simp add: ESC_def is_final_def)
  then have "\<forall>n<length [ESC # ''[?10'', ''49h'']. length (snd (scan_modes zero_modes (concat (take n [ESC # ''[?10'', ''49h''])))) \<le> 64"
    by (auto simp: less_Suc_eq numeral_2_eq_2)
  from chunk_invariance[OF this] show ?thesis by simp
qed

end
