(* ===== verification/Store.thy ===== *)
theory Store
  imports History
begin

text \<open>
  The tables behind terminal sessions, \<^verbatim>\<open>internal/hostruntime/store/store.go\<close> with
  \<^verbatim>\<open>schema.sql\<close> and \<^verbatim>\<open>queries/store.sql\<close>: session rows, retained output and input decisions. Each
  operation runs in one statement or one transaction, so it either takes effect as a whole
  or leaves the tables as they were; the argument \<open>fault\<close> says that the database reported an
  error of its own. Row timestamps other than \<^verbatim>\<open>exited_at\<close> are left out.
\<close>

section \<open>Tables\<close>

record session_row =
  sn_id :: string
  sn_name :: string
  sn_cwd :: string
  sn_path :: string
  sn_args :: "string list"
  sn_env :: "string list"
  sn_columns :: nat
  sn_rows :: nat
  sn_state :: string
  sn_generation :: nat
  sn_exit_code :: "int option"
  sn_exit_signal :: string
  sn_exited_at :: "int option"
  sn_earliest :: nat
  sn_latest :: nat

record input_row =
  ir_session :: string
  ir_client :: string
  ir_attachment :: string
  ir_generation :: nat
  ir_input :: string
  ir_hash :: bytes
  ir_status :: string
  ir_bytes :: int
  ir_error :: string

record store =
  st_sessions :: "(string \<times> session_row) list"
  st_output :: "(string \<times> event list) list"
  st_inputs :: "input_row list"

datatype store_error = ErrConflict | ErrReplayGap nat nat nat | ErrDatabase

text \<open>Integer columns are signed 64-bit and checked to be non-negative.\<close>

definition i63 :: "nat \<Rightarrow> bool" where
  "i63 n \<longleftrightarrow> n < 2 ^ 63"

definition session_checks :: "session_row \<Rightarrow> bool" where
  "session_checks r \<longleftrightarrow>
     1 \<le> sn_columns r \<and> sn_columns r \<le> 1000 \<and> 1 \<le> sn_rows r \<and> sn_rows r \<le> 1000 \<and>
     i63 (sn_generation r) \<and> i63 (sn_earliest r) \<and> i63 (sn_latest r) \<and> sn_earliest r \<le> sn_latest r"

definition output_of :: "string \<Rightarrow> store \<Rightarrow> event list" where
  "output_of i st = (case map_of (st_output st) i of None \<Rightarrow> [] | Some es \<Rightarrow> es)"

section \<open>Sessions\<close>

definition CreateSession :: "bool \<Rightarrow> session_row \<Rightarrow> store \<Rightarrow> (store_error + unit) \<times> store" where
  "CreateSession fault r st =
     (if fault \<or> \<not> session_checks r \<or> map_of (st_sessions st) (sn_id r) \<noteq> None \<or>
         list_ex (\<lambda>(i, q). sn_name q = sn_name r) (st_sessions st)
      then (Inl ErrDatabase, st)
      else (Inr (), st\<lparr>st_sessions := AList.update (sn_id r) r (st_sessions st)\<rparr>))"

definition Sessions :: "bool \<Rightarrow> store \<Rightarrow> store_error + session_row list" where
  "Sessions fault st =
     (if fault then Inl ErrDatabase else Inr (sort_key (\<lambda>r. map of_char (sn_name r) :: nat list) (map snd (st_sessions st))))"

text \<open>
  \<^verbatim>\<open>UpdateSession\<close> writes only a row whose state is the expected one, and never its output
  bounds.
\<close>

definition UpdateSession :: "bool \<Rightarrow> string \<Rightarrow> string \<Rightarrow> session_row \<Rightarrow> store \<Rightarrow> (store_error + unit) \<times> store" where
  "UpdateSession fault i expected next st =
     (if fault then (Inl ErrDatabase, st)
      else case map_of (st_sessions st) i of
        None \<Rightarrow> (Inl ErrConflict, st)
      | Some r \<Rightarrow>
          let r' = r\<lparr>sn_cwd := sn_cwd next, sn_columns := sn_columns next, sn_rows := sn_rows next,
                     sn_state := sn_state next, sn_generation := sn_generation next,
                     sn_exit_code := sn_exit_code next, sn_exit_signal := sn_exit_signal next,
                     sn_exited_at := sn_exited_at next\<rparr>
          in if sn_state r \<noteq> expected then (Inl ErrConflict, st)
             else if \<not> session_checks r' then (Inl ErrDatabase, st)
             else (Inr (), st\<lparr>st_sessions := AList.update i r' (st_sessions st)\<rparr>))"

text \<open>Deleting a session deletes its output and its input decisions with it.\<close>

definition DeleteSession :: "bool \<Rightarrow> string \<Rightarrow> store \<Rightarrow> (store_error + unit) \<times> store" where
  "DeleteSession fault i st =
     (if fault then (Inl ErrDatabase, st)
      else case map_of (st_sessions st) i of
        None \<Rightarrow> (Inl ErrConflict, st)
      | Some r \<Rightarrow>
          if sn_state r \<noteq> ''exited'' \<and> sn_state r \<noteq> ''closed'' then (Inl ErrConflict, st)
          else (Inr (), st\<lparr>st_sessions := AList.delete i (st_sessions st),
                          st_output := AList.delete i (st_output st),
                          st_inputs := filter (\<lambda>d. ir_session d \<noteq> i) (st_inputs st)\<rparr>))"

section \<open>Output\<close>

definition OutputBounds :: "bool \<Rightarrow> string \<Rightarrow> store \<Rightarrow> store_error + (nat \<times> nat)" where
  "OutputBounds fault i st =
     (if fault then Inl ErrDatabase
      else case map_of (st_sessions st) i of
        None \<Rightarrow> Inl ErrDatabase
      | Some r \<Rightarrow> Inr (sn_earliest r, sn_latest r))"

definition set_output :: "string \<Rightarrow> session_row \<Rightarrow> event list \<Rightarrow> store \<Rightarrow> store" where
  "set_output i r es st =
     st\<lparr>st_sessions := AList.update i r (st_sessions st), st_output := AList.update i es (st_output st)\<rparr>"

definition ClearOutput :: "bool \<Rightarrow> string \<Rightarrow> nat \<Rightarrow> store \<Rightarrow> (store_error + unit) \<times> store" where
  "ClearOutput fault i n st =
     (case map_of (st_sessions st) i of
        None \<Rightarrow> (Inl ErrDatabase, st)
      | Some r \<Rightarrow>
          if fault then (Inl ErrDatabase, st)
          else if sn_latest r \<noteq> n then (Inl ErrConflict, st)
          else (Inr (), set_output i (r\<lparr>sn_earliest := n, sn_latest := n\<rparr>) [] st))"

definition AdvanceOutput :: "bool \<Rightarrow> string \<Rightarrow> nat \<Rightarrow> nat \<Rightarrow> store \<Rightarrow> (store_error + unit) \<times> store" where
  "AdvanceOutput fault i expected n st =
     (if n < expected then (Inl ErrConflict, st)
      else case map_of (st_sessions st) i of
        None \<Rightarrow> (Inl ErrDatabase, st)
      | Some r \<Rightarrow>
          if fault \<or> \<not> i63 n then (Inl ErrDatabase, st)
          else if sn_latest r \<noteq> expected then (Inl ErrConflict, st)
          else (Inr (), set_output i (r\<lparr>sn_earliest := n, sn_latest := n\<rparr>) [] st))"

text \<open>
  The loop that deletes the oldest events while more than \<open>maxR\<close> bytes are retained;
  \<^const>\<open>None\<close> is a query that finds no row.
\<close>

fun trim_loop :: "nat \<Rightarrow> nat \<Rightarrow> nat \<Rightarrow> event list \<Rightarrow> (nat \<times> nat \<times> event list) option" where
  "trim_loop maxR ret earliest [] =
     (if ret \<le> maxR then Some (ret, earliest, []) else None)"
| "trim_loop maxR ret earliest (e # es) =
     (if ret \<le> maxR then Some (ret, earliest, e # es)
      else trim_loop maxR (u64_sub ret (length (ev_data e))) (ev_end e) es)"

definition AppendOutput ::
  "bool \<Rightarrow> string \<Rightarrow> byte \<Rightarrow> nat \<Rightarrow> bytes \<Rightarrow> nat \<Rightarrow> store \<Rightarrow> (store_error + nat) \<times> store" where
  "AppendOutput fault i ch start d maxR st =
     (let en = u64_add start (length d); e = \<lparr>ev_channel = ch, ev_start = start, ev_end = en, ev_data = d\<rparr>
      in if d = [] \<or> maxR = 0 \<or> en < start then (Inl ErrConflict, st)
         else if fault then (Inl ErrDatabase, st)
         else case map_of (st_sessions st) i of
           None \<Rightarrow> (Inl ErrDatabase, st)
         | Some r \<Rightarrow>
             if sn_latest r \<noteq> start \<or> sn_latest r < sn_earliest r then (Inl ErrConflict, st)
             else if ch \<noteq> CHR 0x01 \<and> ch \<noteq> CHR 0x02 \<or> \<not> i63 en \<or>
                     list_ex (\<lambda>x. ev_start x = start) (output_of i st)
             then (Inl ErrDatabase, st)
             else (case trim_loop maxR (u64_sub en (sn_earliest r)) (sn_earliest r)
                          (insort_key ev_start e (output_of i st)) of
                 None \<Rightarrow> (Inl ErrDatabase, st)
               | Some (ret, earliest, es) \<Rightarrow>
                   let earliest = (if ret = 0 then en else earliest)
                   in (Inr earliest, set_output i (r\<lparr>sn_latest := en, sn_earliest := earliest\<rparr>) es st)))"

definition Store_Replay :: "bool \<Rightarrow> string \<Rightarrow> nat \<Rightarrow> nat \<Rightarrow> store \<Rightarrow> store_error + (event list \<times> nat \<times> nat)" where
  "Store_Replay fault i fr lim st =
     (case OutputBounds fault i st of
        Inl e \<Rightarrow> Inl e
      | Inr (earliest, latest) \<Rightarrow>
          if fr < earliest then Inl (ErrReplayGap fr earliest latest)
          else if latest < fr then Inl ErrConflict
          else Inr (fst (replay_loop fr lim lim [] fr (filter (\<lambda>e. fr < ev_end e) (output_of i st))),
                    earliest, latest))"

definition TrimOutput :: "bool \<Rightarrow> string \<Rightarrow> nat \<Rightarrow> store \<Rightarrow> (store_error + nat) \<times> store" where
  "TrimOutput fault i maxR st =
     (if maxR = 0 then (Inl ErrConflict, st)
      else case map_of (st_sessions st) i of
        None \<Rightarrow> (Inl ErrDatabase, st)
      | Some r \<Rightarrow>
          if fault then (Inl ErrDatabase, st)
          else (case trim_loop maxR (u64_sub (sn_latest r) (sn_earliest r)) (sn_earliest r) (output_of i st) of
              None \<Rightarrow> (Inl ErrDatabase, st)
            | Some (ret, earliest, es) \<Rightarrow>
                let earliest = (if ret = 0 then sn_latest r else earliest)
                in (Inr earliest, set_output i (r\<lparr>sn_earliest := earliest\<rparr>) es st)))"

section \<open>Input decisions\<close>

definition same_input :: "input_row \<Rightarrow> input_row \<Rightarrow> bool" where
  "same_input x y \<longleftrightarrow>
     ir_session x = ir_session y \<and> ir_client x = ir_client y \<and> ir_attachment x = ir_attachment y \<and>
     ir_generation x = ir_generation y \<and> ir_input x = ir_input y"

definition PutInputDecision :: "bool \<Rightarrow> input_row \<Rightarrow> store \<Rightarrow> (store_error + bool) \<times> store" where
  "PutInputDecision fault d st =
     (if fault then (Inl ErrDatabase, st)
      else case List.find (same_input d) (st_inputs st) of
        None \<Rightarrow>
          if map_of (st_sessions st) (ir_session d) = None then (Inl ErrDatabase, st)
          else (Inr True, st\<lparr>st_inputs := st_inputs st @ [d]\<rparr>)
      | Some x \<Rightarrow>
          if ir_hash x \<noteq> ir_hash d then (Inl ErrConflict, st) else (Inr False, st))"

definition InputDecisions :: "bool \<Rightarrow> string \<Rightarrow> store \<Rightarrow> store_error + input_row list" where
  "InputDecisions fault i st =
     (if fault then Inl ErrDatabase
      else Inr (sort_key ir_generation (filter (\<lambda>d. ir_session d = i) (st_inputs st))))"

definition UpdateInputDecision :: "bool \<Rightarrow> input_row \<Rightarrow> store \<Rightarrow> (store_error + unit) \<times> store" where
  "UpdateInputDecision fault d st =
     (let hit = (\<lambda>x. same_input d x \<and> ir_hash x = ir_hash d)
      in if fault then (Inl ErrDatabase, st)
         else if \<not> list_ex hit (st_inputs st) then (Inl ErrConflict, st)
         else (Inr (), st\<lparr>st_inputs :=
                 map (\<lambda>x. if hit x then x\<lparr>ir_status := ir_status d, ir_bytes := ir_bytes d, ir_error := ir_error d\<rparr> else x)
                   (st_inputs st)\<rparr>))"

section \<open>Stored output\<close>

text \<open>
  The stored output of session \<open>i\<close> is a window of the log \<open>evs\<close>: its rows are contiguous
  between the stored bounds and carry the bytes of the log there.
\<close>

definition stored :: "event list \<Rightarrow> string \<Rightarrow> store \<Rightarrow> bool" where
  "stored evs i st \<longleftrightarrow>
     (\<exists>r. map_of (st_sessions st) i = Some r \<and>
          contiguous (sn_earliest r) (sn_latest r) (output_of i st) \<and>
          (\<forall>e\<in>set (output_of i st). ev_data e \<noteq> []) \<and>
          payload (output_of i st) = slice (payload evs) (sn_earliest r) (sn_latest r) \<and>
          sn_latest r \<le> length (payload evs) \<and> i63 (sn_latest r))"

definition stored_latest :: "string \<Rightarrow> store \<Rightarrow> nat" where
  "stored_latest i st = (case map_of (st_sessions st) i of None \<Rightarrow> 0 | Some r \<Rightarrow> sn_latest r)"

lemma i63_u64: "i63 n \<Longrightarrow> n < u64_size"
  by (simp add: i63_def u64_size_def)

lemma set_output_simps [simp]:
  "map_of (st_sessions (set_output i r es st)) = (map_of (st_sessions st))(i \<mapsto> r)"
  "output_of i (set_output i r es st) = es"
  by (simp_all add: set_output_def output_of_def update_conv')

lemma slice_append_right: "j \<le> length xs \<Longrightarrow> slice (xs @ ys) i j = slice xs i j"
  by (rule slice_append_left)

lemma stored_mono: "stored evs i st \<Longrightarrow> stored (evs @ es) i st"
  by (auto simp: stored_def slice_append_right intro: trans_le_add1)

lemma trim_loop_spec:
  assumes "contiguous a b es" and "b < u64_size"
  shows "\<exists>k a'. trim_loop m (b - a) a es = Some (b - a', a', drop k es) \<and>
     contiguous a' b (drop k es) \<and> a \<le> a' \<and> a' \<le> b \<and> b - a' \<le> m"
  using assms
proof (induction es arbitrary: a)
  case Nil
  then show ?case by simp
next
  case (Cons e es)
  have c: "contiguous (ev_end e) b es" and s: "ev_start e = a" "ev_end e = a + length (ev_data e)"
    using Cons.prems(1) by auto
  have le: "ev_end e \<le> b" using c by (auto dest: contiguous_le)
  show ?case
  proof (cases "b - a \<le> m")
    case True
    with Cons.prems(1) s le show ?thesis by (intro exI[of _ 0] exI[of _ a]) auto
  next
    case False
    have u: "u64_sub (b - a) (length (ev_data e)) = b - ev_end e"
      using s le Cons.prems(2) by (subst u64_sub_exact) auto
    obtain k a' where k: "trim_loop m (b - ev_end e) (ev_end e) es = Some (b - a', a', drop k es)"
      "contiguous a' b (drop k es)" "ev_end e \<le> a'" "a' \<le> b" "b - a' \<le> m"
      using Cons.IH[OF c Cons.prems(2)] by blast
    then show ?thesis using False u s by (intro exI[of _ "Suc k"] exI[of _ a']) auto
  qed
qed

text \<open>Dropping rows from the front of a window leaves a window.\<close>

lemma window_drop:
  assumes "contiguous a b es" and "contiguous a' b (drop k es)" and "payload es = slice p a b" and "a \<le> a'"
  shows "payload (drop k es) = slice p a' b"
proof -
  have sp: "payload es = payload (take k es) @ payload (drop k es)"
    by (metis append_take_drop_id payload_simps(3))
  have "b = a + length (payload es)" "b = a' + length (payload (drop k es))"
    using contiguous_le assms(1,2) by blast+
  then have "length (payload (take k es)) = a' - a" using sp assms(4) by (metis add_diff_cancel_left' add_diff_cancel_right' diff_commute diff_diff_left length_append le_add_diff_inverse)
  then have "payload (drop k es) = drop (a' - a) (payload es)" using sp by simp
  also have "\<dots> = slice p a' b" using assms(3,4) by (simp add: drop_slice)
  finally show ?thesis .
qed

lemma insort_last: "\<forall>x\<in>set es. ev_start x < ev_start e \<Longrightarrow> insort_key ev_start e es = es @ [e]"
  by (induction es) (auto simp: not_le)

lemma insort_end:
  assumes "contiguous a b es" and "\<forall>x\<in>set es. ev_data x \<noteq> []" and "ev_start e = b"
  shows "insort_key ev_start e es = es @ [e] \<and> \<not> list_ex (\<lambda>x. ev_start x = b) es"
proof -
  have lt: "ev_start x < b" if "x \<in> set es" for x
    using contiguous_member[OF assms(1) that] assms(2) that by (cases "ev_data x") auto
  then have "insort_key ev_start e es = es @ [e]" using assms(3) by (simp add: insort_last)
  with lt show ?thesis by (auto simp: list_ex_iff)
qed

text \<open>
  An append of the next bytes of the log leaves a window of it, whether it succeeds or not; it
  succeeds unless the database fails, the offset no longer fits a column, or the channel is
  not one of the two.
\<close>

lemma AppendOutput_stored:
  assumes "stored evs i st" and "map_of (st_sessions st) i = Some r" and "start = sn_latest r"
    and "d = slice (payload evs) start (start + length d)" and "start + length d \<le> length (payload evs)"
    and "d \<noteq> []" and "0 < m" and "length (payload evs) < u64_size"
  shows "if \<not> fault \<and> (ch = CHR 0x01 \<or> ch = CHR 0x02) \<and> i63 (start + length d)
     then \<exists>a st'. AppendOutput fault i ch start d m st = (Inr a, st') \<and> stored evs i st' \<and>
            stored_latest i st' = start + length d
     else \<exists>e. AppendOutput fault i ch start d m st = (Inl e, st)"
proof (cases "\<not> fault \<and> (ch = CHR 0x01 \<or> ch = CHR 0x02) \<and> i63 (start + length d)")
  case False
  have "start + length d < u64_size" using assms(5,8) by simp
  then show ?thesis
    using False assms(2,3,6,7) by (auto simp: AppendOutput_def Let_def u64 split: if_splits)
next
  case ok: True
  define en where "en = start + length d"
  define e where "e = \<lparr>ev_channel = ch, ev_start = start, ev_end = en, ev_data = d\<rparr>"
  have c: "contiguous (sn_earliest r) start (output_of i st)" "\<forall>e\<in>set (output_of i st). ev_data e \<noteq> []"
    "payload (output_of i st) = slice (payload evs) (sn_earliest r) start"
    using assms(1-3) by (auto simp: stored_def)
  have fit: "en < u64_size" using assms(5,8) by (simp add: en_def)
  then have u: "u64_add start (length d) = en" by (simp add: u64 en_def)
  have le: "sn_earliest r \<le> start" using c(1) by (auto dest: contiguous_le)
  have ins: "insort_key ev_start e (output_of i st) = output_of i st @ [e]"
    "\<not> list_ex (\<lambda>x. ev_start x = start) (output_of i st)"
    using insort_end[OF c(1,2), of e] by (simp_all add: e_def)
  have c': "contiguous (sn_earliest r) en (output_of i st @ [e])"
    using c(1) by (auto simp: contiguous_append e_def en_def)
  have pay: "payload (output_of i st @ [e]) = slice (payload evs) (sn_earliest r) en"
    using c(3) assms(4) le slice_join[of "sn_earliest r" start en "payload evs"] by (simp add: e_def en_def)
  have us: "u64_sub en (sn_earliest r) = en - sn_earliest r" using fit le by (simp add: u64 en_def)
  obtain k a where k: "trim_loop m (en - sn_earliest r) (sn_earliest r) (output_of i st @ [e]) =
      Some (en - a, a, drop k (output_of i st @ [e]))" "contiguous a en (drop k (output_of i st @ [e]))"
    "sn_earliest r \<le> a" "a \<le> en"
    using trim_loop_spec[OF c' fit, of m] by blast
  define st' where "st' = set_output i (r\<lparr>sn_latest := en, sn_earliest := a\<rparr>) (drop k (output_of i st @ [e])) st"
  have "AppendOutput fault i ch start d m st = (Inr a, st')"
  proof -
    have "i63 en" "start \<le> en" "\<not> (ch \<noteq> CHR 0x01 \<and> ch \<noteq> CHR 0x02)" using ok by (auto simp: en_def)
    then show ?thesis
      unfolding AppendOutput_def Let_def u e_def[symmetric]
      using ok assms(2,6,7) us k(1,4) ins le by (simp add: st'_def assms(3)[symmetric] del: drop_append)
  qed
  moreover have "stored evs i st'"
  proof -
    have "\<forall>x\<in>set (drop k (output_of i st @ [e])). ev_data x \<noteq> []"
      using c(2) assms(6) by (auto simp: e_def dest: in_set_dropD)
    moreover have "payload (drop k (output_of i st @ [e])) = slice (payload evs) a en"
      using window_drop[OF c' k(2) pay k(3)] .
    ultimately show ?thesis using k(2) assms(5) ok by (simp add: stored_def st'_def en_def)
  qed
  moreover have "stored_latest i st' = start + length d" by (simp add: stored_latest_def st'_def en_def)
  ultimately show ?thesis using ok by auto
qed

text \<open>Dropping everything and continuing at a later offset.\<close>

lemma set_output_empty_stored:
  assumes "n \<le> length (payload evs)" and "i63 n"
  shows "stored evs i (set_output i (r\<lparr>sn_earliest := n, sn_latest := n\<rparr>) [] st)"
  using assms by (simp add: stored_def)

lemma AdvanceOutput_stored:
  assumes "stored evs i st" and "n \<le> length (payload evs)"
  shows "stored evs i (snd (AdvanceOutput fault i p n st))"
  using assms by (auto simp: AdvanceOutput_def set_output_empty_stored split: option.split)

lemma AdvanceOutput_ok:
  assumes "map_of (st_sessions st) i = Some r" and "sn_latest r \<le> n" and "i63 n"
  shows "\<exists>st'. AdvanceOutput False i (sn_latest r) n st = (Inr (), st') \<and> stored_latest i st' = n \<and>
     (\<exists>r'. map_of (st_sessions st') i = Some r' \<and> sn_latest r' = n)"
  using assms by (auto simp: AdvanceOutput_def stored_latest_def)

lemma ClearOutput_stored: "stored evs i st \<Longrightarrow> stored evs i (snd (ClearOutput fault i n st))"
  by (auto simp: ClearOutput_def stored_def split: option.split)

lemma TrimOutput_stored:
  assumes "stored evs i st" and "0 < m" and "\<not> fault"
  shows "\<exists>a st' r. TrimOutput fault i m st = (Inr a, st') \<and> stored evs i st' \<and>
     map_of (st_sessions st') i = Some r \<and> sn_earliest r = a \<and> sn_latest r = stored_latest i st \<and>
     sn_latest r - a \<le> m"
proof -
  obtain r where r: "map_of (st_sessions st) i = Some r"
    and c: "contiguous (sn_earliest r) (sn_latest r) (output_of i st)" "\<forall>e\<in>set (output_of i st). ev_data e \<noteq> []"
      "payload (output_of i st) = slice (payload evs) (sn_earliest r) (sn_latest r)"
      "sn_latest r \<le> length (payload evs)" "i63 (sn_latest r)"
    using assms(1) by (auto simp: stored_def)
  note u = i63_u64[OF c(5)]
  obtain k a where k: "trim_loop m (sn_latest r - sn_earliest r) (sn_earliest r) (output_of i st) =
      Some (sn_latest r - a, a, drop k (output_of i st))"
    "contiguous a (sn_latest r) (drop k (output_of i st))" "sn_earliest r \<le> a" "a \<le> sn_latest r"
    "sn_latest r - a \<le> m"
    using trim_loop_spec[OF c(1) u, of m] by auto
  have us: "u64_sub (sn_latest r) (sn_earliest r) = sn_latest r - sn_earliest r"
    using u k(3,4) by (simp add: u64)
  define st' where "st' = set_output i (r\<lparr>sn_earliest := a\<rparr>) (drop k (output_of i st)) st"
  have "TrimOutput fault i m st = (Inr a, st')"
    using r assms(2,3) us k(1,4) by (auto simp: TrimOutput_def Let_def st'_def)
  moreover have "stored evs i st'"
    using window_drop[OF c(1) k(2) c(3) k(3)] k(2) c(2,4,5)
    by (auto simp: stored_def st'_def dest: in_set_dropD)
  ultimately show ?thesis using r k(5) by (auto simp: st'_def stored_latest_def)
qed

text \<open>A replay of everything stored returns the stored rows.\<close>

lemma cut_start: "contiguous a b es \<Longrightarrow> \<forall>e\<in>set es. ev_data e \<noteq> [] \<Longrightarrow> cut a es = es"
proof (induction es arbitrary: a)
  case (Cons e es)
  have c: "contiguous (ev_end e) b es" and s: "ev_start e = a" "a < ev_end e"
    using Cons.prems by auto
  have "cut a es = cut (ev_end e) es" using cut_cursor_before[OF c, of a] s by simp
  also have "\<dots> = es" using Cons.IH[OF c] Cons.prems(2) by simp
  finally show ?case using s Cons.prems(2) by (simp add: trim_def)
qed simp

lemma Store_Replay_all:
  assumes "stored evs i st" and "map_of (st_sessions st) i = Some r"
  shows "Store_Replay False i (sn_earliest r) 0 st = Inr (output_of i st, sn_earliest r, sn_latest r)"
proof -
  let ?es = "output_of i st"
  have c: "contiguous (sn_earliest r) (sn_latest r) ?es" "\<forall>e\<in>set ?es. ev_data e \<noteq> []" "i63 (sn_latest r)"
    using assms by (auto simp: stored_def)
  have le: "sn_earliest r \<le> sn_latest r" using c(1) by (auto dest: contiguous_le)
  have "filter (\<lambda>e. sn_earliest r < ev_end e) ?es = ?es"
  proof (rule filter_True, rule ballI)
    fix x assume x: "x \<in> set ?es"
    then have "0 < length (ev_data x)" using c(2) by simp
    with contiguous_member[OF c(1) x] show "sn_earliest r < ev_end x" by linarith
  qed
  moreover have "fst (replay_loop (sn_earliest r) 0 0 [] (sn_earliest r) ?es) = ?es"
    using replay_loop_spec[OF c(1) i63_u64[OF c(3)] le, of 0 0 "[]" "sn_earliest r"] le cut_start[OF c(1,2)]
    by (auto simp: replay_span_def replays_def Let_def)
  ultimately show ?thesis using assms(2) le by (simp add: Store_Replay_def OutputBounds_def)
qed

end
