(* ===== verification/Persistence.thy ===== *)
theory Persistence
  imports Store
begin

text \<open>
  Output persistence of a session: the flush of \<^verbatim>\<open>Manager.runOutputPersistence\<close>, which copies the
  in-memory history into the store while the session keeps producing output, and the output
  part of \<^verbatim>\<open>Manager.recover\<close>, which rebuilds a history from the store
  (\<^verbatim>\<open>internal/hostruntime/session/manager.go\<close>).
\<close>

section \<open>Flush\<close>

datatype flush_result = Done | Again | StoreFailed store_error | HistoryFailed history_error

text \<open>
  Appending the events of a replay; \<open>fault k\<close> says that the \<open>k\<close>-th call of the store fails in the
  database.
\<close>

fun append_events :: "(nat \<Rightarrow> bool) \<Rightarrow> nat \<Rightarrow> string \<Rightarrow> nat \<Rightarrow> event list \<Rightarrow> store \<Rightarrow> store_error option \<times> store" where
  "append_events fault k i maxR [] st = (None, st)"
| "append_events fault k i maxR (e # es) st =
     (case AppendOutput (fault k) i (ev_channel e) (ev_start e) (ev_data e) maxR st of
        (Inl err, st') \<Rightarrow> (Some err, st')
      | (Inr _, st') \<Rightarrow> append_events fault (Suc k) i maxR es st')"

text \<open>
  One pass of the loop in \<open>flush\<close>: \<open>h1\<close> is the history when its bounds are read and \<open>h2\<close> the
  history, possibly longer by then, when it is replayed.
\<close>

definition flush_pass :: "(nat \<Rightarrow> bool) \<Rightarrow> string \<Rightarrow> nat \<Rightarrow> history \<Rightarrow> history \<Rightarrow> store \<Rightarrow> flush_result \<times> store" where
  "flush_pass fault i historyBytes h1 h2 st =
     (case OutputBounds (fault 0) i st of
        Inl e \<Rightarrow> (StoreFailed e, st)
      | Inr (_, persistedLatest) \<Rightarrow>
          let (earliest, latest, _) = Bounds h1;
              (r, st1) = (if persistedLatest < earliest
                          then AdvanceOutput (fault 1) i persistedLatest earliest st else (Inr (), st));
              persistedLatest = (if persistedLatest < earliest then earliest else persistedLatest)
          in case r of
               Inl e \<Rightarrow> (StoreFailed e, st1)
             | Inr _ \<Rightarrow>
                 if latest \<le> persistedLatest then (Done, st1)
                 else (case ReplayOwned persistedLatest historyBytes h2 of
                     Inl (GapError _ _ _) \<Rightarrow> (Again, st1)
                   | Inl e \<Rightarrow> (HistoryFailed e, st1)
                   | Inr rp \<Rightarrow>
                       (case append_events fault 2 i historyBytes (rp_events rp) st1 of
                          (Some e, st2) \<Rightarrow> (StoreFailed e, st2)
                        | (None, st2) \<Rightarrow> (if latest \<le> rp_to rp then Done else Again, st2))))"

text \<open>\<^verbatim>\<open>Manager.Clear\<close> on a found session with a store: the store first, then the history.\<close>

definition Manager_Clear :: "bool \<Rightarrow> string \<Rightarrow> history \<Rightarrow> store \<Rightarrow> (store_error + nat) \<times> history \<times> store" where
  "Manager_Clear fault i h st =
     (let (_, latest, _) = Bounds h
      in case ClearOutput fault i latest st of
           (Inl e, st') \<Rightarrow> (Inl e, h, st')
         | (Inr _, st') \<Rightarrow> (let (n, h') = Clear h in (Inr n, h', st')))"

section \<open>Recovery\<close>

definition recover_output :: "string \<Rightarrow> nat \<Rightarrow> store \<Rightarrow> (history option) \<times> store" where
  "recover_output i historyBytes st =
     (case TrimOutput False i historyBytes st of
        (Inl _, st1) \<Rightarrow> (None, st1)
      | (Inr from_sequence, st1) \<Rightarrow>
          (case Store_Replay False i from_sequence 0 st1 of
             Inl _ \<Rightarrow> (None, st1)
           | Inr (es, earliest, latest) \<Rightarrow>
               (case Restore historyBytes earliest latest es of
                  Inl _ \<Rightarrow> (None, st1)
                | Inr h \<Rightarrow> (Some h, st1))))"

section \<open>A session with its store\<close>

text \<open>
  Output, clears and flush passes in any order; \<open>PFlush fault outs\<close> is a pass during which the
  output \<open>outs\<close> arrives, after the bounds are read and before the replay. The first component
  is the log of all output.
\<close>

datatype persist_op = POut byte bytes | PClear bool | PFlush "nat \<Rightarrow> bool" "(byte \<times> bytes) list"

type_synonym persist_state = "event list \<times> history \<times> store"

definition outputs :: "(byte \<times> bytes) list \<Rightarrow> event list \<times> history \<Rightarrow> event list \<times> history" where
  "outputs outs = fold (\<lambda>(ch, d). hist_exec (OpAppend ch d)) outs"

fun persist_exec :: "string \<Rightarrow> nat \<Rightarrow> persist_op \<Rightarrow> persist_state \<Rightarrow> persist_state" where
  "persist_exec i m (POut ch d) (evs, h, st) =
     (let (evs', h') = outputs [(ch, d)] (evs, h) in (evs', h', st))"
| "persist_exec i m (PClear fault) (evs, h, st) =
     (let (_, h', st') = Manager_Clear fault i h st in (evs, h', st'))"
| "persist_exec i m (PFlush fault outs) (evs, h, st) =
     (let (evs', h') = outputs outs (evs, h)
      in (evs', h', snd (flush_pass fault i m h h' st)))"

fun persist_inv :: "string \<Rightarrow> nat \<Rightarrow> persist_state \<Rightarrow> bool" where
  "persist_inv i m (evs, h, st) \<longleftrightarrow> history_of evs h \<and> h_max h = m \<and> stored evs i st"

section \<open>Lemmas\<close>

text \<open>What is still to be appended: the log from the stored end up to \<open>b\<close>.\<close>

definition to_append :: "event list \<Rightarrow> nat \<Rightarrow> nat \<Rightarrow> event list \<Rightarrow> bool" where
  "to_append evs a b es \<longleftrightarrow>
     contiguous a b es \<and> payload es = slice (payload evs) a b \<and> b \<le> length (payload evs) \<and>
     (\<forall>e\<in>set es. ev_data e \<noteq> [])"

definition channels_ok :: "event list \<Rightarrow> bool" where
  "channels_ok es \<longleftrightarrow> (\<forall>e\<in>set es. ev_channel e = CHR 0x01 \<or> ev_channel e = CHR 0x02)"

definition no_fault :: "(nat \<Rightarrow> bool) \<Rightarrow> bool" where
  "no_fault fault \<longleftrightarrow> (\<forall>n. \<not> fault n)"

lemma to_append_Cons:
  assumes "to_append evs a b (e # es)"
  shows "ev_start e = a" and "ev_end e = a + length (ev_data e)" and "ev_end e \<le> b" and "ev_data e \<noteq> []"
    and "ev_data e = slice (payload evs) a (ev_end e)" and "to_append evs (ev_end e) b es"
proof -
  have c: "contiguous (a + length (ev_data e)) b es" and s: "ev_start e = a" "ev_end e = a + length (ev_data e)"
    and p: "ev_data e @ payload es = slice (payload evs) a b" and b: "b \<le> length (payload evs)"
    and ne: "ev_data e \<noteq> []" "\<forall>x\<in>set es. ev_data x \<noteq> []"
    using assms by (auto simp: to_append_def)
  have le: "a + length (ev_data e) \<le> b" using c by (auto dest: contiguous_le)
  have "slice (payload evs) a (a + length (ev_data e)) @ slice (payload evs) (a + length (ev_data e)) b = ev_data e @ payload es"
    unfolding p by (rule slice_join) (use le in auto)
  moreover have "length (slice (payload evs) a (a + length (ev_data e))) = length (ev_data e)" using le b by simp
  ultimately have d: "ev_data e = slice (payload evs) a (a + length (ev_data e))"
    "payload es = slice (payload evs) (a + length (ev_data e)) b"
    by (metis append_eq_append_conv)+
  show "ev_start e = a" "ev_end e = a + length (ev_data e)" "ev_end e \<le> b" "ev_data e \<noteq> []"
    using s le ne by simp_all
  show "ev_data e = slice (payload evs) a (ev_end e)" using d(1) s(2) by simp
  show "to_append evs (ev_end e) b es" using c d(2) b ne s(2) by (simp add: to_append_def)
qed

lemma append_event_step:
  assumes "stored evs i st" and "to_append evs (stored_latest i st) b (e # es)" and "0 < m"
    and "length (payload evs) < u64_size"
  shows "if \<not> fault \<and> channels_ok [e] \<and> i63 (ev_end e)
     then \<exists>x st'. AppendOutput fault i (ev_channel e) (ev_start e) (ev_data e) m st = (Inr x, st') \<and>
            stored evs i st' \<and> stored_latest i st' = ev_end e
     else \<exists>err. AppendOutput fault i (ev_channel e) (ev_start e) (ev_data e) m st = (Inl err, st)"
proof -
  note t = to_append_Cons[OF assms(2)]
  obtain r where r: "map_of (st_sessions st) i = Some r" using assms(1) by (auto simp: stored_def)
  then have sl: "stored_latest i st = sn_latest r" by (simp add: stored_latest_def)
  have "b \<le> length (payload evs)" using assms(2) by (simp add: to_append_def)
  then have le: "ev_end e \<le> length (payload evs)" using t(3) by simp
  have en: "ev_end e = ev_start e + length (ev_data e)" using t(1,2) by simp
  have "ev_start e = sn_latest r" using t(1) sl by simp
  moreover have "ev_data e = slice (payload evs) (ev_start e) (ev_start e + length (ev_data e))"
    using t(5) unfolding t(1)[symmetric] en .
  moreover have "ev_start e + length (ev_data e) \<le> length (payload evs)" using le en by simp
  ultimately show ?thesis
    using AppendOutput_stored[OF assms(1) r _ _ _ t(4) assms(3,4), of "ev_start e" fault "ev_channel e"]
    unfolding channels_ok_def en by simp
qed

text \<open>Appending contiguous pieces of the log, whichever call fails.\<close>

lemma append_events_stored:
  assumes "stored evs i st" and "to_append evs (stored_latest i st) b es" and "0 < m"
    and "length (payload evs) < u64_size"
  shows "stored evs i (snd (append_events fault k i m es st)) \<and>
     (no_fault fault \<and> channels_ok es \<and> i63 b \<longrightarrow>
        fst (append_events fault k i m es st) = None \<and> stored_latest i (snd (append_events fault k i m es st)) = b)"
  using assms(1,2)
proof (induction es arbitrary: k st)
  case Nil
  then show ?case by (simp add: to_append_def)
next
  case (Cons e es)
  note t = to_append_Cons[OF Cons.prems(2)]
  note step = append_event_step[OF Cons.prems assms(3,4), of "fault k"]
  show ?case
  proof (cases "\<not> fault k \<and> channels_ok [e] \<and> i63 (ev_end e)")
    case True
    then obtain x st' where st': "AppendOutput (fault k) i (ev_channel e) (ev_start e) (ev_data e) m st = (Inr x, st')"
      "stored evs i st'" "stored_latest i st' = ev_end e"
      using step by auto
    have "to_append evs (stored_latest i st') b es" using t(6) st'(3) by simp
    from Cons.IH[OF st'(2) this, of "Suc k"] st'(1) show ?thesis by (simp add: channels_ok_def)
  next
    case False
    then obtain err where "AppendOutput (fault k) i (ev_channel e) (ev_start e) (ev_data e) m st = (Inl err, st)"
      using step by auto
    moreover have "\<not> (no_fault fault \<and> channels_ok (e # es) \<and> i63 b)"
      using False t(3) by (auto simp: i63_def channels_ok_def no_fault_def)
    ultimately show ?thesis using Cons.prems(1) by auto
  qed
qed

text \<open>A replay is what is to be appended from its cursor on.\<close>

lemma replay_to_append:
  assumes "history_of evs h" and "m < u64_size" and "ReplayOwned fr m h = Inr rp"
  shows "to_append evs fr (rp_to rp) (rp_events rp)" and "rp_to rp = fr + replay_span m m (h_latest h - fr)"
    and "set (map ev_channel (rp_events rp)) \<subseteq> ev_channel ` set evs"
proof -
  have b: "h_earliest h \<le> fr" "fr \<le> h_latest h" using assms(3) by (auto simp: ReplayOwned_def split: if_splits)
  obtain ps where ps: "rp_to rp = fr + replay_span m m (h_latest h - fr)" "rp_events rp = ps"
    "contiguous fr (rp_to rp) ps" "payload ps = slice (payload evs) fr (rp_to rp)"
    using ReplayOwned_exact[OF assms(1) b assms(2)] assms(3) by auto
  have "rp_to rp \<le> length (payload evs)"
    using ps(1) b history_of_latest[OF assms(1)] by (auto simp: replay_span_def)
  with ps ReplayOwned_pieces[OF assms(1,2,3)] show "to_append evs fr (rp_to rp) (rp_events rp)"
    by (simp add: to_append_def)
  show "rp_to rp = fr + replay_span m m (h_latest h - fr)" by (rule ps(1))
  show "set (map ev_channel (rp_events rp)) \<subseteq> ev_channel ` set evs"
    using ReplayOwned_pieces[OF assms(1,2,3)] by auto
qed

text \<open>The stored window before the replay: brought up to the start of the history if it had fallen behind.\<close>

definition advanced :: "bool \<Rightarrow> string \<Rightarrow> history \<Rightarrow> session_row \<Rightarrow> store \<Rightarrow> (store_error + unit) \<times> store" where
  "advanced fault i h r st =
     (if sn_latest r < h_earliest h then AdvanceOutput fault i (sn_latest r) (h_earliest h) st else (Inr (), st))"

lemma advanced_stored:
  assumes "history_of evs h" and "stored evs i st" and "map_of (st_sessions st) i = Some r"
  shows "stored evs i (snd (advanced fault i h r st))"
    and "fst (advanced fault i h r st) = Inr () \<Longrightarrow>
      stored_latest i (snd (advanced fault i h r st)) = max (sn_latest r) (h_earliest h)"
    and "\<not> fault \<Longrightarrow> i63 (h_latest h) \<Longrightarrow> fst (advanced fault i h r st) = Inr ()"
proof -
  have "h_earliest h \<le> h_latest h"
    using assms(1) by (auto simp: history_of_def history_wf_def history_open_def dest: contiguous_le)
  then have le: "h_earliest h \<le> length (payload evs)" "i63 (h_latest h) \<Longrightarrow> i63 (h_earliest h)"
    using history_of_latest[OF assms(1)] by (simp_all add: i63_def)
  show "stored evs i (snd (advanced fault i h r st))"
    using AdvanceOutput_stored[OF assms(2) le(1)] assms(2) by (simp add: advanced_def)
  show "fst (advanced fault i h r st) = Inr () \<Longrightarrow>
      stored_latest i (snd (advanced fault i h r st)) = max (sn_latest r) (h_earliest h)"
    using assms(3) by (auto simp: advanced_def AdvanceOutput_def stored_latest_def max_def split: if_splits)
  show "\<not> fault \<Longrightarrow> i63 (h_latest h) \<Longrightarrow> fst (advanced fault i h r st) = Inr ()"
    using assms(3) le(2) by (auto simp: advanced_def AdvanceOutput_def)
qed

lemma flush_pass_unfold:
  assumes "map_of (st_sessions st) i = Some r" and "\<not> fault 0"
  shows "flush_pass fault i m h1 h2 st =
     (case advanced (fault 1) i h1 r st of
        (Inl e, st1) \<Rightarrow> (StoreFailed e, st1)
      | (Inr _, st1) \<Rightarrow>
          if h_latest h1 \<le> max (sn_latest r) (h_earliest h1) then (Done, st1)
          else (case ReplayOwned (max (sn_latest r) (h_earliest h1)) m h2 of
              Inl (GapError _ _ _) \<Rightarrow> (Again, st1)
            | Inl e \<Rightarrow> (HistoryFailed e, st1)
            | Inr rp \<Rightarrow>
                (case append_events fault 2 i m (rp_events rp) st1 of
                   (Some e, st2) \<Rightarrow> (StoreFailed e, st2)
                 | (None, st2) \<Rightarrow> (if h_latest h1 \<le> rp_to rp then Done else Again, st2))))"
proof (cases "sn_latest r < h_earliest h1")
  case True
  then have mx: "max (sn_latest r) (h_earliest h1) = h_earliest h1" by simp
  show ?thesis unfolding mx using True assms by (simp add: flush_pass_def OutputBounds_def Bounds_def advanced_def Let_def)
next
  case False
  then have mx: "max (sn_latest r) (h_earliest h1) = sn_latest r" by simp
  show ?thesis unfolding mx using False assms by (simp add: flush_pass_def OutputBounds_def Bounds_def advanced_def Let_def)
qed

lemma flush_pass_stored:
  assumes "history_of evs h1" and "history_of (evs @ es) h2" and "stored evs i st" and "0 < m" and "m < u64_size"
  shows "stored (evs @ es) i (snd (flush_pass fault i m h1 h2 st))"
proof -
  obtain r where r: "map_of (st_sessions st) i = Some r" using assms(3) by (auto simp: stored_def)
  have len: "length (payload (evs @ es)) < u64_size"
    using assms(2) history_of_latest[OF assms(2)] by (simp add: history_of_def history_wf_def history_open_def)
  obtain x st1 where a: "advanced (fault 1) i h1 r st = (x, st1)" by fastforce
  note adv = advanced_stored[OF assms(1,3) r, of "fault 1", unfolded a fst_conv snd_conv]
  have st1: "stored (evs @ es) i st1" using adv(1) by (rule stored_mono)
  have app: "stored (evs @ es) i (snd (append_events fault 2 i m (rp_events rp) st1))"
    if "x = Inr ()" and rp: "ReplayOwned (max (sn_latest r) (h_earliest h1)) m h2 = Inr rp" for rp
  proof -
    have "to_append (evs @ es) (stored_latest i st1) (rp_to rp) (rp_events rp)"
      using replay_to_append(1)[OF assms(2,5) rp] adv(2) that(1) by simp
    from append_events_stored[OF st1 this assms(4) len] show ?thesis by blast
  qed
  show ?thesis
  proof (cases "fault 0")
    case True
    then show ?thesis using stored_mono[OF assms(3)] by (simp add: flush_pass_def OutputBounds_def)
  next
    case False
    note unf = flush_pass_unfold[of st i r fault m h1 h2, OF r False, unfolded a]
    show ?thesis
    proof (cases x)
      case (Inl e)
      with st1 unf show ?thesis by simp
    next
      case (Inr u)
      then have x: "x = Inr ()" by simp
      show ?thesis
      proof (cases "ReplayOwned (max (sn_latest r) (h_earliest h1)) m h2")
        case (Inl e)
        with st1 unf x show ?thesis by (cases e) simp_all
      next
        case (Inr rp)
        obtain o' st2 where ap: "append_events fault 2 i m (rp_events rp) st1 = (o', st2)" by fastforce
        have "stored (evs @ es) i st2" using app[OF x Inr] ap by simp
        with st1 unf x Inr ap show ?thesis by (cases o') simp_all
      qed
    qed
  qed
qed

text \<open>
  With no failures and no output arriving in between, one pass brings the store up to date.
\<close>

lemma flush_pass_complete:
  assumes "history_of evs h" and "stored evs i st" and "no_fault fault" and "h_max h = m" and "m < u64_size"
    and "ev_channel ` set evs \<subseteq> {CHR 0x01, CHR 0x02}" and "i63 (h_latest h)"
  shows "fst (flush_pass fault i m h h st) = Done \<and>
     stored_latest i (snd (flush_pass fault i m h h st)) = h_latest h"
proof -
  obtain r where r: "map_of (st_sessions st) i = Some r" "sn_latest r \<le> length (payload evs)"
    using assms(2) by (auto simp: stored_def)
  have f: "\<not> fault 0" "\<not> fault 1" using assms(3) by (auto simp: no_fault_def)
  have wf: "0 < m" "h_latest h - h_earliest h \<le> m" "h_latest h < u64_size" "h_earliest h \<le> h_latest h"
    using assms(1,4) by (auto simp: history_of_def history_wf_def history_open_def dest: contiguous_le)
  note lat = history_of_latest[OF assms(1)]
  define fr where "fr = max (sn_latest r) (h_earliest h)"
  have fr: "h_earliest h \<le> fr" "fr \<le> h_latest h" using r(2) lat wf(4) by (simp_all add: fr_def)
  obtain st1 where a: "advanced (fault 1) i h r st = (Inr (), st1)"
    using advanced_stored(3)[OF assms(1,2) r(1) f(2) assms(7)] by (metis old.unit.exhaust prod.collapse)
  have st1: "stored evs i st1" "stored_latest i st1 = fr"
    using advanced_stored(1,2)[OF assms(1,2) r(1), of "fault 1"] a by (simp_all add: fr_def)
  note unf = flush_pass_unfold[of st i r fault m h h, OF r(1) f(1), unfolded a fr_def[symmetric]]
  show ?thesis
  proof (cases "h_latest h \<le> fr")
    case True
    with fr st1 unf show ?thesis by simp
  next
    case False
    obtain rp where rp: "ReplayOwned fr m h = Inr rp"
      using ReplayOwned_exact[OF assms(1) fr assms(5)] by blast
    note ta = replay_to_append[OF assms(1,5) rp]
    have to: "rp_to rp = h_latest h" using ta(2) fr wf by (simp add: replay_span_def)
    have "channels_ok (rp_events rp)" using ta(3) assms(6) by (fastforce simp: channels_ok_def)
    moreover have "to_append evs (stored_latest i st1) (h_latest h) (rp_events rp)" using ta(1) to st1(2) by simp
    ultimately have "fst (append_events fault 2 i m (rp_events rp) st1) = None \<and>
        stored_latest i (snd (append_events fault 2 i m (rp_events rp) st1)) = h_latest h"
      using append_events_stored[OF st1(1) _ wf(1)] assms(3,7) lat wf(3) by simp
    with False unf rp to show ?thesis by (cases "append_events fault 2 i m (rp_events rp) st1") simp
  qed
qed

text \<open>Recovery of a stored window always succeeds and gives the window back.\<close>

lemma recover_output_window:
  assumes "stored evs i st" and "0 < m" and "length (payload evs) < u64_size"
  shows "\<exists>h st'. recover_output i m st = (Some h, st') \<and> history_wf h \<and> h_max h = m \<and>
     h_latest h = stored_latest i st \<and> payload (retained h) = slice (payload evs) (h_earliest h) (h_latest h) \<and>
     stored evs i st'"
proof -
  obtain a st1 r where t: "TrimOutput False i m st = (Inr a, st1)" "stored evs i st1"
    "map_of (st_sessions st1) i = Some r" "sn_earliest r = a" "sn_latest r = stored_latest i st"
    "sn_latest r - a \<le> m"
    using TrimOutput_stored[OF assms(1,2), of False] by auto
  have rp: "Store_Replay False i a 0 st1 = Inr (output_of i st1, sn_earliest r, sn_latest r)"
    using Store_Replay_all[OF t(2,3)] t(4) by simp
  have w: "contiguous a (sn_latest r) (output_of i st1)" "payload (output_of i st1) = slice (payload evs) a (sn_latest r)"
    "sn_latest r \<le> length (payload evs)"
    using t(2,3,4) by (auto simp: stored_def)
  define g where "g = \<lparr>h_max = m, h_bytes = sn_latest r - a, h_earliest = a, h_latest = sn_latest r,
    h_events = output_of i st1, h_head = 0, h_acks = []\<rparr>"
  have "length (payload (output_of i st1)) = sn_latest r - a" using contiguous_le[OF w(1)] by simp
  then have wf: "history_wf g"
    using w(1,3) t(6) assms(2,3) by (simp add: g_def history_wf_def history_open_def retained_def)
  then obtain h where h: "Restore m a (sn_latest r) (output_of i st1) = Inr h" "retained h = output_of i st1"
    using Restore_retained[of g] by (auto simp: g_def retained_def)
  have b: "\<forall>e\<in>set (output_of i st1). ev_end e < u64_size"
    using contiguous_member[OF w(1)] w(3) assms(3) by fastforce
  have ale: "a \<le> sn_latest r" using contiguous_le[OF w(1)] by simp
  have "length (payload (output_of i st1)) < u64_size" using w(2,3) assms(3) by simp
  from Restore_wf[OF h(1) _ _ b this] have "history_wf h \<and> h_earliest h = a \<and> h_latest h = sn_latest r \<and> h_max h = m"
    using ale w(3) assms(3) by simp
  with t rp h w(2) show ?thesis by (auto simp: recover_output_def)
qed

section \<open>Runs\<close>

lemma append_extends:
  assumes "history_of evs h"
  shows "\<exists>es. fst (hist_exec (OpAppend ch d) (evs, h)) = evs @ es \<and>
     history_of (evs @ es) (snd (hist_exec (OpAppend ch d) (evs, h))) \<and>
     h_max (snd (hist_exec (OpAppend ch d) (evs, h))) = h_max h"
proof -
  have wf: "history_wf h" using assms by (simp add: history_of_def)
  consider "d = []" | "d \<noteq> []" "length d \<le> u64_max - h_latest h"
    | "d \<noteq> []" "u64_max - h_latest h < length d" by linarith
  then show ?thesis
  proof cases
    case 1
    with assms show ?thesis by (simp add: appendOwned_def)
  next
    case 2
    with appendOwned_log[OF assms, of d ch] show ?thesis by auto
  next
    case 3
    with appendOwned_full[OF wf, of d ch] assms show ?thesis by simp
  qed
qed

lemma outputs_extend:
  assumes "history_of evs h"
  shows "\<exists>es h'. outputs outs (evs, h) = (evs @ es, h') \<and> history_of (evs @ es) h' \<and> h_max h' = h_max h"
  using assms
proof (induction outs arbitrary: evs h)
  case Nil
  then show ?case by (simp add: outputs_def)
next
  case (Cons o' outs)
  obtain ch d where o': "o' = (ch, d)" by fastforce
  obtain es h1 where s: "hist_exec (OpAppend ch d) (evs, h) = (evs @ es, h1)" "history_of (evs @ es) h1" "h_max h1 = h_max h"
    using append_extends[OF Cons.prems, of ch d] by (metis prod.collapse)
  from Cons.IH[OF s(2)] obtain es' h2 where
    "outputs outs (evs @ es, h1) = ((evs @ es) @ es', h2)" "history_of ((evs @ es) @ es') h2" "h_max h2 = h_max h1"
    by blast
  with o' s show ?case
    by (intro exI[of _ "es @ es'"] exI[of _ h2]) (simp add: outputs_def)
qed

lemma Manager_Clear_inv:
  assumes "persist_inv i m (evs, h, st)"
  shows "persist_inv i m (persist_exec i m (PClear fault) (evs, h, st))"
proof -
  obtain x st' where c: "ClearOutput fault i (h_latest h) st = (x, st')" by fastforce
  have "stored evs i st'" using ClearOutput_stored[of evs i st fault "h_latest h"] assms c by simp
  then show ?thesis
    using assms Clear_log(1)[of evs h] c
    by (cases x) (simp_all add: Manager_Clear_def Bounds_def Clear_def)
qed

lemma persist_step:
  assumes "0 < m" and "m < u64_size" and "persist_inv i m s"
  shows "persist_inv i m (persist_exec i m op s)"
proof -
  obtain evs h st where s: "s = (evs, h, st)" by (metis prod.exhaust)
  have h: "history_of evs h" "h_max h = m" "stored evs i st" using assms(3) s by simp_all
  show ?thesis
  proof (cases op)
    case (POut ch d)
    obtain es h' where "outputs [(ch, d)] (evs, h) = (evs @ es, h')" "history_of (evs @ es) h'" "h_max h' = h_max h"
      using outputs_extend[OF h(1)] by blast
    with POut s h stored_mono[OF h(3)] show ?thesis by simp
  next
    case (PClear fault)
    with Manager_Clear_inv[of i m evs h st fault] assms(3) s show ?thesis by simp
  next
    case (PFlush fault outs)
    obtain es h' where o': "outputs outs (evs, h) = (evs @ es, h')" "history_of (evs @ es) h'" "h_max h' = h_max h"
      using outputs_extend[OF h(1)] by blast
    have "stored (evs @ es) i (snd (flush_pass fault i m h h' st))"
      using flush_pass_stored[OF h(1) o'(2) h(3) assms(1,2)] .
    with PFlush s o' h(2) show ?thesis by simp
  qed
qed

text \<open>A limit as the manager's configuration has it.\<close>

definition limit_ok :: "nat \<Rightarrow> bool" where
  "limit_ok m \<longleftrightarrow> 0 < m \<and> m < u64_size"

interpretation persist_run: machine "persist_exec i m" "\<lambda>s. limit_ok m \<and> persist_inv i m s" "\<lambda>_. True" for i m
  by unfold_locales (auto simp: limit_ok_def intro: persist_step)

text \<open>A session as \<^verbatim>\<open>Create\<close> leaves it in the store: a row with empty output.\<close>

definition created :: "string \<Rightarrow> store \<Rightarrow> bool" where
  "created i st \<longleftrightarrow>
     (case map_of (st_sessions st) i of
        None \<Rightarrow> False | Some r \<Rightarrow> sn_earliest r = 0 \<and> sn_latest r = 0 \<and> output_of i st = [])"

lemma created_inv:
  assumes "New m = Inr h0" and "created i st"
  shows "persist_inv i m ([], h0, st)"
proof -
  have "h_max h0 = m" "history_of [] h0"
    using assms(1) New_log[OF assms(1)] by (auto simp: New_def log_inv_def split: if_splits)
  moreover have "stored [] i st"
    using assms(2) by (auto simp: created_def stored_def i63_def split: option.splits)
  ultimately show ?thesis by simp
qed

lemma persist_reachable:
  assumes "New m = Inr h0" and "created i st0" and "m < u64_size"
    and "fold (persist_exec i m) ops ([], h0, st0) = (evs, h, st)"
  shows "history_of evs h \<and> h_max h = m \<and> stored evs i st" and "0 < m"
proof -
  show m: "0 < m" using assms(1) by (auto simp: New_def split: if_splits)
  show "history_of evs h \<and> h_max h = m \<and> stored evs i st"
    using persist_run.run[of m i "([], h0, st0)" ops] created_inv[OF assms(1,2)] assms(3,4) m
    by (simp add: limit_ok_def list_all_iff)
qed

lemma log_size: "history_of evs h \<Longrightarrow> length (payload evs) < u64_size"
proof -
  assume h: "history_of evs h"
  then have "h_latest h < u64_size" by (simp add: history_of_def history_wf_def history_open_def)
  then show ?thesis using history_of_latest[OF h] by simp
qed

text \<open>A session whose output is flushed once and then continues, for the examples.\<close>

definition ex_row :: session_row where
  "ex_row = \<lparr>sn_id = ''s'', sn_name = ''n'', sn_cwd = ''/'', sn_path = ''sh'', sn_args = [], sn_env = [],
     sn_columns = 80, sn_rows = 24, sn_state = ''running'', sn_generation = 1, sn_exit_code = None,
     sn_exit_signal = [], sn_exited_at = None, sn_earliest = 0, sn_latest = 0\<rparr>"

definition ex_store :: store where
  "ex_store = \<lparr>st_sessions = [(''s'', ex_row)], st_output = [], st_inputs = []\<rparr>"

definition ex_persist :: "persist_op list" where
  "ex_persist = [POut CHR 0x01 ''abc'', PFlush (\<lambda>_. False) [], POut CHR 0x01 ''d'']"

definition ex_state :: persist_state where
  "ex_state = fold (persist_exec ''s'' 4) ex_persist ([], ex_new, ex_store)"

lemma ex_created: "created ''s'' ex_store"
  by (simp add: created_def ex_store_def ex_row_def output_of_def)

definition ex_abc :: event where
  "ex_abc = \<lparr>ev_channel = CHR 0x01, ev_start = 0, ev_end = 3, ev_data = ''abc''\<rparr>"

definition ex_d :: event where
  "ex_d = \<lparr>ev_channel = CHR 0x01, ev_start = 3, ev_end = 4, ev_data = ''d''\<rparr>"

definition ex_history1 :: history where
  "ex_history1 = \<lparr>h_max = 4, h_bytes = 3, h_earliest = 0, h_latest = 3, h_events = [ex_abc], h_head = 0, h_acks = []\<rparr>"

definition ex_history2 :: history where
  "ex_history2 = \<lparr>h_max = 4, h_bytes = 4, h_earliest = 0, h_latest = 4, h_events = [ex_abc, ex_d], h_head = 0, h_acks = []\<rparr>"

definition ex_store1 :: store where
  "ex_store1 = \<lparr>st_sessions = [(''s'', ex_row\<lparr>sn_latest := 3, sn_earliest := 0\<rparr>)],
                st_output = [(''s'', [ex_abc])], st_inputs = []\<rparr>"

lemma ex_step1: "persist_exec ''s'' 4 (POut CHR 0x01 ''abc'') ([], ex_new, ex_store) = ([ex_abc], ex_history1, ex_store)"
  by (simp add: ex_new_def outputs_def appendOwned_def compactLocked_def compact_loop.simps ex_abc_def
      ex_history1_def u64_sub_def u64_add_def u64_max_def u64_size_def Let_def)

lemma ex_replay: "ReplayOwned 0 4 ex_history1 =
    Inr \<lparr>rp_from = 0, rp_to = 3, rp_earliest = 0, rp_latest = 3, rp_events = [ex_abc]\<rparr>"
  by (simp add: ReplayOwned_def ex_history1_def ex_abc_def replay_loop.simps slice_def
      u64_sub_def u64_add_def u64_size_def Let_def)

lemma ex_append: "AppendOutput False ''s'' CHR 0x01 0 ''abc'' 4 ex_store = (Inr 0, ex_store1)"
  by (simp add: AppendOutput_def ex_store_def ex_store1_def ex_row_def output_of_def set_output_def i63_def
      ex_abc_def u64_sub_def u64_add_def u64_size_def Let_def)

lemma ex_step2: "persist_exec ''s'' 4 (PFlush (\<lambda>_. False) []) ([ex_abc], ex_history1, ex_store) = ([ex_abc], ex_history1, ex_store1)"
proof -
  have b: "OutputBounds False ''s'' ex_store = Inr (0, 0)" "Bounds ex_history1 = (0, 3, 3)"
    by (simp_all add: OutputBounds_def ex_store_def ex_row_def Bounds_def ex_history1_def)
  have "append_events (\<lambda>_. False) 2 ''s'' 4 [ex_abc] ex_store = (None, ex_store1)"
    using ex_append by (simp add: ex_abc_def)
  then show ?thesis by (simp add: outputs_def flush_pass_def b ex_replay)
qed

lemma ex_step3: "persist_exec ''s'' 4 (POut CHR 0x01 ''d'') ([ex_abc], ex_history1, ex_store1) = ([ex_abc, ex_d], ex_history2, ex_store1)"
  by (simp add: ex_history1_def ex_history2_def outputs_def appendOwned_def compactLocked_def compact_loop.simps
      ex_d_def u64_sub_def u64_add_def u64_max_def u64_size_def Let_def)

lemma ex_state_eval: "ex_state = ([ex_abc, ex_d], ex_history2, ex_store1)"
  by (simp add: ex_state_def ex_persist_def ex_step1 ex_step2 ex_step3 del: persist_exec.simps)

lemma ex_state_run: "fold (persist_exec ''s'' 4) ex_persist ([], ex_new, ex_store) = ([ex_abc, ex_d], ex_history2, ex_store1)"
  using ex_state_eval by (simp add: ex_state_def)

section \<open>Properties\<close>





end
