(* ===== verification/Session.thy ===== *)
theory Session
  imports Fanout Input_Journal Terminal_Modes Persistence
begin

text \<open>
  A managed terminal session, \<^verbatim>\<open>internal/hostruntime/session/manager.go\<close>: the record that ties a
  process to its life cycle, output history, fan-out and input journal, and the operations
  that read and distribute its output. A process is known by a number.
\<close>

section \<open>Data\<close>

record command =
  cm_path :: string
  cm_args :: "string list"
  cm_env :: "string list"
  cm_cwd :: string
  cm_columns :: nat
  cm_rows :: nat

record exit_result =
  xr_code :: int
  xr_signal :: string
  xr_at :: int

text \<open>The output persistence worker of a session: none, running, or stopped by an error it reports.\<close>

datatype worker = NoWorker | Working | Failed flush_result

record managedSession =
  ms_id :: string
  ms_name :: string
  ms_command :: command
  ms_lifecycle :: lifecycle
  ms_history :: history
  ms_fanout :: fanout
  ms_inputs :: inputJournal
  ms_process :: "nat option"
  ms_exit :: "exit_result option"
  ms_resizeID :: string
  ms_resizeTime :: int
  ms_live :: "(nat \<times> nat) option"
  ms_modes :: terminalModeTracker
  ms_worker :: worker
  ms_persistErr :: "flush_result option"

record snapshot =
  sp_id :: string
  sp_name :: string
  sp_cwd :: string
  sp_columns :: nat
  sp_rows :: nat
  sp_state :: state
  sp_generation :: nat
  sp_earliest :: nat
  sp_latest :: nat
  sp_exit :: "exit_result option"
  sp_modes :: terminalModes

datatype manager_error =
    ErrSessionExists
  | ErrSessionUnknown
  | ErrSessionRunning
  | ErrInvalidManagedSession
  | ErrManagerStopped
  | ErrResourceLimit
  | HistoryError history_error
  | FanoutError fanout_error
  | InputError input_error
  | LifecycleError state_error
  | StoreError store_error
  | ErrStaleGeneration
  | ErrShortWrite
  | ProcessError
  | PersistError flush_result
  | ErrContext
  | ErrRandom

definition snapshotLocked :: "managedSession \<Rightarrow> snapshot" where
  "snapshotLocked s =
     (let (st, g) = Snapshot (ms_lifecycle s); (earliest, latest, _) = Bounds (ms_history s)
      in \<lparr>sp_id = ms_id s, sp_name = ms_name s, sp_cwd = cm_cwd (ms_command s),
          sp_columns = cm_columns (ms_command s), sp_rows = cm_rows (ms_command s),
          sp_state = st, sp_generation = g, sp_earliest = earliest, sp_latest = latest,
          sp_exit = ms_exit s, sp_modes = Modes (ms_modes s)\<rparr>)"

section \<open>Output\<close>

definition initialReplayBytes :: nat where
  "initialReplayBytes = 64 * 1024"

definition attachmentReplayLimit :: "nat \<Rightarrow> nat" where
  "attachmentReplayLimit attachmentBytes =
     (let limit = attachmentBytes div 2; limit = (if limit = 0 then 1 else limit)
      in if initialReplayBytes < limit then initialReplayBytes else limit)"

text \<open>
  The body of the read loop of \<^verbatim>\<open>capture\<close> for a read that returned data, which it runs under the
  session lock. The notification of the persistence worker carries no data.
\<close>

definition capture_output :: "bytes \<Rightarrow> managedSession \<Rightarrow> managedSession" where
  "capture_output d s =
     (if d = [] then s
      else
        let s = s\<lparr>ms_modes := Consume d (ms_modes s)\<rparr>
        in case appendOwned CHR 0x01 d (ms_history s) of
             (Inl _, h) \<Rightarrow> s\<lparr>ms_history := h\<rparr>
           | (Inr e, h) \<Rightarrow>
               s\<lparr>ms_history := h, ms_fanout := snd (PublishOwned e (ms_fanout s))\<rparr>)"

text \<open>The loop of \<^verbatim>\<open>attachLocked\<close> over the replayed events, with its clean-up on failure.\<close>

fun enqueue_all :: "string \<Rightarrow> event list \<Rightarrow> fanout \<Rightarrow> manager_error option \<times> fanout" where
  "enqueue_all a [] f = (None, f)"
| "enqueue_all a (e # es) f =
     (case EnqueueOwned a e f of
        (Inl err, f') \<Rightarrow> (Some (FanoutError err), snd (Detach a f'))
      | (Inr (Some _), f') \<Rightarrow> (Some (FanoutError ErrAttachmentEvicted), snd (Detach a f'))
      | (Inr None, f') \<Rightarrow> enqueue_all a es f')"

text \<open>The replay that an attachment starts with: the requested one, or the newest bounded tail.\<close>

definition attach_replay :: "nat \<Rightarrow> nat \<Rightarrow> history \<Rightarrow> history_error + replay" where
  "attach_replay limit from_sequence h =
     (case ReplayOwned from_sequence limit h of
        Inl e \<Rightarrow> Inl e
      | Inr rp \<Rightarrow>
          if rp_to rp < rp_latest rp
          then let boundary = u64_sub (rp_latest rp) limit;
                   boundary = (if boundary < rp_earliest rp then rp_earliest rp else boundary)
               in ReplayOwned boundary limit h
          else Inr rp)"

definition attachLocked ::
  "nat \<Rightarrow> nat \<Rightarrow> string \<Rightarrow> nat \<Rightarrow> managedSession \<Rightarrow> (manager_error + snapshot \<times> replay) \<times> managedSession" where
  "attachLocked maxAttachments attachmentBytes a from_sequence s =
     (if maxAttachments \<le> Count (ms_fanout s) then (Inl ErrResourceLimit, s)
      else case attach_replay (attachmentReplayLimit attachmentBytes) from_sequence (ms_history s) of
        Inl e \<Rightarrow> (Inl (HistoryError e), s)
      | Inr rp \<Rightarrow>
          (case Attach a attachmentBytes (ms_fanout s) of
             (Inl e, f) \<Rightarrow> (Inl (FanoutError e), s\<lparr>ms_fanout := f\<rparr>)
           | (Inr _, f) \<Rightarrow>
               (case enqueue_all a (rp_events rp) f of
                  (Some e, f') \<Rightarrow> (Inl e, s\<lparr>ms_fanout := f'\<rparr>)
                | (None, f') \<Rightarrow>
                    let s' = s\<lparr>ms_fanout := f'\<rparr> in (Inr (snapshotLocked s', rp), s'))))"

definition AttachLive ::
  "nat \<Rightarrow> nat \<Rightarrow> string \<Rightarrow> managedSession \<Rightarrow> (manager_error + snapshot \<times> replay) \<times> managedSession" where
  "AttachLive maxAttachments attachmentBytes a s =
     (let (_, latest, _) = Bounds (ms_history s)
      in attachLocked maxAttachments attachmentBytes a latest s)"

definition session_Acknowledge :: "string \<Rightarrow> nat \<Rightarrow> managedSession \<Rightarrow> (manager_error + unit) \<times> managedSession" where
  "session_Acknowledge a n s =
     (case Status a (ms_fanout s) of
        Inr (Attached, _) \<Rightarrow>
          (case Acknowledge a n (ms_history s) of
             (Inl e, h) \<Rightarrow> (Inl (HistoryError e), s\<lparr>ms_history := h\<rparr>)
           | (Inr _, h) \<Rightarrow> (Inr (), s\<lparr>ms_history := h\<rparr>))
      | _ \<Rightarrow> (Inl (InputError ErrInvalidInput), s))"

section \<open>Attaching\<close>

lemma history_log_ok:
  assumes "history_of evs h" and "\<forall>e\<in>set evs. ev_data e \<noteq> []"
  shows "log_ok evs"
proof -
  have "contiguous 0 (h_latest h) evs" using assms(1) by (simp add: history_of_def)
  then show ?thesis using assms(2) log_size[OF assms(1)] history_of_latest[OF assms(1)]
    by (simp add: log_ok_def)
qed

lemma replay_limit_bounds:
  assumes "0 < b"
  shows "0 < attachmentReplayLimit b" and "attachmentReplayLimit b \<le> b" and "attachmentReplayLimit b < u64_size"
proof -
  show "0 < attachmentReplayLimit b" by (simp add: attachmentReplayLimit_def initialReplayBytes_def Let_def)
  show "attachmentReplayLimit b \<le> b" using assms by (auto simp: attachmentReplayLimit_def Let_def)
  show "attachmentReplayLimit b < u64_size"
    by (auto simp: attachmentReplayLimit_def initialReplayBytes_def u64_size_def Let_def)
qed

text \<open>A replay from a retained offset that reaches the end is the log cut at its start.\<close>

definition tail_replay :: "event list \<Rightarrow> history \<Rightarrow> nat \<Rightarrow> replay \<Rightarrow> bool" where
  "tail_replay evs h lim rp \<longleftrightarrow>
     rp_to rp = h_latest h \<and> h_earliest h \<le> rp_from rp \<and> rp_from rp \<le> h_latest h \<and>
     h_latest h - rp_from rp \<le> lim \<and> rp_events rp = cut (rp_from rp) evs \<and>
     contiguous (rp_from rp) (h_latest h) (rp_events rp) \<and>
     payload (rp_events rp) = slice (payload evs) (rp_from rp) (h_latest h)"

lemma replay_tail:
  assumes "history_of evs h" and "h_earliest h \<le> fr" and "fr \<le> h_latest h" and "lim < u64_size" and "0 < lim"
    and "h_latest h - fr \<le> lim"
  shows "\<exists>rp. ReplayOwned fr lim h = Inr rp \<and> rp_latest rp = h_latest h \<and> rp_from rp = fr \<and> tail_replay evs h lim rp"
proof -
  have n: "fr + replay_span lim lim (h_latest h - fr) = h_latest h"
    using assms(3,5,6) by (simp add: replay_span_def)
  obtain ps where "ReplayOwned fr lim h = Inr \<lparr>rp_from = fr, rp_to = h_latest h, rp_earliest = h_earliest h,
      rp_latest = h_latest h, rp_events = ps\<rparr>" "contiguous fr (h_latest h) ps" "ps = cut fr (retained h)"
    "payload ps = slice (payload evs) fr (h_latest h)"
    using ReplayOwned_exact[OF assms(1-4)] unfolding n by blast
  with cut_retained[OF assms(1,2)] assms(2,3,6) show ?thesis by (simp add: tail_replay_def)
qed

lemma attach_replay_tail:
  assumes "history_of evs h" and "h_earliest h \<le> fr" and "fr \<le> h_latest h" and "lim < u64_size" and "0 < lim"
  shows "\<exists>rp. attach_replay lim fr h = Inr rp \<and> tail_replay evs h lim rp \<and>
     rp_from rp = (if h_latest h - fr \<le> lim then fr else max (h_earliest h) (h_latest h - lim))"
proof (cases "h_latest h - fr \<le> lim")
  case True
  then show ?thesis using replay_tail[OF assms True] by (auto simp: attach_replay_def tail_replay_def)
next
  case False
  have n: "replay_span lim lim (h_latest h - fr) = lim" using False assms(5) by (simp add: replay_span_def)
  obtain rp where rp: "ReplayOwned fr lim h = Inr rp" "rp_to rp = fr + lim" "rp_latest rp = h_latest h" "rp_earliest rp = h_earliest h"
    using ReplayOwned_exact[OF assms(1-4)] unfolding n by auto
  have lat: "h_latest h < u64_size" using assms(1) by (simp add: history_of_def history_wf_def history_open_def)
  define b where "b = max (h_earliest h) (h_latest h - lim)"
  have u: "u64_sub (h_latest h) lim = h_latest h - lim" using False lat by (simp add: u64)
  have b: "h_earliest h \<le> b" "b \<le> h_latest h" "h_latest h - b \<le> lim" using assms(2,3) by (auto simp: b_def)
  obtain rp2 where "ReplayOwned b lim h = Inr rp2" "tail_replay evs h lim rp2" "rp_from rp2 = b"
    using replay_tail[OF assms(1) b(1,2) assms(4,5) b(3)] by blast
  moreover have "attach_replay lim fr h = ReplayOwned b lim h"
    using rp False u by (auto simp: attach_replay_def Let_def b_def max_def)
  ultimately show ?thesis using False by (simp add: b_def)
qed

lemma cut_pieces: "log_ok evs \<Longrightarrow> x \<in> set (cut p evs) \<Longrightarrow> piece_of evs x"
proof -
  assume L: "log_ok evs" and "x \<in> set (cut p evs)"
  then obtain l where l: "l \<in> set evs" "p < ev_end l" "x = trim p l" by (auto simp: cut_def)
  have "trim p l = trim (max p (ev_start l)) l" by (simp add: trim_def)
  with l log_event(2)[OF L l(1)] show ?thesis
    unfolding piece_of_def by (intro bexI[of _ l] exI[of _ "max p (ev_start l)"]) auto
qed

lemma enqueue_fields:
  "cu_max (enqueue e c) = cu_max c" "cu_has (enqueue e c)"
  "cu_cursor (enqueue e c) = (if cu_has c then cu_cursor c else ev_start e)"
  "cu_queued (enqueue e c) = u64_add (cu_queued c) (length (ev_data e))"
  by (simp_all add: enqueue_def Let_def)

lemma enqueue_all_ok:
  assumes "log_ok evs" and "fanout_inv evs f" and "map_of (fo_attachments f) a = Some c" and "cu_state c = Attached"
    and "contiguous p b es" and "\<forall>e\<in>set es. piece_of evs e" and "cu_has c \<Longrightarrow> cu_end c = p"
    and "cu_queued c + (b - p) \<le> cu_max c"
  shows "\<exists>f' c'. enqueue_all a es f = (None, f') \<and> fanout_inv evs f' \<and>
     map_of (fo_attachments f') = (map_of (fo_attachments f))(a \<mapsto> c') \<and>
     cu_state c' = Attached \<and> cu_max c' = cu_max c \<and>
     (if es = [] then c' = c else cu_has c' \<and> cu_end c' = b \<and> cu_cursor c' = (if cu_has c then cu_cursor c else p))"
  using assms(2-)
proof (induction es arbitrary: f c p)
  case Nil
  then show ?case by (auto simp: fun_upd_idem)
next
  case (Cons e es)
  have pe: "piece_of evs e" and se: "ev_start e = p" and c': "contiguous (ev_end e) b es"
    and en: "ev_end e = p + length (ev_data e)"
    using Cons.prems(4,5) by auto
  have le: "ev_end e \<le> b" using c' by (auto dest: contiguous_le)
  have cap: "cu_queued c + length (ev_data e) \<le> cu_max c" using Cons.prems(7) en le by simp
  have max: "cu_max c < u64_size"
    using Cons.prems(1,2) by (auto simp: fanout_inv_def cursor_ok_def)
  obtain f1 where f1: "EnqueueOwned a e f = (Inr None, f1)" "fanout_inv evs f1"
    "map_of (fo_attachments f1) = (map_of (fo_attachments f))(a \<mapsto> enqueue e c)"
    using EnqueueOwned_inv[OF assms(1) Cons.prems(1) pe Cons.prems(2,3) _ cap] Cons.prems(6) se by auto
  have q: "cu_queued (enqueue e c) = cu_queued c + length (ev_data e)"
    using cap max by (simp add: enqueue_fields u64)
  have cap': "cu_queued (enqueue e c) + (b - ev_end e) \<le> cu_max (enqueue e c)"
    using Cons.prems(7) q en le by (simp add: enqueue_fields)
  have l1: "map_of (fo_attachments f1) a = Some (enqueue e c)" "cu_state (enqueue e c) = Attached"
    "\<forall>x\<in>set es. piece_of evs x" "cu_end (enqueue e c) = ev_end e"
    using f1(3) Cons.prems(3,5) by simp_all
  obtain f' c'' where r: "enqueue_all a es f1 = (None, f')" "fanout_inv evs f'"
    "map_of (fo_attachments f') = (map_of (fo_attachments f1))(a \<mapsto> c'')" "cu_state c'' = Attached"
    "cu_max c'' = cu_max (enqueue e c)"
    "if es = [] then c'' = enqueue e c else cu_has c'' \<and> cu_end c'' = b \<and>
       cu_cursor c'' = (if cu_has (enqueue e c) then cu_cursor (enqueue e c) else ev_end e)"
    using Cons.IH[OF f1(2) l1(1,2) c' l1(3,4) cap'] by blast
  have "es = [] \<Longrightarrow> ev_end e = b" using c' by simp
  then have "cu_has c'' \<and> cu_end c'' = b \<and> cu_cursor c'' = (if cu_has c then cu_cursor c else p)"
    using r(6) se by (auto simp: enqueue_fields split: if_splits)
  with r f1 show ?case by (intro exI[of _ f'] exI[of _ c'']) (simp add: enqueue_fields)
qed

definition not_attached :: "string \<Rightarrow> fanout \<Rightarrow> bool" where
  "not_attached a f \<longleftrightarrow> (case map_of (fo_attachments f) a of None \<Rightarrow> True | Some c \<Rightarrow> cu_state c \<noteq> Attached)"

text \<open>What a successful attach leaves.\<close>

definition attached_at :: "event list \<Rightarrow> nat \<Rightarrow> string \<Rightarrow> replay \<Rightarrow> managedSession \<Rightarrow> managedSession \<Rightarrow> bool" where
  "attached_at evs B a rp s s' \<longleftrightarrow>
     (\<exists>f' c. s' = s\<lparr>ms_fanout := f'\<rparr> \<and> fanout_inv evs f' \<and>
        map_of (fo_attachments f') = (map_of (fo_attachments (ms_fanout s)))(a \<mapsto> c) \<and>
        cu_state c = Attached \<and> cu_max c = B \<and> tail_replay evs (ms_history s) (attachmentReplayLimit B) rp \<and>
        (if cu_has c then cu_cursor c = rp_from rp \<and> cu_end c = h_latest (ms_history s)
         else rp_from rp = h_latest (ms_history s)))"

lemma attach_enqueue:
  assumes "log_ok evs" and "history_of evs (ms_history s)" and "fanout_inv evs (ms_fanout s)"
    and "0 < B" and "B < u64_size" and "tail_replay evs (ms_history s) (attachmentReplayLimit B) rp"
    and "Attach a B (ms_fanout s) = (Inr (), f)"
  shows "\<exists>f'. enqueue_all a (rp_events rp) f = (None, f') \<and> attached_at evs B a rp s (s\<lparr>ms_fanout := f'\<rparr>)"
proof -
  define c0 where "c0 = \<lparr>cu_state = Attached, cu_max = B, cu_queued = 0, cu_evicted = 0,
    cu_cursor = 0, cu_end = 0, cu_has = False, cu_notify = False\<rparr>"
  have f: "fanout_inv evs f" using Attach_inv[OF assms(3,5), of a] assms(7) by simp
  have look: "map_of (fo_attachments f) = (map_of (fo_attachments (ms_fanout s)))(a \<mapsto> c0)"
    using assms(7) by (auto simp: Attach_def c0_def update_conv' split: if_splits option.splits)
  have tr: "contiguous (rp_from rp) (h_latest (ms_history s)) (rp_events rp)" "rp_events rp = cut (rp_from rp) evs"
    "h_latest (ms_history s) - rp_from rp \<le> attachmentReplayLimit B"
    using assms(6) by (auto simp: tail_replay_def)
  have "\<forall>e\<in>set (rp_events rp). piece_of evs e" using cut_pieces[OF assms(1)] tr(2) by simp
  moreover have "cu_queued c0 + (h_latest (ms_history s) - rp_from rp) \<le> cu_max c0"
    using tr(3) replay_limit_bounds(2)[OF assms(4)] by (simp add: c0_def)
  ultimately obtain f' c where e: "enqueue_all a (rp_events rp) f = (None, f')" "fanout_inv evs f'"
    "map_of (fo_attachments f') = (map_of (fo_attachments f))(a \<mapsto> c)" "cu_state c = Attached" "cu_max c = cu_max c0"
    "if rp_events rp = [] then c = c0 else cu_has c \<and> cu_end c = h_latest (ms_history s) \<and>
       cu_cursor c = (if cu_has c0 then cu_cursor c0 else rp_from rp)"
    using enqueue_all_ok[OF assms(1) f, of a c0 "rp_from rp" "h_latest (ms_history s)" "rp_events rp"] look tr(1)
    by (auto simp: c0_def)
  have empty: "rp_events rp = [] \<Longrightarrow> rp_from rp = h_latest (ms_history s)" using tr(1) by simp
  have "map_of (fo_attachments f') = (map_of (fo_attachments (ms_fanout s)))(a \<mapsto> c)" using e(3) look by simp
  then have "attached_at evs B a rp s (s\<lparr>ms_fanout := f'\<rparr>)"
    using e(2,4-6) assms(6) empty unfolding attached_at_def
    by (intro exI[of _ f'] exI[of _ c]) (auto simp: c0_def split: if_splits)
  with e(1) show ?thesis by blast
qed

text \<open>
  Attaching fails only for a stated reason and then changes nothing; otherwise it delivers the
  whole tail it announces. The clean-up for a failed or evicted replay is never reached.
\<close>

lemma attachLocked_cases:
  assumes "log_ok evs" and "history_of evs (ms_history s)" and "fanout_inv evs (ms_fanout s)"
    and "0 < B" and "B < u64_size"
  shows "(\<exists>e. attachLocked M B a fr s = (Inl e, s)) \<or>
     (\<exists>rp s'. attachLocked M B a fr s = (Inr (snapshotLocked s', rp), s') \<and> attached_at evs B a rp s s')"
proof (cases "attach_replay (attachmentReplayLimit B) fr (ms_history s)")
  case (Inl e)
  then show ?thesis by (auto simp: attachLocked_def)
next
  case (Inr rp)
  then have "h_earliest (ms_history s) \<le> fr" "fr \<le> h_latest (ms_history s)"
    by (auto simp: attach_replay_def ReplayOwned_def split: if_splits sum.splits)
  then have tr: "tail_replay evs (ms_history s) (attachmentReplayLimit B) rp"
    using attach_replay_tail[OF assms(2), of fr "attachmentReplayLimit B"] replay_limit_bounds[OF assms(4)] Inr by auto
  obtain x f where at: "Attach a B (ms_fanout s) = (x, f)" by fastforce
  show ?thesis
  proof (cases x)
    case (Inl e)
    then have "f = ms_fanout s" using at by (auto simp: Attach_def split: if_splits)
    with at Inl Inr show ?thesis by (auto simp: attachLocked_def)
  next
    case x: (Inr u)
    then have "Attach a B (ms_fanout s) = (Inr (), f)" using at by simp
    from attach_enqueue[OF assms tr this] obtain f' where
      "enqueue_all a (rp_events rp) f = (None, f')" "attached_at evs B a rp s (s\<lparr>ms_fanout := f'\<rparr>)" by blast
    with at x Inr show ?thesis by (auto simp: attachLocked_def Let_def)
  qed
qed

lemma attachLocked_ok:
  assumes "log_ok evs" and "history_of evs (ms_history s)" and "fanout_inv evs (ms_fanout s)"
    and "0 < B" and "B < u64_size" and "Count (ms_fanout s) < M" and "a \<noteq> []" and "not_attached a (ms_fanout s)"
    and "h_earliest (ms_history s) \<le> fr" and "fr \<le> h_latest (ms_history s)"
  shows "\<exists>rp s'. attachLocked M B a fr s = (Inr (snapshotLocked s', rp), s') \<and> attached_at evs B a rp s s' \<and>
     rp_from rp = (if h_latest (ms_history s) - fr \<le> attachmentReplayLimit B then fr
       else max (h_earliest (ms_history s)) (h_latest (ms_history s) - attachmentReplayLimit B))"
proof -
  note lb = replay_limit_bounds[OF assms(4)]
  obtain rp where rp: "attach_replay (attachmentReplayLimit B) fr (ms_history s) = Inr rp"
    "tail_replay evs (ms_history s) (attachmentReplayLimit B) rp"
    "rp_from rp = (if h_latest (ms_history s) - fr \<le> attachmentReplayLimit B then fr
       else max (h_earliest (ms_history s)) (h_latest (ms_history s) - attachmentReplayLimit B))"
    using attach_replay_tail[OF assms(2,9,10) lb(3,1)] by blast
  obtain f where "Attach a B (ms_fanout s) = (Inr (), f)"
    using assms(4,7,8) by (auto simp: Attach_def not_attached_def split: option.splits)
  with attach_enqueue[OF assms(1-5) rp(2) this] rp(1,3) assms(6) show ?thesis
    by (auto simp: attachLocked_def Let_def)
qed

lemma attached_queue:
  assumes "attached_at evs B a rp s s'"
  shows "\<exists>c. map_of (fo_attachments (ms_fanout s')) a = Some c \<and> cu_state c = Attached \<and>
     cu_queued c = h_latest (ms_history s) - rp_from rp"
proof -
  obtain f' c where "s' = s\<lparr>ms_fanout := f'\<rparr>" "fanout_inv evs f'" "map_of (fo_attachments f') a = Some c" "cu_state c = Attached"
    "if cu_has c then cu_cursor c = rp_from rp \<and> cu_end c = h_latest (ms_history s) else rp_from rp = h_latest (ms_history s)"
    using assms unfolding attached_at_def by auto
  then show ?thesis by (auto simp: fanout_inv_def cursor_ok_def split: if_splits)
qed

section \<open>Delivery\<close>

text \<open>
  A session driven by its process, its clients and its owner. \<open>dl_log\<close> is everything the process
  has written; \<open>dl_got\<close> records for each attachment the offset its replay announced and the
  bytes it has been handed since.
\<close>

datatype session_op =
    SOut bytes
  | SAttach string nat
  | SAttachLive string
  | SDetach string
  | SNext string
  | SAck string nat
  | SClear

record delivery =
  dl_log :: "event list"
  dl_session :: managedSession
  dl_got :: "(string \<times> nat \<times> bytes) list"

definition note_attach ::
  "string \<Rightarrow> (manager_error + snapshot \<times> replay) \<times> managedSession \<Rightarrow> delivery \<Rightarrow> delivery" where
  "note_attach a r x =
     (case r of
        (Inl _, s) \<Rightarrow> x\<lparr>dl_session := s\<rparr>
      | (Inr (_, rp), s) \<Rightarrow> x\<lparr>dl_session := s, dl_got := AList.update a (rp_from rp, []) (dl_got x)\<rparr>)"

definition hand_over :: "string \<Rightarrow> bytes \<Rightarrow> (string \<times> nat \<times> bytes) list \<Rightarrow> (string \<times> nat \<times> bytes) list" where
  "hand_over a d got =
     (case map_of got a of None \<Rightarrow> got | Some (start, bs) \<Rightarrow> AList.update a (start, bs @ d) got)"

fun session_exec :: "nat \<Rightarrow> nat \<Rightarrow> session_op \<Rightarrow> delivery \<Rightarrow> delivery" where
  "session_exec M B (SOut d) x =
     x\<lparr>dl_session := capture_output d (dl_session x),
       dl_log := fst (hist_exec (OpAppend CHR 0x01 d) (dl_log x, ms_history (dl_session x)))\<rparr>"
| "session_exec M B (SAttach a fr) x = note_attach a (attachLocked M B a fr (dl_session x)) x"
| "session_exec M B (SAttachLive a) x = note_attach a (AttachLive M B a (dl_session x)) x"
| "session_exec M B (SDetach a) x =
     x\<lparr>dl_session := (dl_session x)\<lparr>ms_fanout := snd (Detach a (ms_fanout (dl_session x)))\<rparr>\<rparr>"
| "session_exec M B (SNext a) x =
     (case Next a (ms_fanout (dl_session x)) of
        (Inr (Some e), f) \<Rightarrow>
          x\<lparr>dl_session := (dl_session x)\<lparr>ms_fanout := f\<rparr>, dl_got := hand_over a (ev_data e) (dl_got x)\<rparr>
      | (_, f) \<Rightarrow> x\<lparr>dl_session := (dl_session x)\<lparr>ms_fanout := f\<rparr>\<rparr>)"
| "session_exec M B (SAck a n) x = x\<lparr>dl_session := snd (session_Acknowledge a n (dl_session x))\<rparr>"
| "session_exec M B SClear x =
     x\<lparr>dl_session := (dl_session x)\<lparr>ms_history := snd (Clear (ms_history (dl_session x)))\<rparr>\<rparr>"

text \<open>What an attached client has been handed, against the log.\<close>

definition got_ok :: "event list \<Rightarrow> attachmentCursor \<Rightarrow> nat \<Rightarrow> bytes \<Rightarrow> bool" where
  "got_ok evs c start bs \<longleftrightarrow>
     (if cu_has c then start \<le> cu_cursor c \<and> bs = slice (payload evs) start (cu_cursor c)
      else bs = [] \<and> start = length (payload evs))"

definition output_inv :: "event list \<Rightarrow> managedSession \<Rightarrow> bool" where
  "output_inv evs s \<longleftrightarrow>
     history_of evs (ms_history s) \<and> log_ok evs \<and> fanout_inv evs (ms_fanout s) \<and>
     caught_up (h_latest (ms_history s)) (ms_fanout s)"

definition client_ok :: "nat \<Rightarrow> event list \<Rightarrow> (string \<times> nat \<times> bytes) list \<Rightarrow> string \<Rightarrow> attachmentCursor \<Rightarrow> bool" where
  "client_ok B evs got a c \<longleftrightarrow>
     cu_max c = B \<and> (\<exists>start bs. map_of got a = Some (start, bs) \<and> got_ok evs c start bs)"

definition delivery_inv :: "nat \<Rightarrow> delivery \<Rightarrow> bool" where
  "delivery_inv B x \<longleftrightarrow>
     output_inv (dl_log x) (dl_session x) \<and>
     (\<forall>a c. map_of (fo_attachments (ms_fanout (dl_session x))) a = Some c \<longrightarrow> cu_state c = Attached \<longrightarrow>
        client_ok B (dl_log x) (dl_got x) a c)"

lemma delivery_client:
  "delivery_inv B x \<Longrightarrow> map_of (fo_attachments (ms_fanout (dl_session x))) a = Some c \<Longrightarrow> cu_state c = Attached \<Longrightarrow>
     client_ok B (dl_log x) (dl_got x) a c"
  by (simp add: delivery_inv_def)

lemma delivery_output: "delivery_inv B x \<Longrightarrow> output_inv (dl_log x) (dl_session x)"
  by (simp add: delivery_inv_def)

lemma delivery_invI:
  assumes "output_inv evs s"
    and "\<And>a c. map_of (fo_attachments (ms_fanout s)) a = Some c \<Longrightarrow> cu_state c = Attached \<Longrightarrow> client_ok B evs got a c"
  shows "delivery_inv B \<lparr>dl_log = evs, dl_session = s, dl_got = got\<rparr>"
  using assms by (simp add: delivery_inv_def)

lemma output_latest: "output_inv evs s \<Longrightarrow> h_latest (ms_history s) = length (payload evs)"
  by (simp add: output_inv_def history_of_latest)

lemma publish_got:
  assumes "log_ok (evs @ [e])" and "got_ok evs c start bs" and "cu_state (publish_one e c) = Attached"
    and "cu_has c \<Longrightarrow> cu_cursor c \<le> length (payload evs)" and "ev_start e = length (payload evs)"
  shows "got_ok (evs @ [e]) (publish_one e c) start bs"
proof -
  have "publish_one e c = enqueue e c" using assms(3) by (auto simp: publish_one_def split: if_splits)
  with assms(2,4,5) show ?thesis
    by (auto simp: got_ok_def enqueue_fields slice_append_left split: if_splits)
qed

text \<open>Output reaches the log, the history and every attached client.\<close>

lemma publish_client:
  assumes "delivery_inv B x" and "log_ok (dl_log x @ [e])" and "ev_start e = length (payload (dl_log x))"
    and "map_of (fo_attachments (ms_fanout (dl_session x))) a = Some c" and "cu_state (publish_one e c) = Attached"
  shows "client_ok B (dl_log x @ [e]) (dl_got x) a (publish_one e c)"
proof -
  note oi = delivery_output[OF assms(1)]
  have st: "cu_state c = Attached" using assms(5) by (simp add: publish_one_attached)
  obtain start bs where g: "cu_max c = B" "map_of (dl_got x) a = Some (start, bs)" "got_ok (dl_log x) c start bs"
    using delivery_client[OF assms(1,4) st] unfolding client_ok_def by blast
  have "fanout_inv (dl_log x) (ms_fanout (dl_session x))" "caught_up (length (payload (dl_log x))) (ms_fanout (dl_session x))"
    using oi output_latest[OF oi] by (simp_all add: output_inv_def)
  then have "cu_has c \<Longrightarrow> cu_cursor c \<le> length (payload (dl_log x))"
    using assms(4) st by (fastforce simp: fanout_inv_def cursor_ok_def caught_up_def)
  from publish_got[OF assms(2) g(3) assms(5) this assms(3)] g st assms(5) show ?thesis
    unfolding client_ok_def by (auto simp: publish_one_def enqueue_fields split: if_splits)
qed

lemma SOut_inv:
  assumes "delivery_inv B x"
  shows "delivery_inv B (session_exec M B (SOut d) x)"
proof -
  let ?s = "dl_session x" and ?evs = "dl_log x"
  note oi = delivery_output[OF assms]
  then have h: "history_of ?evs (ms_history ?s)" and L: "log_ok ?evs" and f: "fanout_inv ?evs (ms_fanout ?s)"
    and cu: "caught_up (h_latest (ms_history ?s)) (ms_fanout ?s)" by (simp_all add: output_inv_def)
  have wf: "history_wf (ms_history ?s)" using h by (simp add: history_of_def)
  note lat = output_latest[OF oi]
  consider "d = []" | "d \<noteq> []" "length d \<le> u64_max - h_latest (ms_history ?s)"
    | "d \<noteq> []" "u64_max - h_latest (ms_history ?s) < length d" by linarith
  then show ?thesis
  proof cases
    case 1
    with assms show ?thesis by (simp add: capture_output_def appendOwned_def)
  next
    case 3
    then have "appendOwned CHR 0x01 d (ms_history ?s) = (Inl ErrSequenceFull, ms_history ?s)"
      by (intro appendOwned_full[OF wf])
    with 3 assms show ?thesis by (auto simp: capture_output_def delivery_inv_def output_inv_def)
  next
    case 2
    define e where "e = next_event CHR 0x01 d (ms_history ?s)"
    obtain h' where ap: "appendOwned CHR 0x01 d (ms_history ?s) = (Inr e, h')" and h': "history_of (?evs @ [e]) h'"
      using appendOwned_log[OF h 2, of "CHR 0x01"] by (auto simp: e_def)
    have se: "ev_start e = length (payload ?evs)" "ev_data e = d" using lat by (simp_all add: e_def next_event_def)
    have L': "log_ok (?evs @ [e])" using history_log_ok[OF h'] L 2(1) se(2) by (auto simp: log_ok_def)
    have lat': "h_latest h' = ev_end e" using history_of_latest[OF h'] se lat by (simp add: e_def next_event_def)
    obtain es f' where pb: "PublishOwned e (ms_fanout ?s) = (Inr es, f')" "fanout_inv (?evs @ [e]) f'"
      "caught_up (ev_end e) f'"
      "\<forall>a. map_of (fo_attachments f') a = map_option (publish_one e) (map_of (fo_attachments (ms_fanout ?s)) a)"
      using PublishOwned_inv[OF L' f] cu lat se(1) by auto
    have "session_exec M B (SOut d) x = \<lparr>dl_log = ?evs @ [e],
        dl_session = ?s\<lparr>ms_modes := Consume d (ms_modes ?s), ms_history := h', ms_fanout := f'\<rparr>, dl_got = dl_got x\<rparr>"
      using 2 ap pb(1) by (simp add: capture_output_def Let_def)
    moreover have "client_ok B (?evs @ [e]) (dl_got x) a c"
      if "map_of (fo_attachments f') a = Some c" "cu_state c = Attached" for a c
      using publish_client[OF assms L' se(1)] pb(4) that by auto
    ultimately show ?thesis
      using h' L' pb(2,3) lat' by (auto intro!: delivery_invI simp: output_inv_def)
  qed
qed

lemma attached_inv:
  assumes "delivery_inv B x" and "attached_at (dl_log x) B a rp (dl_session x) s'"
  shows "delivery_inv B (x\<lparr>dl_session := s', dl_got := AList.update a (rp_from rp, []) (dl_got x)\<rparr>)"
proof -
  let ?s = "dl_session x" and ?evs = "dl_log x" and ?got = "AList.update a (rp_from rp, []) (dl_got x)"
  note oi = delivery_output[OF assms(1)]
  note lat = output_latest[OF oi]
  obtain f' c where s': "s' = ?s\<lparr>ms_fanout := f'\<rparr>" and f': "fanout_inv ?evs f'"
    and look: "map_of (fo_attachments f') = (map_of (fo_attachments (ms_fanout ?s)))(a \<mapsto> c)"
    and c: "cu_state c = Attached" "cu_max c = B"
    and cur: "if cu_has c then cu_cursor c = rp_from rp \<and> cu_end c = h_latest (ms_history ?s)
       else rp_from rp = h_latest (ms_history ?s)"
    using assms(2) unfolding attached_at_def by blast
  have "caught_up (h_latest (ms_history ?s)) f'"
    using oi look cur unfolding output_inv_def caught_up_def by (auto split: if_splits)
  then have o': "output_inv ?evs s'" using oi f' s' by (simp add: output_inv_def)
  have "client_ok B ?evs ?got a c"
    using c cur lat by (auto simp: client_ok_def got_ok_def update_conv' slices split: if_splits)
  moreover have "client_ok B ?evs ?got b d" if "b \<noteq> a" "client_ok B ?evs (dl_got x) b d" for b d
    using that by (simp add: client_ok_def update_conv')
  ultimately have "client_ok B ?evs ?got b d" if "map_of (fo_attachments f') b = Some d" "cu_state d = Attached" for b d
    using that look delivery_client[OF assms(1)] by (auto split: if_splits)
  then show ?thesis using o' s' by (simp add: delivery_inv_def)
qed

lemma attach_inv:
  assumes "delivery_inv B x" and "0 < B" and "B < u64_size"
  shows "delivery_inv B (note_attach a (attachLocked M B a fr (dl_session x)) x)"
proof -
  have "log_ok (dl_log x)" "history_of (dl_log x) (ms_history (dl_session x))" "fanout_inv (dl_log x) (ms_fanout (dl_session x))"
    using delivery_output[OF assms(1)] by (simp_all add: output_inv_def)
  from attachLocked_cases[OF this assms(2,3), of M a fr] show ?thesis
    using assms(1) attached_inv[OF assms(1)] by (auto simp: note_attach_def)
qed

lemma SDetach_inv: "delivery_inv B x \<Longrightarrow> delivery_inv B (session_exec M B (SDetach a) x)"
proof -
  assume x: "delivery_inv B x"
  let ?f = "ms_fanout (dl_session x)"
  have sub: "map_of (fo_attachments (snd (Detach a ?f))) b = Some c \<Longrightarrow> map_of (fo_attachments ?f) b = Some c" for b c
    by (auto simp: Detach_def delete_conv' split: option.splits if_splits)
  have "fanout_inv (dl_log x) (snd (Detach a ?f))"
    using delivery_output[OF x] Detach_inv by (simp add: output_inv_def)
  moreover have "caught_up n ?f \<Longrightarrow> caught_up n (snd (Detach a ?f))" for n
    using sub unfolding caught_up_def by blast
  ultimately show ?thesis using x sub by (auto simp: delivery_inv_def output_inv_def)
qed

lemma client_next:
  assumes "log_ok evs" and "client_ok B evs got a c" and "cu_has c" and "piece_of evs e" and "ev_start e = cu_cursor c"
  shows "client_ok B evs (hand_over a (ev_data e) got) a (c\<lparr>cu_cursor := ev_end e, cu_queued := n\<rparr>)"
proof -
  obtain start bs where g: "cu_max c = B" "map_of got a = Some (start, bs)" "start \<le> cu_cursor c"
    "bs = slice (payload evs) start (cu_cursor c)"
    using assms(2,3) by (auto simp: client_ok_def got_ok_def)
  have e: "ev_start e \<le> ev_end e" "ev_end e \<le> length (payload evs)" using piece_fields[OF assms(1,4)] by auto
  have "bs @ ev_data e = slice (payload evs) start (ev_end e)"
    using g(3,4) e assms(5) piece_data[OF assms(1,4)] by (simp add: slices)
  with g e(1) assms(3,5) show ?thesis by (simp add: client_ok_def got_ok_def hand_over_def update_conv')
qed

lemma client_other: "b \<noteq> a \<Longrightarrow> client_ok B evs (hand_over a d got) b c = client_ok B evs got b c"
  by (auto simp: client_ok_def hand_over_def update_conv' split: option.split)

lemma SNext_inv:
  assumes "delivery_inv B x"
  shows "delivery_inv B (session_exec M B (SNext a) x)"
proof (cases "\<exists>e f. Next a (ms_fanout (dl_session x)) = (Inr (Some e), f)")
  case False
  then have "snd (Next a (ms_fanout (dl_session x))) = ms_fanout (dl_session x)"
    by (auto simp: Next_def split: option.splits)
  then have "session_exec M B (SNext a) x = x" using False
    by (auto split: prod.splits sum.splits option.splits)
  with assms show ?thesis by simp
next
  case True
  let ?s = "dl_session x" and ?evs = "dl_log x"
  have oi: "log_ok ?evs" "fanout_inv ?evs (ms_fanout ?s)" "history_of ?evs (ms_history ?s)"
    "caught_up (h_latest (ms_history ?s)) (ms_fanout ?s)"
    using delivery_output[OF assms] by (simp_all add: output_inv_def)
  obtain c where c: "map_of (fo_attachments (ms_fanout ?s)) a = Some c" "cu_state c = Attached" "cu_has c" "cu_cursor c < cu_end c"
    using True by (auto simp: Next_def split: option.splits if_splits)
  obtain e f' where n: "Next a (ms_fanout ?s) = (Inr (Some e), f')" "fanout_inv ?evs f'" "piece_of ?evs e"
    "ev_start e = cu_cursor c" "map_of (fo_attachments f') =
       (map_of (fo_attachments (ms_fanout ?s)))(a \<mapsto> c\<lparr>cu_cursor := ev_end e, cu_queued := cu_end c - ev_end e\<rparr>)"
    using Next_event[OF oi(1,2) c] by blast
  have "caught_up (h_latest (ms_history ?s)) f'" using oi(4) c(1-3) n(5) by (auto simp: caught_up_def)
  then have o': "output_inv ?evs (?s\<lparr>ms_fanout := f'\<rparr>)" using oi n(2) by (simp add: output_inv_def)
  have "client_ok B ?evs (hand_over a (ev_data e) (dl_got x)) b d"
    if d: "map_of (fo_attachments f') b = Some d" "cu_state d = Attached" for b d
  proof (cases "b = a")
    case True
    then show ?thesis using client_next[OF oi(1) delivery_client[OF assms c(1,2)] c(3) n(3,4), of "cu_end c - ev_end e"] d n(5) by simp
  next
    case False
    then show ?thesis using delivery_client[OF assms] d n(5) by (simp add: client_other)
  qed
  with o' n(1) show ?thesis by (simp add: delivery_inv_def)
qed

lemma history_step_inv:
  assumes "delivery_inv B x" and "history_of (dl_log x) h" and "h_latest h = h_latest (ms_history (dl_session x))"
  shows "delivery_inv B (x\<lparr>dl_session := (dl_session x)\<lparr>ms_history := h\<rparr>\<rparr>)"
  using assms by (simp add: delivery_inv_def output_inv_def)

lemma delivery_step:
  assumes "delivery_inv B x" and "0 < B" and "B < u64_size"
  shows "delivery_inv B (session_exec M B op x)"
proof -
  have h: "history_of (dl_log x) (ms_history (dl_session x))" using delivery_output[OF assms(1)] by (simp add: output_inv_def)
  show ?thesis
  proof (cases op)
    case (SAck a n)
    have "h_latest (snd (Acknowledge a n (ms_history (dl_session x)))) = h_latest (ms_history (dl_session x))"
      by (simp add: Acknowledge_def)
    from history_step_inv[OF assms(1) Acknowledge_log[OF h] this] SAck assms(1) show ?thesis
      by (auto simp: session_Acknowledge_def split: sum.splits attachment_state.splits prod.splits)
  next
    case SClear
    have "h_latest (snd (Clear (ms_history (dl_session x)))) = h_latest (ms_history (dl_session x))"
      by (simp add: Clear_def)
    from history_step_inv[OF assms(1) Clear_log(1)[OF h] this] SClear show ?thesis by simp
  qed (use assms SOut_inv SNext_inv SDetach_inv attach_inv in \<open>auto simp: AttachLive_def split: prod.split\<close>)
qed

definition queue_limit_ok :: "nat \<Rightarrow> bool" where
  "queue_limit_ok B \<longleftrightarrow> 0 < B \<and> B < u64_size"

interpretation delivery_run: machine "session_exec M B" "\<lambda>x. queue_limit_ok B \<and> delivery_inv B x" "\<lambda>_. True" for M B
  by unfold_locales (auto simp: queue_limit_ok_def intro: delivery_step)

text \<open>A session as \<^verbatim>\<open>Create\<close> makes it, before any output.\<close>

definition fresh_session :: "nat \<Rightarrow> managedSession \<Rightarrow> bool" where
  "fresh_session m s \<longleftrightarrow> New m = Inr (ms_history s) \<and> ms_fanout s = NewFanout"

definition start_delivery :: "managedSession \<Rightarrow> delivery" where
  "start_delivery s = \<lparr>dl_log = [], dl_session = s, dl_got = []\<rparr>"

lemma delivery_reachable:
  assumes "fresh_session m s" and "queue_limit_ok B" and "x = fold (session_exec M B) ops (start_delivery s)"
  shows "delivery_inv B x"
proof -
  have "delivery_inv B (start_delivery s)"
    using assms(1) New_log[of m "ms_history s"] NewFanout_inv[of "[]"]
    by (auto simp: fresh_session_def start_delivery_def delivery_inv_def output_inv_def log_inv_def log_ok_def
        caught_up_def u64_size_def NewFanout_def)
  then show ?thesis using delivery_run.run[of B "start_delivery s" ops M] assms(2,3) by (simp add: list_all_iff)
qed

section \<open>Properties\<close>

text \<open>A small session: the attachment arrives between two outputs and has read one event.\<close>

definition ex_session :: managedSession where
  "ex_session =
     \<lparr>ms_id = ''s'', ms_name = ''shell'',
      ms_command = \<lparr>cm_path = ''sh'', cm_args = [], cm_env = [], cm_cwd = ''/'', cm_columns = 80, cm_rows = 24\<rparr>,
      ms_lifecycle = \<lparr>lc_state = Running, lc_generation = 1\<rparr>,
      ms_history = \<lparr>h_max = 8, h_bytes = 0, h_earliest = 0, h_latest = 0, h_events = [], h_head = 0, h_acks = []\<rparr>,
      ms_fanout = NewFanout, ms_inputs = NewBoundedInputJournal 1 4, ms_process = Some 1, ms_exit = None,
      ms_resizeID = [], ms_resizeTime = 0, ms_live = None,
      ms_modes = \<lparr>tm_modes = zero_modes, tm_tail = []\<rparr>, ms_worker = NoWorker, ms_persistErr = None\<rparr>"

definition ex_ab :: event where
  "ex_ab = \<lparr>ev_channel = CHR 0x01, ev_start = 0, ev_end = 2, ev_data = ''ab''\<rparr>"

definition ex_cd :: event where
  "ex_cd = \<lparr>ev_channel = CHR 0x01, ev_start = 2, ev_end = 4, ev_data = ''cd''\<rparr>"

definition ex_hist :: "event list \<Rightarrow> nat \<Rightarrow> history" where
  "ex_hist evs n = \<lparr>h_max = 8, h_bytes = n, h_earliest = 0, h_latest = n, h_events = evs, h_head = 0, h_acks = []\<rparr>"

definition ex_cursor :: "nat \<Rightarrow> nat \<Rightarrow> attachmentCursor" where
  "ex_cursor i j = \<lparr>cu_state = Attached, cu_max = 16, cu_queued = j - i, cu_evicted = 0, cu_cursor = i, cu_end = j,
     cu_has = True, cu_notify = True\<rparr>"

definition ex_fanout :: "event list \<Rightarrow> nat \<Rightarrow> nat \<Rightarrow> fanout" where
  "ex_fanout evs i j = \<lparr>fo_attachments = [(''c'', ex_cursor i j)], fo_active = {''c''}, fo_ring = evs\<rparr>"

definition ex_at :: "event list \<Rightarrow> nat \<Rightarrow> fanout \<Rightarrow> (string \<times> nat \<times> bytes) list \<Rightarrow> delivery" where
  "ex_at evs n f got = \<lparr>dl_log = evs, dl_session = ex_session\<lparr>ms_history := ex_hist evs n, ms_fanout := f\<rparr>, dl_got = got\<rparr>"

lemmas ex_defs = ex_ab_def ex_cd_def ex_hist_def ex_cursor_def ex_fanout_def u64_sub_def u64_add_def u64_max_def u64_size_def Let_def

lemma ex_consume: "Consume ''ab'' \<lparr>tm_modes = zero_modes, tm_tail = []\<rparr> = \<lparr>tm_modes = zero_modes, tm_tail = []\<rparr>"
  "Consume ''cd'' \<lparr>tm_modes = zero_modes, tm_tail = []\<rparr> = \<lparr>tm_modes = zero_modes, tm_tail = []\<rparr>"
  by (simp_all add: Consume_def consume_loop.simps ESC_def)

lemma ex_appends:
  "appendOwned CHR 0x01 ''ab'' (ex_hist [] 0) = (Inr ex_ab, ex_hist [ex_ab] 2)"
  "appendOwned CHR 0x01 ''cd'' (ex_hist [ex_ab] 2) = (Inr ex_cd, ex_hist [ex_ab, ex_cd] 4)"
  by (simp_all add: appendOwned_def compactLocked_def compact_loop.simps ex_defs)

lemma ex_publishes:
  "snd (PublishOwned ex_ab NewFanout) = NewFanout"
  "snd (PublishOwned ex_cd (ex_fanout [ex_ab] 0 2)) = ex_fanout [ex_ab, ex_cd] 0 4"
  by (simp_all add: PublishOwned_def NewFanout_def validOutputEvent_def slow_def fanout_compactLocked_def
      insertEventLocked.simps covers_def sort_ring_def publish_one_def overflows_def enqueue_def ex_defs)

lemma ex_attach: "attachLocked 4 16 ''c'' 0 (ex_session\<lparr>ms_history := ex_hist [ex_ab] 2, ms_fanout := NewFanout\<rparr>) =
    (Inr (snapshotLocked (ex_session\<lparr>ms_history := ex_hist [ex_ab] 2, ms_fanout := ex_fanout [ex_ab] 0 2\<rparr>),
       \<lparr>rp_from = 0, rp_to = 2, rp_earliest = 0, rp_latest = 2, rp_events = [ex_ab]\<rparr>),
     ex_session\<lparr>ms_history := ex_hist [ex_ab] 2, ms_fanout := ex_fanout [ex_ab] 0 2\<rparr>)"
proof -
  have r: "ReplayOwned 0 8 (ex_hist [ex_ab] 2) =
      Inr \<lparr>rp_from = 0, rp_to = 2, rp_earliest = 0, rp_latest = 2, rp_events = [ex_ab]\<rparr>"
    by (simp add: ReplayOwned_def replay_loop.simps slice_def ex_defs)
  have l: "attachmentReplayLimit 16 = 8" by (simp add: attachmentReplayLimit_def initialReplayBytes_def)
  obtain f where f: "Attach ''c'' 16 NewFanout = (Inr (), f)" "enqueue_all ''c'' [ex_ab] f = (None, ex_fanout [ex_ab] 0 2)"
    by (simp add: Attach_def NewFanout_def EnqueueOwned_def validOutputEvent_def insertEventLocked.simps
        sort_ring_def overflows_def enqueue_def ex_defs)
  have "Count NewFanout = 0" by (simp add: Count_def NewFanout_def)
  then show ?thesis by (simp add: attachLocked_def attach_replay_def r l f Let_def del: enqueue_all.simps)
qed

lemma ex_next: "Next ''c'' (ex_fanout [ex_ab, ex_cd] 0 4) = (Inr (Some ex_ab), ex_fanout [ex_cd] 2 4)"
  by (simp add: Next_def eventAtLocked_def sort_search_def search_loop.simps fanout_compactLocked_def ex_defs)

lemma ex_ab_data: "ev_data ex_ab = ''ab''" by (simp add: ex_ab_def)

lemma ex_delivery: "fold (session_exec 4 16) [SOut ''ab'', SAttach ''c'' 0, SOut ''cd'', SNext ''c''] (start_delivery ex_session) =
    ex_at [ex_ab, ex_cd] 4 (ex_fanout [ex_cd] 2 4) [(''c'', 0, ''ab'')]"
proof -
  have 1: "session_exec 4 16 (SOut ''ab'') (start_delivery ex_session) = ex_at [ex_ab] 2 NewFanout []"
    using ex_appends(1) ex_publishes(1)
    by (simp add: start_delivery_def capture_output_def ex_at_def ex_session_def ex_hist_def ex_consume)
  have 2: "session_exec 4 16 (SAttach ''c'' 0) (ex_at [ex_ab] 2 NewFanout []) = ex_at [ex_ab] 2 (ex_fanout [ex_ab] 0 2) [(''c'', 0, [])]"
    by (simp add: ex_at_def ex_attach note_attach_def)
  have 3: "session_exec 4 16 (SOut ''cd'') (ex_at [ex_ab] 2 (ex_fanout [ex_ab] 0 2) [(''c'', 0, [])]) =
      ex_at [ex_ab, ex_cd] 4 (ex_fanout [ex_ab, ex_cd] 0 4) [(''c'', 0, [])]"
    by (simp add: ex_at_def capture_output_def ex_consume ex_appends ex_publishes ex_session_def)
  have 4: "session_exec 4 16 (SNext ''c'') (ex_at [ex_ab, ex_cd] 4 (ex_fanout [ex_ab, ex_cd] 0 4) [(''c'', 0, [])]) =
      ex_at [ex_ab, ex_cd] 4 (ex_fanout [ex_cd] 2 4) [(''c'', 0, ''ab'')]"
    using ex_ab_data by (simp add: ex_at_def ex_next hand_over_def)
  show ?thesis by (simp only: fold.simps comp_apply id_apply 1 2 3 4)
qed

lemma ex_start: "fresh_session 8 ex_session" "queue_limit_ok 16"
  by (simp_all add: fresh_session_def New_def ex_session_def queue_limit_ok_def u64_size_def)

lemma ex_client: "map_of (fo_attachments (ms_fanout (dl_session (ex_at evs n (ex_fanout r i j) got)))) ''c'' = Some (ex_cursor i j)"
  "cu_state (ex_cursor i j) = Attached"
  by (simp_all add: ex_at_def ex_fanout_def ex_cursor_def)

lemma delivery_exact:
  assumes "delivery_inv B x" and "map_of (fo_attachments (ms_fanout (dl_session x))) a = Some c" and "cu_state c = Attached"
  shows "\<exists>start bs. map_of (dl_got x) a = Some (start, bs) \<and>
     bs = slice (payload (dl_log x)) start (start + length bs) \<and>
     start + length bs + cu_queued c = length (payload (dl_log x)) \<and> cu_queued c \<le> B \<and>
     (0 < cu_queued c \<longrightarrow> cu_has c \<and> cu_cursor c = start + length bs \<and> cu_cursor c < cu_end c) \<and>
     (cu_queued c = 0 \<longrightarrow> \<not> cu_has c \<or> cu_end c \<le> cu_cursor c)"
proof -
  note oi = delivery_output[OF assms(1)]
  note lat = output_latest[OF oi]
  obtain start bs where g: "cu_max c = B" "map_of (dl_got x) a = Some (start, bs)" "got_ok (dl_log x) c start bs"
    using delivery_client[OF assms] unfolding client_ok_def by blast
  have q: "cu_queued c \<le> B" "\<not> cu_has c \<Longrightarrow> cu_queued c = 0"
    "cu_has c \<Longrightarrow> cu_cursor c \<le> cu_end c \<and> cu_queued c = cu_end c - cu_cursor c"
    using oi assms(2,3) g(1) by (auto simp: output_inv_def fanout_inv_def cursor_ok_def)
  have e: "cu_has c \<Longrightarrow> cu_end c = length (payload (dl_log x))"
    using oi assms(2,3) lat by (auto simp: output_inv_def caught_up_def)
  show ?thesis
  proof (cases "cu_has c")
    case True
    have "length bs = cu_cursor c - start" "bs = slice (payload (dl_log x)) start (cu_cursor c)" "start \<le> cu_cursor c"
      using True g(3) q(3) e by (auto simp: got_ok_def slice_def)
    with True g(2) q e show ?thesis by (intro exI[of _ start] exI[of _ bs]) auto
  next
    case False
    with g q show ?thesis by (auto simp: got_ok_def slice_def)
  qed
qed

text \<open>
  C2. Delivery is exact. Whatever a session's process writes and its clients do, every client
  that is still attached has been handed exactly the output from the offset its attach announced:
  no byte lost, repeated or reordered. What it has not read yet is exactly its queue, which
  never exceeds the configured bound.
\<close>

theorem delivery_is_exact:
  assumes "fresh_session m s" and "queue_limit_ok B" and "x = fold (session_exec M B) ops (start_delivery s)"
    and "map_of (fo_attachments (ms_fanout (dl_session x))) a = Some c" and "cu_state c = Attached"
  shows "\<exists>start bs. map_of (dl_got x) a = Some (start, bs) \<and>
     bs = slice (payload (dl_log x)) start (start + length bs) \<and>
     start + length bs + cu_queued c = length (payload (dl_log x)) \<and> cu_queued c \<le> B"
  using delivery_exact[OF delivery_reachable[OF assms(1-3)] assms(4,5)] by blast

theorem delivery_is_exact_witness:
  "\<exists>start bs. map_of [(''c'', 0, ''ab'')] ''c'' = Some (start, bs) \<and>
     bs = slice ''abcd'' start (start + length bs) \<and> start + length bs + 2 = 4 \<and> (2::nat) \<le> 16"
  using delivery_is_exact[OF ex_start ex_delivery[symmetric] ex_client]
  by (simp add: ex_at_def ex_ab_def ex_cd_def ex_cursor_def)

text \<open>
  C16. Reading makes progress. For an attached client \<^verbatim>\<open>Next\<close> never reports an ordering error:
  with an empty queue it says so, and otherwise it returns the next bytes of the output, at least
  one of them, and the queue shrinks by exactly that many.
\<close>

theorem next_progresses:
  assumes "fresh_session m s" and "queue_limit_ok B" and "x = fold (session_exec M B) ops (start_delivery s)"
    and "map_of (fo_attachments (ms_fanout (dl_session x))) a = Some c" and "cu_state c = Attached"
  shows "if cu_queued c = 0 then Next a (ms_fanout (dl_session x)) = (Inr None, ms_fanout (dl_session x))
     else \<exists>e f c'. Next a (ms_fanout (dl_session x)) = (Inr (Some e), f) \<and> ev_data e \<noteq> [] \<and>
       ev_start e = length (payload (dl_log x)) - cu_queued c \<and>
       ev_data e = slice (payload (dl_log x)) (ev_start e) (ev_end e) \<and>
       map_of (fo_attachments f) a = Some c' \<and> cu_state c' = Attached \<and>
       cu_queued c' + length (ev_data e) = cu_queued c"
proof -
  note inv = delivery_reachable[OF assms(1-3)]
  note ex = delivery_exact[OF inv assms(4,5)]
  have o: "log_ok (dl_log x)" "fanout_inv (dl_log x) (ms_fanout (dl_session x))"
    using delivery_output[OF inv] by (simp_all add: output_inv_def)
  show ?thesis
  proof (cases "cu_queued c = 0")
    case True
    then show ?thesis using Next_empty[OF assms(4,5)] ex by auto
  next
    case False
    then have h: "cu_has c" "cu_cursor c < cu_end c" "cu_cursor c = length (payload (dl_log x)) - cu_queued c"
      using ex by auto
    have q: "cu_queued c = cu_end c - cu_cursor c"
      using o(2) assms(4,5) h(1) by (auto simp: fanout_inv_def cursor_ok_def)
    obtain e f where n: "Next a (ms_fanout (dl_session x)) = (Inr (Some e), f)" "piece_of (dl_log x) e"
      "ev_start e = cu_cursor c" "ev_end e \<le> cu_end c" "map_of (fo_attachments f) a = Some (c\<lparr>cu_cursor := ev_end e, cu_queued := cu_end c - ev_end e\<rparr>)"
      using Next_event[OF o assms(4,5) h(1,2)] by auto
    have d: "ev_data e \<noteq> []" "ev_end e = ev_start e + length (ev_data e)" using piece_fields[OF o(1) n(2)] by auto
    have "cu_end c - ev_end e + length (ev_data e) = cu_queued c" using d(2) n(3,4) q by simp
    then show ?thesis using False n(1,3,5) h(3) d(1) assms(5) piece_data[OF o(1) n(2)]
      unfolding if_not_P[OF False] by (intro exI[of _ e] exI[of _ f] exI conjI) (assumption | simp)+
  qed
qed

theorem next_progresses_witness:
  "\<exists>e f c'. Next ''c'' (ex_fanout [ex_cd] 2 4) = (Inr (Some e), f) \<and> ev_data e \<noteq> [] \<and> ev_start e = 2 \<and>
     map_of (fo_attachments f) ''c'' = Some c' \<and> cu_queued c' + length (ev_data e) = 2"
  using next_progresses[OF ex_start ex_delivery[symmetric] ex_client]
  by (auto simp: ex_at_def ex_ab_def ex_cd_def ex_cursor_def)

text \<open>
  C21. Attaching succeeds. Below the attachment limit, a new client that asks for a retained offset
  is attached. Its replay is the newest part of the output, from the requested offset when that
  fits into the replay limit, and all of it is queued for the client.
\<close>

theorem attach_succeeds:
  assumes "fresh_session m s" and "queue_limit_ok B" and "x = fold (session_exec M B) ops (start_delivery s)"
    and "Count (ms_fanout (dl_session x)) < M" and "a \<noteq> []" and "not_attached a (ms_fanout (dl_session x))"
    and "h_earliest (ms_history (dl_session x)) \<le> fr" and "fr \<le> h_latest (ms_history (dl_session x))"
  shows "\<exists>rp s' c. attachLocked M B a fr (dl_session x) = (Inr (snapshotLocked s', rp), s') \<and>
     rp_to rp = length (payload (dl_log x)) \<and> rp_to rp - rp_from rp \<le> attachmentReplayLimit B \<and>
     payload (rp_events rp) = slice (payload (dl_log x)) (rp_from rp) (rp_to rp) \<and>
     (if length (payload (dl_log x)) - fr \<le> attachmentReplayLimit B then rp_from rp = fr
      else rp_from rp = max (h_earliest (ms_history (dl_session x))) (rp_to rp - attachmentReplayLimit B)) \<and>
     map_of (fo_attachments (ms_fanout s')) a = Some c \<and> cu_state c = Attached \<and> cu_queued c = rp_to rp - rp_from rp"
proof -
  note inv = delivery_reachable[OF assms(1-3)]
  note lat = output_latest[OF delivery_output[OF inv]]
  have o: "log_ok (dl_log x)" "history_of (dl_log x) (ms_history (dl_session x))" "fanout_inv (dl_log x) (ms_fanout (dl_session x))"
    using delivery_output[OF inv] by (simp_all add: output_inv_def)
  have B: "0 < B" "B < u64_size" using assms(2) by (simp_all add: queue_limit_ok_def)
  obtain rp s' where r: "attachLocked M B a fr (dl_session x) = (Inr (snapshotLocked s', rp), s')"
    "attached_at (dl_log x) B a rp (dl_session x) s'"
    "rp_from rp = (if h_latest (ms_history (dl_session x)) - fr \<le> attachmentReplayLimit B then fr
       else max (h_earliest (ms_history (dl_session x))) (h_latest (ms_history (dl_session x)) - attachmentReplayLimit B))"
    using attachLocked_ok[OF o B assms(4-8)] by blast
  have "payload (rp_events rp) = slice (payload (dl_log x)) (rp_from rp) (length (payload (dl_log x)))"
    using r(2) lat by (auto simp: attached_at_def tail_replay_def)
  moreover obtain c where "map_of (fo_attachments (ms_fanout s')) a = Some c" "cu_state c = Attached"
    "cu_queued c = length (payload (dl_log x)) - rp_from rp"
    using attached_queue[OF r(2)] lat by auto
  moreover have "rp_to rp = length (payload (dl_log x))" "rp_to rp - rp_from rp \<le> attachmentReplayLimit B"
    using r(2) lat by (auto simp: attached_at_def tail_replay_def)
  ultimately show ?thesis using r(1,3) lat by auto
qed

theorem attach_succeeds_witness:
  "\<exists>rp s' c. attachLocked 4 16 ''d'' 1 (ex_session\<lparr>ms_history := ex_hist [ex_ab, ex_cd] 4, ms_fanout := ex_fanout [ex_cd] 2 4\<rparr>) =
       (Inr (snapshotLocked s', rp), s') \<and>
     rp_from rp = 1 \<and> payload (rp_events rp) = ''bcd'' \<and>
     map_of (fo_attachments (ms_fanout s')) ''d'' = Some c \<and> cu_queued c = 3"
proof -
  have "attachmentReplayLimit 16 = 8" by (simp add: attachmentReplayLimit_def initialReplayBytes_def)
  moreover have "Count (ex_fanout [ex_cd] 2 4) = 1" "not_attached ''d'' (ex_fanout [ex_cd] 2 4)"
    by (simp_all add: Count_def not_attached_def ex_fanout_def ex_cursor_def)
  moreover have "payload [ex_ab, ex_cd] = ''abcd''" "h_earliest (ex_hist [ex_ab, ex_cd] 4) = 0" "h_latest (ex_hist [ex_ab, ex_cd] 4) = 4"
    by (simp_all add: ex_ab_def ex_cd_def ex_hist_def)
  ultimately show ?thesis using attach_succeeds[OF ex_start ex_delivery[symmetric], of "''d''" 1]
    by (auto simp: ex_at_def slice_def)
qed

text \<open>
  C22. Only a client that falls behind is evicted. New output leaves a client attached exactly when
  its queue has room for it, and the output is then at the end of its queue.
\<close>

theorem eviction_exact:
  assumes "fresh_session m s" and "queue_limit_ok B" and "x = fold (session_exec M B) ops (start_delivery s)"
    and "map_of (fo_attachments (ms_fanout (dl_session x))) a = Some c" and "cu_state c = Attached"
    and "d \<noteq> []" and "length d \<le> u64_max - length (payload (dl_log x))"
  shows "\<exists>c'. map_of (fo_attachments (ms_fanout (capture_output d (dl_session x)))) a = Some c' \<and>
     (if cu_queued c + length d \<le> B then cu_state c' = Attached \<and> cu_queued c' = cu_queued c + length d
      else cu_state c' = Evicted \<and> cu_evicted c' = cu_queued c)"
proof -
  note inv = delivery_reachable[OF assms(1-3)]
  note oi = delivery_output[OF inv]
  note lat = output_latest[OF oi]
  let ?s = "dl_session x" and ?evs = "dl_log x"
  have h: "history_of ?evs (ms_history ?s)" and L: "log_ok ?evs" and f: "fanout_inv ?evs (ms_fanout ?s)"
    and cu: "caught_up (length (payload ?evs)) (ms_fanout ?s)" using oi lat by (simp_all add: output_inv_def)
  define e where "e = next_event CHR 0x01 d (ms_history ?s)"
  obtain h' where ap: "appendOwned CHR 0x01 d (ms_history ?s) = (Inr e, h')" and h': "history_of (?evs @ [e]) h'"
    using appendOwned_log[OF h assms(6), of "CHR 0x01"] assms(7) lat by (auto simp: e_def)
  have se: "ev_start e = length (payload ?evs)" "ev_data e = d" using lat by (simp_all add: e_def next_event_def)
  have L': "log_ok (?evs @ [e])" using history_log_ok[OF h'] L assms(6) se(2) by (auto simp: log_ok_def)
  have "map_of (fo_attachments (snd (PublishOwned e (ms_fanout ?s)))) a = Some (publish_one e c)"
    using PublishOwned_inv[OF L' f] cu se(1) assms(4) by auto
  then have look: "map_of (fo_attachments (ms_fanout (capture_output d ?s))) a = Some (publish_one e c)"
    using assms(6) ap by (simp add: capture_output_def Let_def)
  have c: "cursor_ok ?evs (fo_ring (ms_fanout ?s)) c" using f assms(4) by (simp add: fanout_inv_def)
  have B: "cu_max c = B" using delivery_client[OF inv assms(4,5)] by (simp add: client_ok_def)
  show ?thesis
    using look overflows_iff[OF c assms(5), of e] c assms(2,5) B se(2)
    by (auto simp: publish_one_def enqueue_fields evict_def u64 queue_limit_ok_def)
qed

theorem eviction_exact_witness:
  "\<exists>c'. map_of (fo_attachments (ms_fanout (capture_output ''0123456789ABCDE''
       (ex_session\<lparr>ms_history := ex_hist [ex_ab, ex_cd] 4, ms_fanout := ex_fanout [ex_cd] 2 4\<rparr>)))) ''c'' = Some c' \<and>
     cu_state c' = Evicted \<and> cu_evicted c' = 2"
  using eviction_exact[OF ex_start ex_delivery[symmetric] ex_client, of "''0123456789ABCDE''"]
  by (simp add: ex_at_def ex_ab_def ex_cd_def ex_cursor_def u64_max_def u64_size_def)

end
