(* ===== verification/Session_Manager.thy ===== *)
theory Session_Manager
  imports Session
begin

text \<open>
  The session manager, \<^verbatim>\<open>internal/hostruntime/session/manager.go\<close>: the sessions by id and by
  name, and the operations on their life cycle, processes, input and stored records. What the
  environment does is an argument of each operation: which database calls fail
  (\<open>fault k\<close> for the \<open>k\<close>-th), what a process answers, which random identifiers come up. A session's
  operations hold its lock from end to end, so each is one step.
\<close>

section \<open>Configuration\<close>

record manager_config =
  cf_launch :: bool
  cf_history :: nat
  cf_attachment :: nat
  cf_timeout :: int
  cf_grace :: int
  cf_maxSessions :: int
  cf_maxAttachments :: int
  cf_maxInputs :: int
  cf_signal :: string

definition config_defaults :: "manager_config \<Rightarrow> manager_config" where
  "config_defaults c =
     \<lparr>cf_launch = cf_launch c,
      cf_history = (if cf_history c = 0 then 64 * 1024 else cf_history c),
      cf_attachment = (if cf_attachment c = 0 then 1024 * 1024 else cf_attachment c),
      cf_timeout = (if cf_timeout c = 0 then 10 * 1000000000 else cf_timeout c),
      cf_grace = (if cf_grace c = 0 then 2 * 1000000000 else cf_grace c),
      cf_maxSessions = (if cf_maxSessions c = 0 then 20 else cf_maxSessions c),
      cf_maxAttachments = (if cf_maxAttachments c = 0 then 16 else cf_maxAttachments c),
      cf_maxInputs = (if cf_maxInputs c = 0 then 10000 else cf_maxInputs c),
      cf_signal = (if cf_signal c = [] then ''runtime_restart'' else cf_signal c)\<rparr>"

definition config_ok :: "manager_config \<Rightarrow> bool" where
  "config_ok c \<longleftrightarrow>
     1 \<le> cf_history c \<and> 1 \<le> cf_attachment c \<and> 0 < cf_timeout c \<and> 0 \<le> cf_grace c \<and>
     cf_grace c \<le> cf_timeout c \<and> 1 \<le> cf_maxSessions c \<and> 1 \<le> cf_maxAttachments c \<and> 1 \<le> cf_maxInputs c \<and>
     (cf_signal c = ''runtime_restart'' \<or> cf_signal c = ''machine_reboot'')"

record manager =
  mg_config :: manager_config
  mg_sessions :: "(string \<times> managedSession) list"
  mg_names :: "(string \<times> string) list"
  mg_stopping :: bool
  mg_store :: "store option"

section \<open>Stored records\<close>

definition storeRecordLocked :: "managedSession \<Rightarrow> session_row" where
  "storeRecordLocked s =
     (let p = snapshotLocked s
      in \<lparr>sn_id = sp_id p, sn_name = sp_name p, sn_cwd = sp_cwd p, sn_path = cm_path (ms_command s),
          sn_args = cm_args (ms_command s), sn_env = cm_env (ms_command s),
          sn_columns = sp_columns p, sn_rows = sp_rows p, sn_state = state_string (sp_state p),
          sn_generation = sp_generation p, sn_exit_code = map_option xr_code (sp_exit p),
          sn_exit_signal = (case sp_exit p of None \<Rightarrow> [] | Some x \<Rightarrow> xr_signal x),
          sn_exited_at = map_option xr_at (sp_exit p),
          sn_earliest = sp_earliest p, sn_latest = sp_latest p\<rparr>)"

text \<open>A store that is not configured accepts every update; \<open>update_row\<close> is the call shared below.\<close>

definition update_row :: "bool \<Rightarrow> state \<Rightarrow> session_row \<Rightarrow> store option \<Rightarrow> manager_error option \<times> store option" where
  "update_row fault expected r ost =
     (case ost of
        None \<Rightarrow> (None, None)
      | Some st \<Rightarrow>
          (case UpdateSession fault (sn_id r) (state_string expected) r st of
             (Inl e, st') \<Rightarrow> (Some (StoreError e), Some st')
           | (Inr _, st') \<Rightarrow> (None, Some st')))"

definition persist :: "bool \<Rightarrow> state \<Rightarrow> managedSession \<Rightarrow> store option \<Rightarrow> manager_error option \<times> store option" where
  "persist fault expected s ost = update_row fault expected (storeRecordLocked s) ost"

definition delete_row :: "bool \<Rightarrow> string \<Rightarrow> store option \<Rightarrow> manager_error option \<times> store option" where
  "delete_row fault i ost =
     (case ost of
        None \<Rightarrow> (None, None)
      | Some st \<Rightarrow>
          (case DeleteSession fault i st of
             (Inl e, st') \<Rightarrow> (Some (StoreError e), Some st')
           | (Inr _, st') \<Rightarrow> (None, Some st')))"

definition discardFailedCreate :: "bool \<Rightarrow> bool \<Rightarrow> managedSession \<Rightarrow> store option \<Rightarrow> store option" where
  "discardFailedCreate fault1 fault2 s ost =
     snd (delete_row fault2 (ms_id s) (snd (persist fault1 Creating s ost)))"

text \<open>A transition whose error is returned, and one whose error is dropped.\<close>

definition move :: "state \<Rightarrow> managedSession \<Rightarrow> manager_error + managedSession" where
  "move to s =
     (case Transition to (ms_lifecycle s) of
        Inl e \<Rightarrow> Inl (LifecycleError e)
      | Inr l \<Rightarrow> Inr (s\<lparr>ms_lifecycle := l\<rparr>))"

definition try_move :: "state \<Rightarrow> managedSession \<Rightarrow> managedSession" where
  "try_move to s = (case move to s of Inl _ \<Rightarrow> s | Inr s' \<Rightarrow> s')"

section \<open>Output persistence\<close>

definition startOutputPersistence :: "store option \<Rightarrow> managedSession \<Rightarrow> managedSession" where
  "startOutputPersistence ost s =
     (if ost = None then s else s\<lparr>ms_worker := Working, ms_persistErr := None\<rparr>)"

text \<open>
  Stopping a running worker makes it flush once more. No output arrives meanwhile, so the first
  pass of the flush is its last (\<open>flush_pass_settles\<close> below).
\<close>

definition stopOutputPersistence ::
  "manager_config \<Rightarrow> (nat \<Rightarrow> bool) \<Rightarrow> managedSession \<Rightarrow> store option \<Rightarrow> flush_result option \<times> managedSession \<times> store option" where
  "stopOutputPersistence c flush_fault s ost =
     (case (ms_worker s, ost) of
        (Working, Some st) \<Rightarrow>
          (case flush_pass flush_fault (ms_id s) (cf_history c) (ms_history s) (ms_history s) st of
             (r, st') \<Rightarrow> (if r = Done then None else Some r, s\<lparr>ms_worker := NoWorker\<rparr>, Some st'))
      | (Failed r, _) \<Rightarrow> (Some r, s\<lparr>ms_worker := NoWorker\<rparr>, ost)
      | _ \<Rightarrow> (None, s, ost))"

text \<open>A pass of the worker's own flush, with the output \<open>outs\<close> that arrives while it runs.\<close>

definition worker_flush ::
  "manager_config \<Rightarrow> (nat \<Rightarrow> bool) \<Rightarrow> bytes list \<Rightarrow> managedSession \<Rightarrow> store option \<Rightarrow> managedSession \<times> store option" where
  "worker_flush c flush_fault outs s ost =
     (case (ms_worker s, ost) of
        (Working, Some st) \<Rightarrow>
          (let s' = fold capture_output outs s
           in case flush_pass flush_fault (ms_id s) (cf_history c) (ms_history s) (ms_history s') st of
                (r, st') \<Rightarrow> (if r = Done \<or> r = Again then s' else s'\<lparr>ms_worker := Failed r\<rparr>, Some st'))
      | _ \<Rightarrow> (s, ost))"

section \<open>Input\<close>

fun format_uint :: "nat \<Rightarrow> string" where
  "format_uint n = (if n < 10 then [char_of (48 + n)] else format_uint (n div 10) @ [char_of (48 + n mod 10)])"

declare format_uint.simps [simp del]

definition inputStorageID :: "inputKey \<Rightarrow> string" where
  "inputStorageID k = (if ik_sequence k \<noteq> 0 then format_uint (ik_sequence k) else ik_id k)"

fun status_string :: "inputStatus \<Rightarrow> string" where
  "status_string InputAccepted = ''accepted''"
| "status_string InputDuplicate = ''duplicate''"
| "status_string InputRejected = ''rejected''"
| "status_string InputUncertain = ''uncertain''"

definition decision_row :: "string \<Rightarrow> inputKey \<Rightarrow> bytes \<Rightarrow> inputStatus \<Rightarrow> int \<Rightarrow> string \<Rightarrow> input_row" where
  "decision_row i k hash status n code =
     \<lparr>ir_session = i, ir_client = ik_client k, ir_attachment = ik_attachment k, ir_generation = ik_generation k,
      ir_input = inputStorageID k, ir_hash = hash, ir_status = status_string status, ir_bytes = n, ir_error = code\<rparr>"

definition attached_now :: "string \<Rightarrow> managedSession \<Rightarrow> bool" where
  "attached_now a s \<longleftrightarrow> (case Status a (ms_fanout s) of Inr (Attached, _) \<Rightarrow> True | _ \<Rightarrow> False)"

text \<open>
  \<^verbatim>\<open>Write\<close> on a found session: the answer as the decision and the error that the code returns
  together, then what reached the process. \<open>w\<close> is what the process makes of the data.
\<close>

definition session_Write ::
  "(bytes \<Rightarrow> bytes) \<Rightarrow> (nat \<Rightarrow> bool) \<Rightarrow> (bytes \<Rightarrow> int \<times> bool) \<Rightarrow> inputKey \<Rightarrow> bytes \<Rightarrow> managedSession \<Rightarrow> store option \<Rightarrow>
     (inputDecision option \<times> manager_error option) \<times> bytes list \<times> managedSession \<times> store option" where
  "session_Write sha fault w key0 data s ost =
     (let (st, generation) = Snapshot (ms_lifecycle s); key = fst (normalizeInputKey key0);
          write = (case journal_Write sha key data (Some w) (ms_inputs s) of (r, out, j) \<Rightarrow> (r, out, s\<lparr>ms_inputs := j\<rparr>))
      in if st \<noteq> Running \<or> ms_process s = None \<or> ik_generation key0 \<noteq> generation
         then ((None, Some (InputError (StaleGenerationError generation))), [], s, ost)
         else if \<not> attached_now (ik_attachment key0) s then ((None, Some (InputError ErrInvalidInput)), [], s, ost)
         else case Query key (ms_inputs s) of
           Inr _ \<Rightarrow>
             (case write of
                (Inl e, out, s') \<Rightarrow> ((None, Some (InputError e)), out, s', ost)
              | (Inr d, out, s') \<Rightarrow> ((Some d, None), out, s', ost))
         | Inl _ \<Rightarrow>
             (case Admit key (ms_inputs s) of
                Some e \<Rightarrow> ((None, Some (InputError e)), [], s, ost)
              | None \<Rightarrow>
                  (case (case ost of
                           None \<Rightarrow> (Inr True, None)
                         | Some db \<Rightarrow>
                             (case PutInputDecision (fault 0) (decision_row (ms_id s) key (sha data) InputUncertain 0 []) db of
                                (r, db') \<Rightarrow> (r, Some db'))) of
                     (Inl e, ost1) \<Rightarrow> ((None, Some (StoreError e)), [], s, ost1)
                   | (Inr False, ost1) \<Rightarrow> ((None, Some (InputError ErrInputConflict)), [], s, ost1)
                   | (Inr True, ost1) \<Rightarrow>
                       (case write of
                          (Inl e, out, s') \<Rightarrow> ((None, Some (InputError e)), out, s', ost1)
                        | (Inr d, out, s') \<Rightarrow>
                            (case ost1 of
                               None \<Rightarrow> ((Some d, None), out, s', None)
                             | Some db \<Rightarrow>
                                 (case UpdateInputDecision (fault 1)
                                         (decision_row (ms_id s) key (sha data) (id_status d) (id_bytes d) (id_error d)) db of
                                    (Inl e, db') \<Rightarrow>
                                      ((Some (d\<lparr>id_status := InputUncertain, id_error := ''decision_persist_failed''\<rparr>),
                                        Some (StoreError e)), out, s', Some db')
                                  | (Inr _, db') \<Rightarrow> ((Some d, None), out, s', Some db')))))))"

definition session_WriteStream ::
  "(bytes \<Rightarrow> int \<times> bool) \<Rightarrow> string \<Rightarrow> nat \<Rightarrow> bytes \<Rightarrow> managedSession \<Rightarrow> manager_error option \<times> (nat \<times> bytes) list" where
  "session_WriteStream w a generation data s =
     (case ms_live s of
        None \<Rightarrow> (Some (InputError (StaleGenerationError (snd (Snapshot (ms_lifecycle s))))), [])
      | Some (p, g) \<Rightarrow>
          if generation \<noteq> g
          then (Some (InputError (StaleGenerationError (snd (Snapshot (ms_lifecycle s))))), [])
          else if \<not> IsAttached a (ms_fanout s) then (Some (InputError ErrInvalidInput), [])
          else let (n, err) = w data
               in (if err then Some ProcessError else if n \<noteq> int (length data) then Some ErrShortWrite else None,
                   [(p, data)]))"

section \<open>Processes\<close>

definition validDimensions :: "nat \<Rightarrow> nat \<Rightarrow> bool" where
  "validDimensions columns rows \<longleftrightarrow> 1 \<le> columns \<and> columns \<le> 1000 \<and> 1 \<le> rows \<and> rows \<le> 1000"

definition session_Resize ::
  "bool \<Rightarrow> bool \<Rightarrow> string \<Rightarrow> nat \<Rightarrow> nat \<Rightarrow> int \<Rightarrow> managedSession \<Rightarrow> store option \<Rightarrow>
     manager_error option \<times> managedSession \<times> store option" where
  "session_Resize set_fails fault a columns rows at_time s ost =
     (if \<not> attached_now a s \<or> ms_process s = None then (Some (InputError ErrInvalidInput), s, ost)
      else if at_time < ms_resizeTime s \<or> at_time = ms_resizeTime s \<and> string_key a < string_key (ms_resizeID s)
      then (None, s, ost)
      else if \<not> validDimensions columns rows \<or> set_fails then (Some ProcessError, s, ost)
      else let s' = s\<lparr>ms_resizeID := a, ms_resizeTime := at_time,
                      ms_command := (ms_command s)\<lparr>cm_columns := columns, cm_rows := rows\<rparr>\<rparr>
           in case persist fault (fst (Snapshot (ms_lifecycle s'))) s' ost of (e, ost') \<Rightarrow> (e, s', ost'))"

definition session_Signal :: "bool \<Rightarrow> nat \<Rightarrow> managedSession \<Rightarrow> manager_error option" where
  "session_Signal fails generation s =
     (let (st, current) = Snapshot (ms_lifecycle s)
      in if st \<noteq> Running \<or> generation \<noteq> current \<or> ms_process s = None then Some ErrStaleGeneration
         else if fails then Some ProcessError else None)"

definition session_Clear :: "bool \<Rightarrow> managedSession \<Rightarrow> store option \<Rightarrow> (manager_error + nat) \<times> managedSession \<times> store option" where
  "session_Clear fault s ost =
     (case ost of
        None \<Rightarrow> (let (n, h) = Clear (ms_history s) in (Inr n, s\<lparr>ms_history := h\<rparr>, None))
      | Some st \<Rightarrow>
          (case Manager_Clear fault (ms_id s) (ms_history s) st of
             (Inl e, h, st') \<Rightarrow> (Inl (StoreError e), s\<lparr>ms_history := h\<rparr>, Some st')
           | (Inr n, h, st') \<Rightarrow> (Inr n, s\<lparr>ms_history := h\<rparr>, Some st')))"

section \<open>Life cycle\<close>

text \<open>
  How \<^verbatim>\<open>Terminate\<close> ends: the process exited, its context ended first, or it reported another error
  with the exit result it has.
\<close>

datatype terminate_result = Exits exit_result | TimesOut | Errs exit_result

record close_env =
  ce_flush :: "nat \<Rightarrow> bool"
  ce_fault :: "nat \<Rightarrow> bool"
  ce_kill :: exit_result
  ce_terminate :: terminate_result

text \<open>The answer of \<^verbatim>\<open>Close\<close> is a snapshot or none with the errors it joins, in order.\<close>

type_synonym close_result = "snapshot option \<times> manager_error list"

definition finish_close :: "close_env \<Rightarrow> managedSession \<Rightarrow> store option \<Rightarrow> close_result \<times> managedSession \<times> store option" where
  "finish_close env s ost =
     (let closed = (\<lambda>x errs.
        let s1 = s\<lparr>ms_live := None, ms_exit := Some x, ms_process := None\<rparr>
        in case move Closed s1 of
             Inl e \<Rightarrow> ((None, errs @ [e]), s1, ost)
           | Inr s2 \<Rightarrow>
               (case persist (ce_fault env 1) Closing s2 ost of
                  (Some e, ost') \<Rightarrow> ((None, errs @ [e]), s2, ost')
                | (None, ost') \<Rightarrow> ((Some (snapshotLocked s2), errs), s2, ost')))
      in case ce_terminate env of
           TimesOut \<Rightarrow> ((Some (snapshotLocked s), [ErrContext]), s, ost)
         | Exits x \<Rightarrow> closed x []
         | Errs x \<Rightarrow> closed x [ProcessError])"

definition session_Close ::
  "manager_config \<Rightarrow> close_env \<Rightarrow> managedSession \<Rightarrow> store option \<Rightarrow> close_result \<times> managedSession \<times> store option" where
  "session_Close c env s ost =
     (case fst (Snapshot (ms_lifecycle s)) of
        Closed \<Rightarrow> ((Some (snapshotLocked s), []), s, ost)
      | Exited \<Rightarrow>
          (case move Closing s of
             Inl e \<Rightarrow> ((None, [e]), s, ost)
           | Inr s1 \<Rightarrow>
               (case move Closed s1 of
                  Inl e \<Rightarrow> ((None, [e]), s1, ost)
                | Inr s2 \<Rightarrow>
                    (case persist (ce_fault env 0) Exited s2 ost of
                       (Some e, ost') \<Rightarrow> ((None, [e]), s2, ost')
                     | (None, ost') \<Rightarrow> ((Some (snapshotLocked s2), []), s2, ost'))))
      | Running \<Rightarrow>
          if ms_process s = None then ((None, [ErrSessionRunning]), s, ost)
          else
            (let s0 = s\<lparr>ms_live := None\<rparr>
             in case move Closing s0 of
                  Inl e \<Rightarrow> ((None, [e]), s0, ost)
                | Inr s1 \<Rightarrow>
                    (case stopOutputPersistence c (ce_flush env) s1 ost of
                       (Some r, s2, ost1) \<Rightarrow> ((None, [PersistError r]), s2, ost1)
                     | (None, s2, ost1) \<Rightarrow>
                         (case persist (ce_fault env 0) Running s2 ost1 of
                            (Some e, ost2) \<Rightarrow>
                              ((None, [e]),
                               try_move Closed (s2\<lparr>ms_exit := Some (ce_kill env), ms_process := None\<rparr>), ost2)
                          | (None, ost2) \<Rightarrow> finish_close env s2 ost2)))
      | Closing \<Rightarrow>
          if ms_process s = None then ((None, [ErrSessionRunning]), s, ost) else finish_close env s ost
      | _ \<Rightarrow> ((None, [ErrSessionRunning]), s, ost))"

text \<open>The goroutine that \<^verbatim>\<open>Close\<close> leaves behind when the process outlives its context.\<close>

definition finishClosing :: "bool \<Rightarrow> terminate_result \<Rightarrow> nat \<Rightarrow> managedSession \<Rightarrow> store option \<Rightarrow> managedSession \<times> store option" where
  "finishClosing fault t p s ost =
     (if fst (Snapshot (ms_lifecycle s)) \<noteq> Closing \<or> ms_process s \<noteq> Some p then (s, ost)
      else case t of
        Exits x \<Rightarrow>
          (let s1 = s\<lparr>ms_exit := Some x, ms_process := None\<rparr>
           in case move Closed s1 of
                Inl _ \<Rightarrow> (s1, ost)
              | Inr s2 \<Rightarrow> (s2, snd (persist fault Closing s2 ost)))
      | _ \<Rightarrow> (s, ost))"

definition session_Restart ::
  "(nat \<Rightarrow> bool) \<Rightarrow> nat option \<Rightarrow> managedSession \<Rightarrow> store option \<Rightarrow> (manager_error + snapshot) \<times> managedSession \<times> store option" where
  "session_Restart fault launch s ost =
     (let st = fst (Snapshot (ms_lifecycle s))
      in if st \<noteq> Exited \<and> st \<noteq> Closed then (Inl ErrSessionRunning, s, ost)
         else case move Restarting s of
           Inl e \<Rightarrow> (Inl e, s, ost)
         | Inr s1 \<Rightarrow>
             (case persist (fault 0) st s1 ost of
                (Some e, ost1) \<Rightarrow> (Inl e, try_move Closed s1, ost1)
              | (None, ost1) \<Rightarrow>
                  (case launch of
                     None \<Rightarrow>
                       (let s2 = try_move Closed s1
                        in (Inl ProcessError, s2, snd (persist (fault 1) Restarting s2 ost1)))
                   | Some p \<Rightarrow>
                       (case move Running s1 of
                          Inl e \<Rightarrow> (Inl e, s1, ost1)
                        | Inr s2 \<Rightarrow>
                            (let g = snd (Snapshot (ms_lifecycle s2));
                                 s3 = startOutputPersistence ost1
                                        (s2\<lparr>ms_inputs := SetGeneration g (ms_inputs s2), ms_process := Some p,
                                            ms_exit := None, ms_live := Some (p, g)\<rparr>)
                             in case persist (fault 1) Restarting s3 ost1 of
                                  (Some e, ost2) \<Rightarrow>
                                    (Inl e, try_move Exited (s3\<lparr>ms_live := None, ms_process := None\<rparr>), ost2)
                                | (None, ost2) \<Rightarrow> (Inr (snapshotLocked s3), s3, ost2))))))"

text \<open>
  The end of \<^verbatim>\<open>capture\<close>, when a process's output ends: it stops the persistence worker, then takes
  the session's lock to record the exit. Other operations can come between the two.
\<close>

definition capture_exit ::
  "bool \<Rightarrow> flush_result option \<Rightarrow> exit_result \<Rightarrow> nat \<Rightarrow> managedSession \<Rightarrow> store option \<Rightarrow> managedSession \<times> store option" where
  "capture_exit fault persistErr x p s ost =
     (if ms_process s \<noteq> Some p then (s, ost)
      else let s1 = s\<lparr>ms_persistErr := persistErr\<rparr>
           in if fst (Snapshot (ms_lifecycle s1)) \<noteq> Running then (s1, ost)
              else let s2 = (try_move Exited s1)\<lparr>ms_exit := Some x, ms_live := None, ms_process := None\<rparr>
                   in (s2, snd (persist fault Running s2 ost)))"

section \<open>The manager\<close>

definition validSessionName :: "string \<Rightarrow> bool" where
  "validSessionName name \<longleftrightarrow>
     1 \<le> length name \<and> length name \<le> 64 \<and>
     list_all (\<lambda>ch. between CHR ''a'' CHR ''z'' ch \<or> between CHR ''0'' CHR ''9'' ch \<or> ch = CHR ''-'' \<or> ch = CHR ''_'') name \<and>
     hd name \<noteq> CHR ''-''"

text \<open>An operation on the session with an id, which it may change together with the store.\<close>

definition on_session ::
  "string \<Rightarrow> (manager_error \<Rightarrow> 'a) \<Rightarrow> (managedSession \<Rightarrow> store option \<Rightarrow> 'a \<times> managedSession \<times> store option) \<Rightarrow>
     manager \<Rightarrow> 'a \<times> manager" where
  "on_session i unknown f m =
     (case map_of (mg_sessions m) i of
        None \<Rightarrow> (unknown ErrSessionUnknown, m)
      | Some s \<Rightarrow>
          (case f s (mg_store m) of
             (r, s', ost) \<Rightarrow> (r, m\<lparr>mg_sessions := AList.update i s' (mg_sessions m), mg_store := ost\<rparr>)))"

definition hex_digit :: "nat \<Rightarrow> char" where
  "hex_digit n = (if n < 10 then char_of (48 + n) else char_of (87 + n))"

definition randomID :: "bytes \<Rightarrow> string" where
  "randomID bs = ''ses_'' @ concat (map (\<lambda>b. [hex_digit (of_char b div 16), hex_digit (of_char b mod 16)]) bs)"

text \<open>
  The attempts of \<^verbatim>\<open>Create\<close> to draw an unused id; \<open>random k\<close> is the \<open>k\<close>-th block of random bytes,
  \<^const>\<open>None\<close> for a failed read.
\<close>

fun draw_id :: "nat \<Rightarrow> nat \<Rightarrow> (nat \<Rightarrow> bytes option) \<Rightarrow> (string \<times> managedSession) list \<Rightarrow> manager_error + string" where
  "draw_id 0 k random ss = Inl ErrSessionExists"
| "draw_id (Suc n) k random ss =
     (case random k of
        None \<Rightarrow> Inl ErrRandom
      | Some bs \<Rightarrow>
          if map_of ss (randomID bs) = None then Inr (randomID bs) else draw_id n (Suc k) random ss)"

record create_env =
  cr_canceled :: bool
  cr_random :: "nat \<Rightarrow> bytes option"
  cr_fault :: "nat \<Rightarrow> bool"
  cr_launch :: "nat option"

text \<open>What the code would leave of a history if its limit were not positive, which \<open>config_ok\<close> excludes.\<close>

definition zero_history :: history where
  "zero_history = \<lparr>h_max = 0, h_bytes = 0, h_earliest = 0, h_latest = 0, h_events = [], h_head = 0, h_acks = []\<rparr>"

definition new_session :: "manager_config \<Rightarrow> string \<Rightarrow> string \<Rightarrow> command \<Rightarrow> managedSession" where
  "new_session c i name cmd =
     \<lparr>ms_id = i, ms_name = name, ms_command = cmd, ms_lifecycle = NewLifecycle,
      ms_history = (case New (cf_history c) of Inr h \<Rightarrow> h | Inl _ \<Rightarrow> zero_history), ms_fanout = NewFanout,
      ms_inputs = NewBoundedInputJournal 0 (cf_maxInputs c), ms_process = None, ms_exit = None,
      ms_resizeID = [], ms_resizeTime = 0, ms_live = None,
      ms_modes = \<lparr>tm_modes = zero_modes, tm_tail = []\<rparr>, ms_worker = NoWorker, ms_persistErr = None\<rparr>"

definition created_row :: "string \<Rightarrow> string \<Rightarrow> command \<Rightarrow> session_row" where
  "created_row i name cmd =
     \<lparr>sn_id = i, sn_name = name, sn_cwd = cm_cwd cmd, sn_path = cm_path cmd, sn_args = cm_args cmd, sn_env = cm_env cmd,
      sn_columns = cm_columns cmd, sn_rows = cm_rows cmd, sn_state = state_string Creating, sn_generation = 0,
      sn_exit_code = None, sn_exit_signal = [], sn_exited_at = None, sn_earliest = 0, sn_latest = 0\<rparr>"

definition insert_row :: "bool \<Rightarrow> session_row \<Rightarrow> store option \<Rightarrow> manager_error option \<times> store option" where
  "insert_row fault r ost =
     (case ost of
        None \<Rightarrow> (None, None)
      | Some st \<Rightarrow>
          (case CreateSession fault r st of
             (Inl e, st') \<Rightarrow> (Some (StoreError e), Some st')
           | (Inr _, st') \<Rightarrow> (None, Some st')))"

text \<open>\<^verbatim>\<open>Create\<close> from the launch of the process on, with the session's row in the store.\<close>

definition launch_session ::
  "create_env \<Rightarrow> managedSession \<Rightarrow> store option \<Rightarrow> (manager_error + managedSession) \<times> store option" where
  "launch_session env s ost =
     (case cr_launch env of
        None \<Rightarrow> (Inl ProcessError, discardFailedCreate (cr_fault env 1) (cr_fault env 2) (try_move Closed s) ost)
      | Some p \<Rightarrow>
          (case move Running s of
             Inl e \<Rightarrow> (Inl e, ost)
           | Inr s1 \<Rightarrow>
               (case persist (cr_fault env 1) Creating s1 ost of
                  (Some e, ost1) \<Rightarrow> (Inl e, discardFailedCreate (cr_fault env 2) (cr_fault env 3) s1 ost1)
                | (None, ost1) \<Rightarrow>
                    (let g = snd (Snapshot (ms_lifecycle s1))
                     in (Inr (startOutputPersistence ost1
                           (s1\<lparr>ms_inputs := NewBoundedInputJournal g (j_max (ms_inputs s1)),
                               ms_process := Some p, ms_live := Some (p, g)\<rparr>)), ost1)))))"

definition Create ::
  "create_env \<Rightarrow> string \<Rightarrow> string \<Rightarrow> command \<Rightarrow> manager \<Rightarrow> (manager_error + snapshot) \<times> manager" where
  "Create env requestID name cmd m =
     (if \<not> validSessionName name then (Inl ErrInvalidManagedSession, m)
      else if cr_canceled env then (Inl ErrContext, m)
      else if mg_stopping m then (Inl ErrManagerStopped, m)
      else if cf_maxSessions (mg_config m) \<le> int (length (mg_sessions m)) then (Inl ErrResourceLimit, m)
      else if map_of (mg_names m) name \<noteq> None then (Inl ErrSessionExists, m)
      else if requestID \<noteq> [] \<and> map_of (mg_sessions m) requestID \<noteq> None then (Inl ErrSessionExists, m)
      else case (if requestID \<noteq> [] then Inr requestID else draw_id 8 0 (cr_random env) (mg_sessions m)) of
        Inl e \<Rightarrow> (Inl e, m)
      | Inr i \<Rightarrow>
          (let s = new_session (mg_config m) i name cmd
           in case insert_row (cr_fault env 0) (created_row i name cmd) (mg_store m) of
                (Some e, ost) \<Rightarrow> (Inl e, m\<lparr>mg_store := ost\<rparr>)
              | (None, ost) \<Rightarrow>
                  (case launch_session env s ost of
                     (Inl e, ost') \<Rightarrow> (Inl e, m\<lparr>mg_store := ost'\<rparr>)
                   | (Inr s', ost') \<Rightarrow>
                       (Inr (snapshotLocked s'),
                        m\<lparr>mg_store := ost', mg_sessions := AList.update i s' (mg_sessions m),
                          mg_names := AList.update name i (mg_names m)\<rparr>))))"

section \<open>Deletion and shutdown\<close>

text \<open>The last part of \<^verbatim>\<open>Delete\<close>, once the session has ended.\<close>

definition delete_ended :: "bool \<Rightarrow> string \<Rightarrow> manager \<Rightarrow> manager_error option \<times> manager" where
  "delete_ended fault i m =
     (case map_of (mg_sessions m) i of
        None \<Rightarrow> (Some ErrSessionUnknown, m)
      | Some s \<Rightarrow>
          (let st = fst (Snapshot (ms_lifecycle s))
           in if st \<noteq> Exited \<and> st \<noteq> Closed then (Some ErrSessionRunning, m)
              else case delete_row fault i (mg_store m) of
                (Some e, ost) \<Rightarrow> (Some e, m\<lparr>mg_store := ost\<rparr>)
              | (None, ost) \<Rightarrow>
                  (case move Deleted s of
                     Inl e \<Rightarrow> (Some e, m\<lparr>mg_store := ost\<rparr>)
                   | Inr _ \<Rightarrow>
                       (None, m\<lparr>mg_store := ost, mg_sessions := AList.delete i (mg_sessions m),
                                mg_names := AList.delete (ms_name s) (mg_names m)\<rparr>))))"

definition Close :: "bool \<Rightarrow> close_env \<Rightarrow> string \<Rightarrow> manager \<Rightarrow> close_result \<times> manager" where
  "Close canceled env i m =
     (if canceled then ((None, [ErrContext]), m)
      else on_session i (\<lambda>e. (None, [e])) (session_Close (mg_config m) env) m)"

definition Delete :: "bool \<Rightarrow> close_env \<Rightarrow> string \<Rightarrow> manager \<Rightarrow> manager_error list \<times> manager" where
  "Delete fault env i m =
     (case map_of (mg_sessions m) i of
        None \<Rightarrow> ([ErrSessionUnknown], m)
      | Some s \<Rightarrow>
          (let st = fst (Snapshot (ms_lifecycle s));
               (errs, m1) = (if st \<noteq> Exited \<and> st \<noteq> Closed
                             then (case Close False env i m of ((_, errs), m1) \<Rightarrow> (errs, m1)) else ([], m))
           in if errs \<noteq> [] then (errs, m1)
              else (case delete_ended fault i m1 of (e, m2) \<Rightarrow> (case e of None \<Rightarrow> [] | Some x \<Rightarrow> [x], m2))))"

text \<open>
  \<^verbatim>\<open>Shutdown\<close> closes all sessions at once; \<open>order\<close> is the order in which their closings take effect
  and \<open>waited\<close> how many results arrive before the context ends, if it does.
\<close>

fun close_all :: "bool \<Rightarrow> (string \<Rightarrow> close_env) \<Rightarrow> string list \<Rightarrow> manager \<Rightarrow> manager_error list list \<times> manager" where
  "close_all canceled env [] m = ([], m)"
| "close_all canceled env (i # is) m =
     (case Close canceled (env i) i m of
        ((_, errs), m1) \<Rightarrow> (case close_all canceled env is m1 of (r, m2) \<Rightarrow> (errs # r, m2)))"

definition Shutdown ::
  "bool \<Rightarrow> (string \<Rightarrow> close_env) \<Rightarrow> string list \<Rightarrow> nat option \<Rightarrow> manager \<Rightarrow> manager_error list \<times> manager" where
  "Shutdown canceled env order waited m =
     (if mg_stopping m then ([], m)
      else case close_all canceled env order (m\<lparr>mg_stopping := True\<rparr>) of
        (results, m') \<Rightarrow>
          (let joined = (\<lambda>rs. concat (filter (\<lambda>errs. ErrSessionRunning \<notin> set errs) rs))
           in (case waited of None \<Rightarrow> joined results | Some n \<Rightarrow> joined (take n results) @ [ErrContext], m')))"

text \<open>The record that \<^verbatim>\<open>ShutdownForRecovery\<close> stores for a session that was live.\<close>

definition recoverable_row :: "state \<Rightarrow> managedSession \<Rightarrow> session_row" where
  "recoverable_row original s =
     (storeRecordLocked s)\<lparr>sn_state := state_string original, sn_exit_code := None, sn_exit_signal := [],
                           sn_exited_at := None\<rparr>"

fun restore_rows :: "(nat \<Rightarrow> bool) \<Rightarrow> nat \<Rightarrow> (string \<times> state) list \<Rightarrow> manager \<Rightarrow> manager_error list \<times> manager" where
  "restore_rows fault k [] m = ([], m)"
| "restore_rows fault k ((i, original) # rest) m =
     (let (errs, m1) =
        (case map_of (mg_sessions m) i of
           None \<Rightarrow> ([ErrSessionUnknown], m)
         | Some s \<Rightarrow>
             if fst (Snapshot (ms_lifecycle s)) \<noteq> Closed then ([LifecycleError ErrInvalidTransition], m)
             else (case update_row (fault k) Closed (recoverable_row original s) (mg_store m) of
                     (None, ost) \<Rightarrow> ([], m\<lparr>mg_store := ost\<rparr>)
                   | (Some e, ost) \<Rightarrow> ([e], m\<lparr>mg_store := ost\<rparr>)));
        (errs', m2) = restore_rows fault (Suc k) rest m1
      in (errs @ errs', m2))"

definition recoverable :: "manager \<Rightarrow> (string \<times> state) list" where
  "recoverable m =
     filter (\<lambda>(i, st). st = Running \<or> st = Restarting)
       (map (\<lambda>(i, s). (i, fst (Snapshot (ms_lifecycle s)))) (mg_sessions m))"

definition ShutdownForRecovery ::
  "bool \<Rightarrow> (string \<Rightarrow> close_env) \<Rightarrow> string list \<Rightarrow> nat option \<Rightarrow> (nat \<Rightarrow> bool) \<Rightarrow> manager \<Rightarrow> manager_error list \<times> manager" where
  "ShutdownForRecovery canceled env order waited fault m =
     (case Shutdown canceled env order waited m of
        (errs, m1) \<Rightarrow>
          if mg_store m1 = None then (errs, m1)
          else (case restore_rows fault 0 (recoverable m) m1 of (errs', m2) \<Rightarrow> (errs @ errs', m2)))"

section \<open>Recovery\<close>

definition status_of :: "string \<Rightarrow> inputStatus option" where
  "status_of s = List.find (\<lambda>st. status_string st = s) [InputAccepted, InputDuplicate, InputRejected, InputUncertain]"

definition row_key :: "input_row \<Rightarrow> inputKey" where
  "row_key d =
     (let k = \<lparr>ik_client = ir_client d, ik_attachment = ir_attachment d, ik_generation = ir_generation d,
               ik_sequence = 0, ik_id = ir_input d\<rparr>
      in case parse_uint (ir_input d) of
           Some n \<Rightarrow> if 0 < n then k\<lparr>ik_sequence := n, ik_id := []\<rparr> else k
         | None \<Rightarrow> k)"

fun restore_inputs :: "input_row list \<Rightarrow> inputJournal \<Rightarrow> input_error + inputJournal" where
  "restore_inputs [] j = Inr j"
| "restore_inputs (d # ds) j =
     (case journal_Restore (row_key d) (ir_hash d) (status_of (ir_status d)) (ir_bytes d) (ir_error d) j of
        (Inl e, _) \<Rightarrow> Inl e
      | (Inr _, j') \<Rightarrow> restore_inputs ds j')"

text \<open>
  \<^verbatim>\<open>recover\<close> for one stored record. \<open>now\<close> is the time of recovery; the result is the updated store
  with an error or the rebuilt session.
\<close>

definition recovered_row :: "string \<Rightarrow> int \<Rightarrow> session_row \<Rightarrow> session_row" where
  "recovered_row signal now r =
     (case recovered_state (state_of (sn_state r)) of
        None \<Rightarrow> r
      | Some st \<Rightarrow>
          let r' = (if sn_state r = state_string Running \<or> sn_state r = state_string Restarting
                    then r\<lparr>sn_exit_code := Some 255, sn_exit_signal := signal, sn_exited_at := Some now\<rparr> else r)
          in r'\<lparr>sn_state := state_string st\<rparr>)"

definition rebuild :: "manager_config \<Rightarrow> session_row \<Rightarrow> history \<Rightarrow> lifecycle \<Rightarrow> inputJournal \<Rightarrow> managedSession" where
  "rebuild c r h l j =
     (new_session c (sn_id r) (sn_name r)
        \<lparr>cm_path = sn_path r, cm_args = sn_args r, cm_env = sn_env r, cm_cwd = sn_cwd r,
         cm_columns = sn_columns r, cm_rows = sn_rows r\<rparr>)
       \<lparr>ms_lifecycle := l, ms_history := h, ms_inputs := j,
        ms_exit := (case sn_exit_code r of
                      None \<Rightarrow> None
                    | Some code \<Rightarrow> Some \<lparr>xr_code = code, xr_signal = sn_exit_signal r,
                                          xr_at = (case sn_exited_at r of None \<Rightarrow> 0 | Some t \<Rightarrow> t)\<rparr>)\<rparr>"

definition recover_history ::
  "(nat \<Rightarrow> bool) \<Rightarrow> string \<Rightarrow> nat \<Rightarrow> store \<Rightarrow> (manager_error + history) \<times> store" where
  "recover_history fault i historyBytes st =
     (case TrimOutput (fault 1) i historyBytes st of
        (Inl e, st1) \<Rightarrow> (Inl (StoreError e), st1)
      | (Inr from_sequence, st1) \<Rightarrow>
          (case Store_Replay (fault 2) i from_sequence 0 st1 of
             Inl e \<Rightarrow> (Inl (StoreError e), st1)
           | Inr (es, earliest, latest) \<Rightarrow>
               (case Restore historyBytes earliest latest es of
                  Inl e \<Rightarrow> (Inl (HistoryError e), st1)
                | Inr h \<Rightarrow> (Inr h, st1))))"

definition recover_session ::
  "manager_config \<Rightarrow> (nat \<Rightarrow> bool) \<Rightarrow> int \<Rightarrow> session_row \<Rightarrow> store \<Rightarrow> (manager_error + managedSession) \<times> store" where
  "recover_session c fault now r st =
     (case recovered_state (state_of (sn_state r)) of
        None \<Rightarrow> (Inl ErrInvalidManagedSession, st)
      | Some recovered \<Rightarrow>
          (let r' = recovered_row (cf_signal c) now r
           in case (if state_string recovered = sn_state r then (Inr (), st)
                    else UpdateSession (fault 0) (sn_id r) (sn_state r) r' st) of
                (Inl e, st1) \<Rightarrow> (Inl (StoreError e), st1)
              | (Inr _, st1) \<Rightarrow>
                  (case recover_history fault (sn_id r) (cf_history c) st1 of
                     (Inl e, st2) \<Rightarrow> (Inl e, st2)
                   | (Inr h, st2) \<Rightarrow>
                       (case RecoverLifecycle (state_string recovered) (sn_generation r) of
                          Inl e \<Rightarrow> (Inl (LifecycleError e), st2)
                        | Inr l \<Rightarrow>
                            (case InputDecisions (fault 3) (sn_id r) st2 of
                               Inl e \<Rightarrow> (Inl (StoreError e), st2)
                             | Inr ds \<Rightarrow>
                                 (case restore_inputs ds (NewBoundedInputJournal (sn_generation r) (cf_maxInputs c)) of
                                    Inl e \<Rightarrow> (Inl (InputError e), st2)
                                  | Inr j \<Rightarrow> (Inr (rebuild c r' h l j), st2)))))))"

fun recover_all ::
  "(nat \<Rightarrow> nat \<Rightarrow> bool) \<Rightarrow> nat \<Rightarrow> int \<Rightarrow> session_row list \<Rightarrow> store \<Rightarrow> manager \<Rightarrow> manager_error option \<times> store \<times> manager" where
  "recover_all fault k now [] st m = (None, st, m)"
| "recover_all fault k now (r # rs) st m =
     (case recover_session (mg_config m) (fault k) now r st of
        (Inl e, st1) \<Rightarrow> (Some e, st1, m)
      | (Inr s, st1) \<Rightarrow>
          if map_of (mg_sessions m) (sn_id r) \<noteq> None \<or>
             (case map_of (mg_names m) (sn_name r) of None \<Rightarrow> False | Some i \<Rightarrow> i \<noteq> [])
          then (Some ErrInvalidManagedSession, st1, m)
          else recover_all fault (Suc k) now rs st1
                 (m\<lparr>mg_sessions := AList.update (sn_id r) s (mg_sessions m),
                    mg_names := AList.update (sn_name r) (sn_id r) (mg_names m)\<rparr>))"

text \<open>A manager starts over a store, or without one. A failed start leaves only the store behind.\<close>

definition NewManager ::
  "manager_config \<Rightarrow> (nat \<Rightarrow> nat \<Rightarrow> bool) \<Rightarrow> bool \<Rightarrow> int \<Rightarrow> store option \<Rightarrow> (manager_error + manager) \<times> store option" where
  "NewManager c0 fault list_fault now ost =
     (let c = config_defaults c0; m = \<lparr>mg_config = c, mg_sessions = [], mg_names = [], mg_stopping = False, mg_store = ost\<rparr>
      in if \<not> cf_launch c \<or> \<not> config_ok c then (Inl ErrInvalidManagedSession, ost)
         else case ost of
           None \<Rightarrow> (Inr m, None)
         | Some st \<Rightarrow>
             (case Sessions list_fault st of
                Inl e \<Rightarrow> (Inl (StoreError e), ost)
              | Inr rs \<Rightarrow>
                  (case recover_all fault 0 now rs st m of
                     (Some e, st', _) \<Rightarrow> (Inl e, Some st')
                   | (None, st', m') \<Rightarrow> (Inr (m'\<lparr>mg_store := Some st'\<rparr>), Some st'))))"

section \<open>Queries\<close>

definition ResourceCounts :: "manager \<Rightarrow> nat \<times> nat \<times> nat" where
  "ResourceCounts m =
     (length (mg_sessions m), sum_list (map (\<lambda>(i, s). Count (ms_fanout s)) (mg_sessions m)),
      length (filter (\<lambda>(i, s). ms_process s \<noteq> None) (mg_sessions m)))"

definition Manager_Snapshot :: "string \<Rightarrow> manager \<Rightarrow> manager_error + snapshot" where
  "Manager_Snapshot i m =
     (case map_of (mg_sessions m) i of None \<Rightarrow> Inl ErrSessionUnknown | Some s \<Rightarrow> Inr (snapshotLocked s))"

definition List_sessions :: "manager \<Rightarrow> snapshot list" where
  "List_sessions m = sort_key (\<lambda>p. string_key (sp_name p)) (map (\<lambda>(i, s). snapshotLocked s) (mg_sessions m))"

definition WriteStream ::
  "(bytes \<Rightarrow> int \<times> bool) \<Rightarrow> string \<Rightarrow> string \<Rightarrow> nat \<Rightarrow> bytes \<Rightarrow> manager \<Rightarrow> manager_error option \<times> (nat \<times> bytes) list" where
  "WriteStream w i a generation data m =
     (if data = [] \<or> 256 * 1024 < length data then (Some (InputError ErrInvalidInput), [])
      else case map_of (mg_sessions m) i of
        None \<Rightarrow> (Some ErrSessionUnknown, [])
      | Some s \<Rightarrow> session_WriteStream w a generation data s)"

section \<open>The calls of the manager on one session\<close>

definition Manager_Attach :: "string \<Rightarrow> string \<Rightarrow> nat \<Rightarrow> manager \<Rightarrow> (manager_error + snapshot \<times> replay) \<times> manager" where
  "Manager_Attach i a from_sequence m =
     on_session i Inl (\<lambda>s ost.
       case attachLocked (nat (cf_maxAttachments (mg_config m))) (cf_attachment (mg_config m)) a from_sequence s of
         (r, s') \<Rightarrow> (r, s', ost)) m"

definition Manager_AttachLive :: "string \<Rightarrow> string \<Rightarrow> manager \<Rightarrow> (manager_error + snapshot \<times> replay) \<times> manager" where
  "Manager_AttachLive i a m =
     on_session i Inl (\<lambda>s ost.
       case AttachLive (nat (cf_maxAttachments (mg_config m))) (cf_attachment (mg_config m)) a s of (r, s') \<Rightarrow> (r, s', ost)) m"

definition Manager_Detach :: "string \<Rightarrow> string \<Rightarrow> manager \<Rightarrow> manager_error option \<times> manager" where
  "Manager_Detach i a m =
     on_session i Some (\<lambda>s ost.
       case Detach a (ms_fanout s) of
         (Inl e, f) \<Rightarrow> (Some (FanoutError e), s\<lparr>ms_fanout := f\<rparr>, ost)
       | (Inr _, f) \<Rightarrow> (None, s\<lparr>ms_fanout := f\<rparr>, ost)) m"

definition Manager_Next :: "string \<Rightarrow> string \<Rightarrow> manager \<Rightarrow> (manager_error + event option) \<times> manager" where
  "Manager_Next i a m =
     on_session i Inl (\<lambda>s ost.
       case Next a (ms_fanout s) of
         (Inl e, f) \<Rightarrow> (Inl (FanoutError e), s\<lparr>ms_fanout := f\<rparr>, ost)
       | (Inr r, f) \<Rightarrow> (Inr r, s\<lparr>ms_fanout := f\<rparr>, ost)) m"

definition Manager_Acknowledge :: "string \<Rightarrow> string \<Rightarrow> nat \<Rightarrow> manager \<Rightarrow> (manager_error + unit) \<times> manager" where
  "Manager_Acknowledge i a n m =
     on_session i Inl (\<lambda>s ost. case session_Acknowledge a n s of (r, s') \<Rightarrow> (r, s', ost)) m"

definition AttachmentStatus :: "string \<Rightarrow> string \<Rightarrow> manager \<Rightarrow> manager_error + (attachment_state \<times> nat)" where
  "AttachmentStatus i a m =
     (case map_of (mg_sessions m) i of
        None \<Rightarrow> Inl ErrSessionUnknown
      | Some s \<Rightarrow> (case Status a (ms_fanout s) of Inl e \<Rightarrow> Inl (FanoutError e) | Inr r \<Rightarrow> Inr r))"

definition InputSequence :: "string \<Rightarrow> inputCursor \<Rightarrow> manager \<Rightarrow> manager_error + nat" where
  "InputSequence i c m =
     (case map_of (mg_sessions m) i of
        None \<Rightarrow> Inl ErrSessionUnknown
      | Some s \<Rightarrow> Inr (LastSequence c (ms_inputs s)))"

definition QueryInput :: "string \<Rightarrow> inputKey \<Rightarrow> manager \<Rightarrow> manager_error + inputDecision" where
  "QueryInput i k m =
     (case map_of (mg_sessions m) i of
        None \<Rightarrow> Inl ErrSessionUnknown
      | Some s \<Rightarrow> (case Query k (ms_inputs s) of Inl e \<Rightarrow> Inl (InputError e) | Inr d \<Rightarrow> Inr d))"

end
