(* ===== verification/Session_Recovery.thy ===== *)
theory Session_Recovery
  imports Session_Manager
begin

text \<open>
  A session and its stored rows. Whatever a session does and whichever database calls fail on
  the way, its rows stay fit for recovery. A crash between two database calls of an operation
  leaves the same rows as that operation with its later calls failing, so crashes are covered.
\<close>

section \<open>What an operation touches\<close>

definition inputs_of :: "string \<Rightarrow> store \<Rightarrow> input_row list" where
  "inputs_of i st = filter (\<lambda>d. ir_session d = i) (st_inputs st)"

definition same_view :: "string \<Rightarrow> store \<Rightarrow> store \<Rightarrow> bool" where
  "same_view j st st' \<longleftrightarrow>
     map_of (st_sessions st') j = map_of (st_sessions st) j \<and> output_of j st' = output_of j st \<and>
     inputs_of j st' = inputs_of j st"

definition touches :: "string \<Rightarrow> store \<Rightarrow> store \<Rightarrow> bool" where
  "touches i st st' \<longleftrightarrow>
     (\<forall>j. j \<noteq> i \<longrightarrow> same_view j st st') \<and>
     (distinct (map fst (st_sessions st)) \<longrightarrow> distinct (map fst (st_sessions st')))"

text \<open>Only the stored output of the session changes, and with it its bounds.\<close>

definition output_only :: "string \<Rightarrow> store \<Rightarrow> store \<Rightarrow> bool" where
  "output_only i st st' \<longleftrightarrow>
     touches i st st' \<and> inputs_of i st' = inputs_of i st \<and>
     (\<forall>r. map_of (st_sessions st) i = Some r \<longrightarrow>
        (\<exists>a b. map_of (st_sessions st') i = Some (r\<lparr>sn_earliest := a, sn_latest := b\<rparr>)))"

lemma touches_refl [simp]: "touches i st st"
  by (simp add: touches_def same_view_def)

lemma touches_trans: "touches i a b \<Longrightarrow> touches i b c \<Longrightarrow> touches i a c"
  by (auto simp: touches_def same_view_def)

lemma same_bounds: "r\<lparr>sn_earliest := sn_earliest r, sn_latest := sn_latest r\<rparr> = (r :: session_row)"
  by simp

lemma output_only_refl [simp]: "output_only i st st"
  unfolding output_only_def by (metis same_bounds touches_refl)

lemma output_only_trans:
  assumes "output_only i a b" and "output_only i b c"
  shows "output_only i a c"
proof -
  have "\<exists>x y. map_of (st_sessions c) i = Some (r\<lparr>sn_earliest := x, sn_latest := y\<rparr>)"
    if "map_of (st_sessions a) i = Some r" for r
  proof -
    obtain x y where b: "map_of (st_sessions b) i = Some (r\<lparr>sn_earliest := x, sn_latest := y\<rparr>)"
      using assms(1) \<open>map_of (st_sessions a) i = Some r\<close> by (auto simp: output_only_def)
    with assms(2) obtain u v where "map_of (st_sessions c) i =
        Some (r\<lparr>sn_earliest := x, sn_latest := y\<rparr>\<lparr>sn_earliest := u, sn_latest := v\<rparr>)"
      unfolding output_only_def by blast
    then show ?thesis by auto
  qed
  with assms show ?thesis by (auto simp: output_only_def intro: touches_trans)
qed

lemma output_only_touches: "output_only i st st' \<Longrightarrow> touches i st st'"
  by (simp add: output_only_def)

lemma set_output_only:
  assumes "map_of (st_sessions st) i = Some r"
  shows "output_only i st (set_output i (r\<lparr>sn_earliest := a, sn_latest := b\<rparr>) es st)"
  using assms
  by (auto simp: output_only_def touches_def same_view_def set_output_def update_conv' distinct_update output_of_def inputs_of_def)

lemma set_output_only':
  assumes "map_of (st_sessions st) i = Some r"
  shows "output_only i st (set_output i (r\<lparr>sn_latest := b, sn_earliest := a\<rparr>) es st)"
    and "output_only i st (set_output i (r\<lparr>sn_earliest := a\<rparr>) es st)"
proof -
  have "r\<lparr>sn_latest := b, sn_earliest := a\<rparr> = r\<lparr>sn_earliest := a, sn_latest := b\<rparr>"
    "r\<lparr>sn_earliest := a\<rparr> = r\<lparr>sn_earliest := a, sn_latest := sn_latest r\<rparr>" by simp_all
  then show "output_only i st (set_output i (r\<lparr>sn_latest := b, sn_earliest := a\<rparr>) es st)"
    "output_only i st (set_output i (r\<lparr>sn_earliest := a\<rparr>) es st)"
    using set_output_only[OF assms] by metis+
qed

lemma output_calls:
  "output_only i st (snd (AdvanceOutput f i p n st))"
  "output_only i st (snd (ClearOutput f i n st))"
  "output_only i st (snd (AppendOutput f i ch s d m st))"
  "output_only i st (snd (TrimOutput f i m st))"
  by (auto simp: AdvanceOutput_def ClearOutput_def AppendOutput_def TrimOutput_def Let_def
      intro: set_output_only set_output_only' split: option.splits)

lemma append_events_only: "output_only i st (snd (append_events fault k i m es st))"
proof (induction es arbitrary: k st)
  case (Cons e es)
  obtain x st' where a: "AppendOutput (fault k) i (ev_channel e) (ev_start e) (ev_data e) m st = (x, st')" by fastforce
  then have "output_only i st st'" using output_calls(3)[of i st "fault k"] by (metis snd_conv)
  with a Cons.IH[of st' "Suc k"] show ?case by (cases x) (auto intro: output_only_trans)
qed simp

lemma append_events_only': "append_events fault k i m es a = (x, b) \<Longrightarrow> output_only i st a \<Longrightarrow> output_only i st b"
  using append_events_only[of i a fault k m es] by (auto intro: output_only_trans)

lemma flush_pass_only: "output_only i st (snd (flush_pass fault i m h1 h2 st))"
proof (cases "OutputBounds (fault 0) i st")
  case (Inl e)
  then show ?thesis by (simp add: flush_pass_def)
next
  case (Inr b)
  obtain lo p where b: "b = (lo, p)" by fastforce
  obtain x st1 where ad: "(if p < h_earliest h1 then AdvanceOutput (fault 1) i p (h_earliest h1) st else (Inr (), st)) = (x, st1)"
    by fastforce
  have o1: "output_only i st st1" using ad output_calls(1)[of i st "fault 1" p "h_earliest h1"] by (auto split: if_splits)
  define q where "q = (if p < h_earliest h1 then h_earliest h1 else p)"
  have eq: "flush_pass fault i m h1 h2 st =
      (case x of Inl e \<Rightarrow> (StoreFailed e, st1)
       | Inr _ \<Rightarrow> if h_latest h1 \<le> q then (Done, st1)
           else (case ReplayOwned q m h2 of
               Inl (GapError _ _ _) \<Rightarrow> (Again, st1)
             | Inl e \<Rightarrow> (HistoryFailed e, st1)
             | Inr rp \<Rightarrow>
                 (case append_events fault 2 i m (rp_events rp) st1 of
                    (Some e, st2) \<Rightarrow> (StoreFailed e, st2)
                  | (None, st2) \<Rightarrow> (if h_latest h1 \<le> rp_to rp then Done else Again, st2))))"
    unfolding flush_pass_def Inr b Bounds_def q_def by (simp add: ad Let_def)
  show ?thesis
  proof (cases x)
    case (Inl e)
    then show ?thesis using o1 by (simp add: eq)
  next
    case x: (Inr u)
    show ?thesis
    proof (cases "ReplayOwned q m h2")
      case (Inl e)
      then show ?thesis using o1 x by (cases e) (simp_all add: eq)
    next
      case (Inr rp)
      obtain y st2 where y: "append_events fault 2 i m (rp_events rp) st1 = (y, st2)" by fastforce
      then show ?thesis using o1 x Inr append_events_only'[OF y o1] by (cases y) (simp_all add: eq)
    qed
  qed
qed

section \<open>Decimal input identifiers\<close>

lemma parse_digits_snoc:
  "parse_digits n (xs @ [ch]) =
     (case parse_digits n xs of
        None \<Rightarrow> None
      | Some m \<Rightarrow> if between CHR ''0'' CHR ''9'' ch then Some (10 * m + (of_char ch - 48)) else None)"
proof (induction xs arbitrary: n)
  case Nil
  show ?case by (simp only: append_Nil parse_digits.simps option.case)
next
  case (Cons x xs)
  show ?case
    by (simp only: append_Cons parse_digits.simps Cons.IH if_distrib[of "case_option _ _"] option.case split: if_split)
qed

lemma format_uint_step:
  "n < 10 \<Longrightarrow> format_uint n = [char_of (48 + n)]"
  "\<not> n < 10 \<Longrightarrow> format_uint n = format_uint (n div 10) @ [char_of (48 + n mod 10)]"
  by (subst format_uint.simps, simp only: if_True if_False)+

lemma char_digit: "k < (10 :: nat) \<Longrightarrow> of_char (char_of (48 + k) :: char) = 48 + k"
  by (simp only: of_char_of) simp

lemma digit_char: "k < (10 :: nat) \<Longrightarrow> between CHR ''0'' CHR ''9'' (char_of (48 + k)) \<and> of_char (char_of (48 + k) :: char) = 48 + k"
  unfolding between_def by (simp only: char_digit) simp

lemma parse_format_digits: "parse_digits 0 (format_uint n) = Some n"
proof (induction n rule: format_uint.induct)
  case (1 n)
  show ?case
  proof (cases "n < 10")
    case True
    have e: "10 * 0 + (of_char (char_of (48 + n) :: char) - 48) = n"
      unfolding conjunct2[OF digit_char[OF True]] by simp
    show ?thesis unfolding format_uint_step(1)[OF True] parse_digits.simps
      by (simp only: conjunct1[OF digit_char[OF True]] if_True e)
  next
    case False
    have d: "n mod 10 < 10" by simp
    have e: "10 * (n div 10) + (of_char (char_of (48 + n mod 10) :: char) - 48) = n"
      unfolding conjunct2[OF digit_char[OF d]] by simp
    have i: "parse_digits 0 (format_uint (n div 10)) = Some (n div 10)" by (rule 1[OF False])
    show ?thesis unfolding format_uint_step(2)[OF False] parse_digits_snoc i option.case
      unfolding if_P[OF conjunct1[OF digit_char[OF d]]] e by (rule refl)
  qed
qed

lemma format_nonempty: "format_uint n \<noteq> []"
  by (cases "n < 10") (simp_all only: format_uint_step not_Cons_self2 append_is_Nil_conv list.distinct simp_thms)

lemma parse_format: "n < u64_size \<Longrightarrow> parse_uint (format_uint n) = Some n"
  by (simp only: parse_uint_def format_nonempty parse_format_digits if_False if_True option.case)

section \<open>Recoverable rows\<close>

definition row_good :: "string \<Rightarrow> session_row \<Rightarrow> bool" where
  "row_good i r \<longleftrightarrow>
     sn_id r = i \<and> validDimensions (sn_columns r) (sn_rows r) \<and> i63 (sn_generation r) \<and>
     (\<exists>st. sn_state r = state_string st \<and> st \<noteq> Deleted \<and>
        (st = Running \<or> st = Restarting \<or> st = Exited \<longrightarrow> 0 < sn_generation r))"

definition input_good :: "input_row \<Rightarrow> bool" where
  "input_good d \<longleftrightarrow>
     length (ir_hash d) = 32 \<and> ir_client d \<noteq> [] \<and> ir_attachment d \<noteq> [] \<and> ir_generation d \<noteq> 0 \<and>
     (\<exists>st. ir_status d = status_string st \<and> st \<noteq> InputDuplicate) \<and> ik_sequence (row_key d) \<noteq> 0"

definition inputs_good :: "manager_config \<Rightarrow> input_row list \<Rightarrow> bool" where
  "inputs_good c ds \<longleftrightarrow> list_all input_good ds \<and> distinct (map row_key ds) \<and> int (length ds) \<le> cf_maxInputs c"

text \<open>
  The rows of one session: recoverable, with a window of its output \<open>evs\<close>, and with input decisions
  for keys among \<open>ks\<close>.
\<close>

definition linked :: "manager_config \<Rightarrow> event list \<Rightarrow> string \<Rightarrow> string \<Rightarrow> inputKey set \<Rightarrow> store \<Rightarrow> bool" where
  "linked c evs i name ks st \<longleftrightarrow>
     (\<exists>r. map_of (st_sessions st) i = Some r \<and> row_good i r \<and> sn_name r = name) \<and> stored evs i st \<and>
     inputs_good c (inputs_of i st) \<and> row_key ` set (inputs_of i st) \<subseteq> ks"

lemma stored_view: "same_view i st st' \<Longrightarrow> stored evs i st' = stored evs i st"
  unfolding stored_def same_view_def by (simp only:)

lemma linked_view: "same_view i st st' \<Longrightarrow> linked c evs i name ks st' = linked c evs i name ks st"
  using stored_view[of i st st' evs] unfolding linked_def same_view_def by (simp only:)

lemma linked_mono: "linked c evs i name ks st \<Longrightarrow> ks \<subseteq> ks' \<Longrightarrow> linked c evs i name ks' st"
  by (auto simp: linked_def)

lemma linked_stored: "linked c evs i name ks st \<Longrightarrow> stored evs i st"
  by (simp add: linked_def)

lemma linked_output:
  assumes "linked c evs i name ks st" and "output_only i st st'" and "stored evs' i st'"
  shows "linked c evs' i name ks st'"
proof -
  obtain r where r: "map_of (st_sessions st) i = Some r" "row_good i r" "sn_name r = name"
    using assms(1) by (auto simp: linked_def)
  obtain a b where "map_of (st_sessions st') i = Some (r\<lparr>sn_earliest := a, sn_latest := b\<rparr>)"
    using assms(2) r(1) by (auto simp: output_only_def)
  moreover have "row_good i (r\<lparr>sn_earliest := a, sn_latest := b\<rparr>)" "sn_name (r\<lparr>sn_earliest := a, sn_latest := b\<rparr>) = name"
    using r(2,3) by (simp_all add: row_good_def)
  moreover have "inputs_of i st' = inputs_of i st" using assms(2) by (simp add: output_only_def)
  ultimately show ?thesis using assms(1,3) unfolding linked_def by metis
qed

lemma stored_checks: "stored evs i st \<Longrightarrow> map_of (st_sessions st) i = Some r \<Longrightarrow> sn_earliest r \<le> sn_latest r \<and> i63 (sn_earliest r) \<and> i63 (sn_latest r)"
  by (auto simp: stored_def i63_def dest!: contiguous_le)

text \<open>Writing a session's row keeps it recoverable; so does a write that fails.\<close>

definition state_good :: "state \<Rightarrow> nat \<Rightarrow> bool" where
  "state_good st g \<longleftrightarrow> st \<noteq> Deleted \<and> (st = Running \<or> st = Restarting \<or> st = Exited \<longrightarrow> 0 < g)"

lemma UpdateSession_touches: "touches i st (snd (UpdateSession f i ex r st))"
  by (auto simp: UpdateSession_def touches_def same_view_def update_conv' distinct_update output_of_def inputs_of_def
      Let_def split: option.splits)

lemma UpdateSession_linked:
  assumes "linked c evs i name ks st" and "sn_state q = state_string s" and "state_good s (sn_generation q)"
  shows "linked c evs i name ks (snd (UpdateSession f i ex q st))"
proof (cases "fst (UpdateSession f i ex q st)")
  case (Inl e)
  then have "snd (UpdateSession f i ex q st) = st"
    by (auto simp: UpdateSession_def Let_def split: option.splits if_splits)
  with assms(1) show ?thesis by simp
next
  case (Inr u)
  obtain r where r: "map_of (st_sessions st) i = Some r" "row_good i r" "sn_name r = name"
    using assms(1) by (auto simp: linked_def)
  define r' where "r' = r\<lparr>sn_cwd := sn_cwd q, sn_columns := sn_columns q, sn_rows := sn_rows q,
     sn_state := sn_state q, sn_generation := sn_generation q, sn_exit_code := sn_exit_code q,
     sn_exit_signal := sn_exit_signal q, sn_exited_at := sn_exited_at q\<rparr>"
  have e: "snd (UpdateSession f i ex q st) = st\<lparr>st_sessions := AList.update i r' (st_sessions st)\<rparr>" "session_checks r'"
    using Inr r(1) by (auto simp: UpdateSession_def Let_def r'_def split: if_splits)
  have "row_good i r'"
    using e(2) r(2) assms(2,3) by (auto simp: row_good_def session_checks_def validDimensions_def state_good_def r'_def)
  moreover have "stored evs i (snd (UpdateSession f i ex q st))"
    using linked_stored[OF assms(1)] r(1) e(1) by (auto simp: stored_def update_conv' output_of_def r'_def)
  ultimately show ?thesis
    using assms(1) r(3) e(1) by (auto simp: linked_def update_conv' inputs_of_def r'_def)
qed

section \<open>A session with its rows\<close>

definition lc_good :: "lifecycle \<Rightarrow> bool" where
  "lc_good l \<longleftrightarrow> lc_state l \<noteq> Creating \<and> lc_state l \<noteq> Deleted \<and> 0 < lc_generation l \<and> lc_generation l \<le> 2 ^ 63"

definition journal_good :: "manager_config \<Rightarrow> inputJournal \<Rightarrow> bool" where
  "journal_good c j \<longleftrightarrow>
     j_max j = cf_maxInputs c \<and> int (length (j_decisions j)) \<le> cf_maxInputs c \<and> distinct (map fst (j_decisions j))"

definition mem_good :: "manager_config \<Rightarrow> event list \<Rightarrow> managedSession \<Rightarrow> bool" where
  "mem_good c evs s \<longleftrightarrow>
     history_of evs (ms_history s) \<and> h_max (ms_history s) = cf_history c \<and> lc_good (ms_lifecycle s) \<and>
     journal_good c (ms_inputs s) \<and>
     (lc_state (ms_lifecycle s) = Running \<longrightarrow> j_current (ms_inputs s) = lc_generation (ms_lifecycle s))"

abbreviation decided :: "managedSession \<Rightarrow> inputKey set" where
  "decided s \<equiv> dom (map_of (j_decisions (ms_inputs s)))"

definition sinv :: "manager_config \<Rightarrow> event list \<Rightarrow> managedSession \<Rightarrow> store \<Rightarrow> bool" where
  "sinv c evs s st \<longleftrightarrow> mem_good c evs s \<and> linked c evs (ms_id s) (ms_name s) (decided s) st"

text \<open>An operation on a session: the invariant holds after it and only this session's rows changed.\<close>

definition sstep :: "manager_config \<Rightarrow> event list \<Rightarrow> managedSession \<Rightarrow> store \<Rightarrow> managedSession \<Rightarrow> store option \<Rightarrow> bool" where
  "sstep c evs s st s' ost \<longleftrightarrow>
     (\<exists>st'. ost = Some st' \<and> sinv c evs s' st' \<and> touches (ms_id s) st st' \<and> ms_id s' = ms_id s \<and> ms_name s' = ms_name s)"

definition same_core :: "managedSession \<Rightarrow> managedSession \<Rightarrow> bool" where
  "same_core s s' \<longleftrightarrow> ms_id s' = ms_id s \<and> ms_name s' = ms_name s \<and> ms_history s' = ms_history s \<and> ms_inputs s' = ms_inputs s"

lemma same_core_refl [simp]: "same_core s s"
  by (simp add: same_core_def)

lemma sinv_core:
  assumes "sinv c evs s st" and "same_core s s'" and "lc_good (ms_lifecycle s')"
    and "lc_state (ms_lifecycle s') = Running \<Longrightarrow> j_current (ms_inputs s) = lc_generation (ms_lifecycle s')"
  shows "sinv c evs s' st"
  using assms by (auto simp: sinv_def mem_good_def same_core_def)

lemma sstepI: "sinv c evs s' st \<Longrightarrow> same_core s s' \<Longrightarrow> sstep c evs s st s' (Some st)"
  by (simp add: sstep_def same_core_def)

lemma sstep_refl: "sinv c evs s st \<Longrightarrow> sstep c evs s st s (Some st)"
  by (simp add: sstep_def)

lemma sstep_trans:
  assumes "sstep c evs s st s1 (Some st1)" and "sstep c evs' s1 st1 s2 ost2"
  shows "sstep c evs' s st s2 ost2"
  using assms by (auto simp: sstep_def intro: touches_trans)

lemma sstep_store: "sstep c evs s st s' ost \<Longrightarrow> \<exists>st'. ost = Some st' \<and> sstep c evs s st s' (Some st') \<and> sinv c evs s' st'"
  by (auto simp: sstep_def)

lemma storeRecord_fields:
  "sn_id (storeRecordLocked s) = ms_id s" "sn_name (storeRecordLocked s) = ms_name s"
  "sn_state (storeRecordLocked s) = state_string (lc_state (ms_lifecycle s))"
  "sn_generation (storeRecordLocked s) = lc_generation (ms_lifecycle s)"
  by (simp_all add: storeRecordLocked_def snapshotLocked_def Snapshot_def Bounds_def Let_def)

lemma lc_state_good: "lc_good l \<Longrightarrow> state_good (lc_state l) (lc_generation l)"
  by (simp add: lc_good_def state_good_def)

lemma update_row_sstep:
  assumes "sinv c evs s st" and "sn_id r = ms_id s" and "sn_state r = state_string x" and "state_good x (sn_generation r)"
    and "update_row f ex r (Some st) = (e, ost)"
  shows "sstep c evs s st s ost"
proof -
  have "ost = Some (snd (UpdateSession f (ms_id s) (state_string ex) r st))"
    using assms(2,5) by (auto simp: update_row_def split: prod.splits sum.splits)
  then show ?thesis
    using assms(1) UpdateSession_touches UpdateSession_linked[OF _ assms(3,4)] by (auto simp: sstep_def sinv_def)
qed

lemma persist_sstep:
  assumes "sinv c evs s st" and "persist f ex s (Some st) = (e, ost)"
  shows "sstep c evs s st s ost"
proof -
  have "lc_good (ms_lifecycle s)" using assms(1) by (simp add: sinv_def mem_good_def)
  then have "state_good (lc_state (ms_lifecycle s)) (sn_generation (storeRecordLocked s))"
    by (simp add: lc_state_good storeRecord_fields)
  from update_row_sstep[OF assms(1) storeRecord_fields(1,3) this] assms(2) show ?thesis by (simp add: persist_def)
qed

text \<open>A row is written only if its generation fits its column.\<close>

lemma persist_checked: "persist f ex s (Some st) = (None, ost) \<Longrightarrow> lc_generation (ms_lifecycle s) < 2 ^ 63"
  by (auto simp: persist_def update_row_def UpdateSession_def Let_def session_checks_def i63_def storeRecord_fields
      split: option.splits if_splits)

lemma move_core: "move to s = Inr s' \<Longrightarrow> same_core s s' \<and> Transition to (ms_lifecycle s) = Inr (ms_lifecycle s')"
  by (auto simp: move_def same_core_def split: sum.splits)

lemma move_good:
  assumes "move to s = Inr s'" and "lc_good (ms_lifecycle s)" and "to \<noteq> Deleted" and "to \<noteq> Running"
  shows "lc_good (ms_lifecycle s')" and "lc_state (ms_lifecycle s') = to"
  using move_core[OF assms(1)] assms(2-4) by (cases "lc_state (ms_lifecycle s)"; auto simp: Transition_Inr lc_good_def)+

lemma move_sinv:
  assumes "sinv c evs s st" and "move to s = Inr s'" and "to \<noteq> Deleted" and "to \<noteq> Running"
  shows "sinv c evs s' st" and "same_core s s'"
proof -
  have "lc_good (ms_lifecycle s)" using assms(1) by (simp add: sinv_def mem_good_def)
  note g = move_good[OF assms(2) this assms(3,4)]
  show "same_core s s'" using move_core[OF assms(2)] by simp
  then show "sinv c evs s' st" using sinv_core[OF assms(1) _ g(1)] g(2) assms(4) by simp
qed

lemma try_move_sinv:
  assumes "sinv c evs s st" and "to \<noteq> Deleted" and "to \<noteq> Running"
  shows "sinv c evs (try_move to s) st" and "same_core s (try_move to s)"
  using assms move_sinv[OF assms(1) _ assms(2,3)] by (auto simp: try_move_def split: sum.splits)

lemma sinv_fields [simp]:
  "sinv c evs (s\<lparr>ms_live := a\<rparr>) st = sinv c evs s st"
  "sinv c evs (s\<lparr>ms_exit := b\<rparr>) st = sinv c evs s st"
  "sinv c evs (s\<lparr>ms_process := p\<rparr>) st = sinv c evs s st"
  "sinv c evs (s\<lparr>ms_worker := w\<rparr>) st = sinv c evs s st"
  "sinv c evs (s\<lparr>ms_persistErr := e\<rparr>) st = sinv c evs s st"
  "sinv c evs (s\<lparr>ms_resizeID := a'\<rparr>) st = sinv c evs s st"
  "sinv c evs (s\<lparr>ms_resizeTime := t\<rparr>) st = sinv c evs s st"
  "sinv c evs (s\<lparr>ms_command := cm\<rparr>) st = sinv c evs s st"
  "sinv c evs (s\<lparr>ms_fanout := f\<rparr>) st = sinv c evs s st"
  "sinv c evs (s\<lparr>ms_modes := tm\<rparr>) st = sinv c evs s st"
  by (simp_all add: sinv_def mem_good_def)

lemma sstep_fields [simp]:
  "sstep c evs s st (s'\<lparr>ms_live := a\<rparr>) ost = sstep c evs s st s' ost"
  "sstep c evs s st (s'\<lparr>ms_exit := b\<rparr>) ost = sstep c evs s st s' ost"
  "sstep c evs s st (s'\<lparr>ms_process := p\<rparr>) ost = sstep c evs s st s' ost"
  "sstep c evs s st (s'\<lparr>ms_worker := w\<rparr>) ost = sstep c evs s st s' ost"
  "sstep c evs s st (s'\<lparr>ms_persistErr := e\<rparr>) ost = sstep c evs s st s' ost"
  "sstep c evs s st (s'\<lparr>ms_resizeID := a'\<rparr>) ost = sstep c evs s st s' ost"
  "sstep c evs s st (s'\<lparr>ms_resizeTime := t\<rparr>) ost = sstep c evs s st s' ost"
  "sstep c evs s st (s'\<lparr>ms_command := cm\<rparr>) ost = sstep c evs s st s' ost"
  "sstep c evs s st (s'\<lparr>ms_fanout := f\<rparr>) ost = sstep c evs s st s' ost"
  "sstep c evs s st (s'\<lparr>ms_modes := tm\<rparr>) ost = sstep c evs s st s' ost"
  by (simp_all add: sstep_def)

lemma move_sstep:
  assumes "sstep c evs s st s1 (Some st1)" and "move to s1 = Inr s2" and "to \<noteq> Deleted" and "to \<noteq> Running"
  shows "sstep c evs s st s2 (Some st1)"
proof -
  have "sinv c evs s1 st1" using assms(1) by (simp add: sstep_def)
  note m = move_sinv[OF this assms(2-4)]
  show ?thesis by (rule sstep_trans[OF assms(1) sstepI[OF m]])
qed

lemma try_move_sstep:
  assumes "sstep c evs s st s1 (Some st1)" and "to \<noteq> Deleted" and "to \<noteq> Running"
  shows "sstep c evs s st (try_move to s1) (Some st1)"
proof -
  have "sinv c evs s1 st1" using assms(1) by (simp add: sstep_def)
  note m = try_move_sinv[OF this assms(2,3)]
  show ?thesis by (rule sstep_trans[OF assms(1) sstepI[OF m]])
qed

lemma persist_after:
  assumes "sstep c evs s st s1 (Some st1)" and "persist f ex s1 (Some st1) = (e, ost)"
  shows "sstep c evs s st s1 ost"
proof -
  have "sinv c evs s1 st1" using assms(1) by (simp add: sstep_def)
  from sstep_trans[OF assms(1) persist_sstep[OF this assms(2)]] show ?thesis .
qed

lemma persist_snd: "sstep c evs s st s1 (Some st1) \<Longrightarrow> sstep c evs s st s1 (snd (persist f ex s1 (Some st1)))"
  using persist_after[of c evs s st s1 st1 f ex "fst (persist f ex s1 (Some st1))"] by simp

section \<open>Output\<close>

lemma mem_history: "sinv c evs s st \<Longrightarrow> history_of evs (ms_history s) \<and> h_max (ms_history s) = cf_history c"
  by (simp add: sinv_def mem_good_def)

definition limits :: "manager_config \<Rightarrow> bool" where
  "limits c \<longleftrightarrow> config_ok c \<and> cf_history c < u64_size"

lemma output_sinv:
  assumes "sinv c evs s st" and "output_only (ms_id s) st st'" and "stored evs' (ms_id s) st'"
    and "history_of evs' h'" and "h_max h' = cf_history c"
  shows "sinv c evs' (s\<lparr>ms_history := h'\<rparr>) st'"
  using assms linked_output[OF _ assms(2,3)] by (auto simp: sinv_def mem_good_def)

lemma flush_pass_settles:
  assumes "history_of evs h" and "h_max h = m" and "stored evs i st" and "0 < m" and "m < u64_size"
  shows "fst (flush_pass fault i m h h st) \<noteq> Again"
proof -
  obtain r where r: "map_of (st_sessions st) i = Some r" "sn_latest r \<le> length (payload evs)"
    using assms(3) by (auto simp: stored_def)
  have wf: "h_latest h - h_earliest h \<le> m" "h_earliest h \<le> h_latest h"
    using assms(1,2) by (auto simp: history_of_def history_wf_def history_open_def dest: contiguous_le)
  have rp: "\<exists>rp. ReplayOwned q m h = Inr rp \<and> rp_to rp = h_latest h" if "h_earliest h \<le> q" "q \<le> h_latest h" for q
  proof -
    have "h_latest h - q \<le> m" using wf(1) that by simp
    then show ?thesis using replay_tail[OF assms(1) that assms(5,4)] by (auto simp: tail_replay_def)
  qed
  show ?thesis
  proof (cases "fault 0")
    case True
    then show ?thesis by (simp add: flush_pass_def OutputBounds_def)
  next
    case False
    obtain rp where rp: "ReplayOwned (max (sn_latest r) (h_earliest h)) m h = Inr rp" "rp_to rp = h_latest h"
      using rp[of "max (sn_latest r) (h_earliest h)"] wf(2) history_of_latest[OF assms(1)] r(2) by auto
    show ?thesis unfolding flush_pass_unfold[of st i r fault m h h, OF r(1) False] rp(1)
      using rp(2) by (auto split: sum.splits prod.splits option.splits)
  qed
qed

lemma stop_sstep:
  assumes "limits c" and "sinv c evs s st" and "stopOutputPersistence c ff s (Some st) = (e, s', ost)"
  shows "sstep c evs s st s' ost"
proof (cases "ms_worker s")
  case Working
  note h = mem_history[OF assms(2)]
  have m: "0 < cf_history c" "cf_history c < u64_size" using assms(1) by (simp_all add: limits_def config_ok_def)
  define st' where "st' = snd (flush_pass ff (ms_id s) (cf_history c) (ms_history s) (ms_history s) st)"
  have o: "output_only (ms_id s) st st'" by (simp add: st'_def flush_pass_only)
  have "stored evs (ms_id s) st" using assms(2) by (simp add: sinv_def linked_def)
  then have "stored (evs @ []) (ms_id s) st'" unfolding st'_def
    using flush_pass_stored[of evs "ms_history s" "[]" "ms_history s"] h m by simp
  then have "sinv c evs (s\<lparr>ms_history := ms_history s\<rparr>) st'" using h by (intro output_sinv[OF assms(2) o]) simp_all
  moreover have "s' = s\<lparr>ms_worker := NoWorker\<rparr>" "ost = Some st'"
    using assms(3) Working by (auto simp: stopOutputPersistence_def st'_def split: prod.splits)
  ultimately show ?thesis using output_only_touches[OF o] by (simp add: sstep_def)
qed (use assms in \<open>auto simp: stopOutputPersistence_def intro: sstep_refl\<close>)

text \<open>Output of the process, and the log of it.\<close>

definition outs :: "bytes list \<Rightarrow> event list \<times> history \<Rightarrow> event list \<times> history" where
  "outs ds = outputs (map (Pair CHR 0x01) ds)"

lemma outs_simps [simp]: "outs [] x = x" "outs (d # ds) x = outs ds (hist_exec (OpAppend CHR 0x01 d) x)"
  by (simp_all add: outs_def outputs_def)

lemma outs_extend:
  "history_of evs h \<Longrightarrow> \<exists>es h'. outs ds (evs, h) = (evs @ es, h') \<and> history_of (evs @ es) h' \<and> h_max h' = h_max h"
  unfolding outs_def by (rule outputs_extend)

lemma capture_history:
  "\<exists>f tm. capture_output d s = s\<lparr>ms_history := snd (hist_exec (OpAppend CHR 0x01 d) (evs, ms_history s)), ms_fanout := f, ms_modes := tm\<rparr>"
proof (cases "appendOwned CHR 0x01 d (ms_history s)")
  case (Pair x h)
  show ?thesis
  proof (cases "d = []")
    case True
    then show ?thesis
      by (intro exI[of _ "ms_fanout s"] exI[of _ "ms_modes s"]) (simp add: capture_output_def appendOwned_def)
  next
    case False
    show ?thesis
    proof (cases x)
      case (Inl e)
      with Pair False show ?thesis
        by (intro exI[of _ "ms_fanout s"] exI[of _ "Consume d (ms_modes s)"]) (simp add: capture_output_def Let_def)
    next
      case (Inr e)
      with Pair False show ?thesis
        by (intro exI[of _ "snd (PublishOwned e (ms_fanout s))"] exI[of _ "Consume d (ms_modes s)"])
          (simp add: capture_output_def Let_def)
    qed
  qed
qed

lemma captures_history:
  "\<exists>f tm. fold capture_output ds s = s\<lparr>ms_history := snd (outs ds (evs, ms_history s)), ms_fanout := f, ms_modes := tm\<rparr>"
proof (induction ds arbitrary: s evs)
  case Nil
  show ?case by (intro exI[of _ "ms_fanout s"] exI[of _ "ms_modes s"]) simp
next
  case (Cons d ds)
  let ?x = "hist_exec (OpAppend CHR 0x01 d) (evs, ms_history s)"
  obtain f tm where a: "capture_output d s = s\<lparr>ms_history := snd ?x, ms_fanout := f, ms_modes := tm\<rparr>"
    using capture_history by blast
  obtain f' tm' where "fold capture_output ds (capture_output d s) = (capture_output d s)\<lparr>ms_history := snd (outs ds (fst ?x, ms_history (capture_output d s))), ms_fanout := f', ms_modes := tm'\<rparr>"
    using Cons.IH by blast
  with a show ?case by (intro exI[of _ f'] exI[of _ tm']) simp
qed

lemma captures_sinv:
  assumes "sinv c evs s st"
  shows "sinv c (fst (outs ds (evs, ms_history s))) (fold capture_output ds s) st"
proof -
  note h = mem_history[OF assms]
  obtain es h' where o: "outs ds (evs, ms_history s) = (evs @ es, h')" "history_of (evs @ es) h'" "h_max h' = cf_history c"
    using outs_extend[of evs "ms_history s" ds] h by auto
  obtain f tm where f: "fold capture_output ds s = s\<lparr>ms_history := h', ms_fanout := f, ms_modes := tm\<rparr>"
    using captures_history[of ds s evs] o(1) by auto
  have "stored (evs @ es) (ms_id s) st" using assms by (auto simp: sinv_def linked_def intro: stored_mono)
  then have "sinv c (evs @ es) (s\<lparr>ms_history := h'\<rparr>) st" using output_sinv[OF assms output_only_refl] o by blast
  with o(1) f show ?thesis by simp
qed

lemma capture_fields: "ms_id (fold capture_output ds s) = ms_id s" "ms_name (fold capture_output ds s) = ms_name s"
  using captures_history[of ds s undefined] by auto

lemma capture_sstep:
  assumes "sinv c evs s st"
  shows "sstep c (fst (outs ds (evs, ms_history s))) s st (fold capture_output ds s) (Some st)"
  using captures_sinv[OF assms] capture_fields by (simp add: sstep_def)

lemma same_worker: "\<exists>w. (t :: managedSession) = t\<lparr>ms_worker := w\<rparr>"
  by (rule exI[of _ "ms_worker t"]) simp

lemma worker_flush_sstep:
  assumes "limits c" and "sinv c evs s st" and "ms_worker s = Working" and "worker_flush c ff ds s (Some st) = (s', ost)"
  shows "sstep c (fst (outs ds (evs, ms_history s))) s st s' ost"
proof -
  note h = mem_history[OF assms(2)]
  have m: "0 < cf_history c" "cf_history c < u64_size" using assms(1) by (simp_all add: limits_def config_ok_def)
  obtain es h' where o: "outs ds (evs, ms_history s) = (evs @ es, h')" "history_of (evs @ es) h'" "h_max h' = cf_history c"
    using outs_extend[of evs "ms_history s" ds] h by auto
  obtain f tm where f: "fold capture_output ds s = s\<lparr>ms_history := h', ms_fanout := f, ms_modes := tm\<rparr>"
    using captures_history[of ds s evs] o(1) by auto
  define st' where "st' = snd (flush_pass ff (ms_id s) (cf_history c) (ms_history s) h' st)"
  have oo: "output_only (ms_id s) st st'" by (simp add: st'_def flush_pass_only)
  have "stored evs (ms_id s) st" using assms(2) by (simp add: sinv_def linked_def)
  then have "stored (evs @ es) (ms_id s) st'" unfolding st'_def
    using flush_pass_stored[OF _ o(2) _ m] h by simp
  then have "sinv c (evs @ es) (s\<lparr>ms_history := h'\<rparr>) st'" using output_sinv[OF assms(2) oo] o by blast
  moreover have "\<exists>w. s' = (s\<lparr>ms_history := h', ms_fanout := f, ms_modes := tm\<rparr>)\<lparr>ms_worker := w\<rparr>" "ost = Some st'"
    using assms(3,4) same_worker[of "s\<lparr>ms_history := h', ms_fanout := f, ms_modes := tm\<rparr>"]
    unfolding worker_flush_def f by (auto simp: st'_def Let_def split: prod.splits if_splits)
  ultimately show ?thesis using output_only_touches[OF oo] o(1) by (auto simp: sstep_def)
qed

lemma clear_sstep:
  assumes "sinv c evs s st" and "session_Clear f s (Some st) = (x, s', ost)"
  shows "sstep c evs s st s' ost"
proof -
  note h = mem_history[OF assms(1)]
  obtain y st' where k: "ClearOutput f (ms_id s) (h_latest (ms_history s)) st = (y, st')" by fastforce
  have o: "output_only (ms_id s) st st'" using output_calls(2)[of "ms_id s" st f "h_latest (ms_history s)"] k by simp
  have "stored evs (ms_id s) st'"
    using ClearOutput_stored[of evs "ms_id s" st f "h_latest (ms_history s)"] k assms(1) by (simp add: sinv_def linked_def)
  note inv = output_sinv[OF assms(1) o this]
  have "sinv c evs (s\<lparr>ms_history := ms_history s\<rparr>) st'" by (rule inv) (use h in simp_all)
  moreover have "sinv c evs (s\<lparr>ms_history := snd (Clear (ms_history s))\<rparr>) st'"
    by (rule inv) (use h Clear_log(1)[of evs "ms_history s"] in \<open>simp_all add: Clear_def\<close>)
  ultimately show ?thesis
    using assms(2) k output_only_touches[OF o]
    by (cases y) (auto simp: session_Clear_def Manager_Clear_def Bounds_def sstep_def split: prod.splits)
qed

section \<open>Life cycle\<close>

lemma resize_sstep:
  assumes "sinv c evs s st" and "session_Resize x f a co ro t s (Some st) = (e, s', ost)"
  shows "sstep c evs s st s' ost"
proof -
  let ?s = "s\<lparr>ms_resizeID := a, ms_resizeTime := t, ms_command := (ms_command s)\<lparr>cm_columns := co, cm_rows := ro\<rparr>\<rparr>"
  have "sstep c evs s st ?s (Some st)" using sstep_refl[OF assms(1)] by simp
  from persist_after[OF this] have "persist f ex ?s (Some st) = (e', o') \<Longrightarrow> sstep c evs s st ?s o'" for ex e' o' .
  then show ?thesis using assms(2) sstep_refl[OF assms(1)]
    by (auto simp: session_Resize_def Let_def split: if_splits prod.splits simp del: sstep_fields)
qed

lemma finish_close_sstep:
  assumes "sstep c evs s st s1 (Some st1)" and "finish_close env s1 (Some st1) = (r, s', ost)"
  shows "sstep c evs s st s' ost"
proof -
  have closed: "sstep c evs s st s' ost"
    if "(let t = s1\<lparr>ms_live := None, ms_exit := Some x, ms_process := None\<rparr>
        in case move Closed t of
             Inl e \<Rightarrow> ((None, errs @ [e]), t, Some st1)
           | Inr u \<Rightarrow>
               (case persist (ce_fault env 1) Closing u (Some st1) of
                  (Some e, ost') \<Rightarrow> ((None, errs @ [e]), u, ost')
                | (None, ost') \<Rightarrow> ((Some (snapshotLocked u), errs), u, ost'))) = (r, s', ost)" for x errs
  proof -
    let ?t = "s1\<lparr>ms_live := None, ms_exit := Some x, ms_process := None\<rparr>"
    have t: "sstep c evs s st ?t (Some st1)" using assms(1) by simp
    show ?thesis
    proof (cases "move Closed ?t")
      case (Inl e)
      with that t show ?thesis by (simp del: sstep_fields)
    next
      case (Inr u)
      from persist_after[OF move_sstep[OF t Inr]] that Inr show ?thesis
        by (auto split: prod.splits option.splits)
    qed
  qed
  show ?thesis using assms closed unfolding finish_close_def Let_def by (auto split: terminate_result.splits)
qed

lemma close_sstep:
  assumes "limits c" and "sinv c evs s st" and "session_Close c env s (Some st) = (r, s', ost)"
  shows "sstep c evs s st s' ost"
proof (cases "fst (Snapshot (ms_lifecycle s))")
  case Running
  show ?thesis
  proof (cases "ms_process s = None")
    case True
    then show ?thesis using assms(2,3) Running by (auto simp: session_Close_def intro: sstep_refl)
  next
    case False
    have s0: "sstep c evs s st (s\<lparr>ms_live := None\<rparr>) (Some st)" using sstep_refl[OF assms(2)] by simp
    show ?thesis
    proof (cases "move Closing (s\<lparr>ms_live := None\<rparr>)")
      case (Inl e)
      then show ?thesis using assms(3) s0 Running False by (simp add: session_Close_def Let_def del: sstep_fields)
    next
      case (Inr s1)
      note s1 = move_sstep[OF s0 Inr, simplified]
      obtain e s2 ost1 where stop: "stopOutputPersistence c (ce_flush env) s1 (Some st) = (e, s2, ost1)" by (metis prod_cases3)
      have "sinv c evs s1 st" using s1 by (simp add: sstep_def)
      note s2' = sstep_trans[OF s1 stop_sstep[OF assms(1) this stop]]
      then obtain st1 where ost1: "ost1 = Some st1" using sstep_store by blast
      note s2 = s2'[unfolded ost1]
      obtain e2 ost2 where p: "persist (ce_fault env 0) Running s2 (Some st1) = (e2, ost2)" by fastforce
      note s3' = persist_after[OF s2 p]
      then obtain st2 where ost2: "ost2 = Some st2" using sstep_store by blast
      note s3 = s3'[unfolded ost2]
      have ex: "sstep c evs s st (s2\<lparr>ms_exit := Some (ce_kill env), ms_process := None\<rparr>) (Some st2)" using s3 by simp
      note kill = try_move_sstep[OF ex, of Closed, simplified]
      show ?thesis
        using assms(3) Running False Inr stop p ost1 ost2 s2 kill finish_close_sstep[OF s3]
        by (auto simp: session_Close_def Let_def split: option.splits)
    qed
  qed
next
  case Exited
  show ?thesis
  proof (cases "move Closing s")
    case (Inl e)
    then show ?thesis using assms(2,3) Exited by (auto simp: session_Close_def intro: sstep_refl)
  next
    case (Inr s1)
    note s1 = move_sstep[OF sstep_refl[OF assms(2)] Inr, simplified]
    show ?thesis
    proof (cases "move Closed s1")
      case (Inl e)
      then show ?thesis using assms(3) s1 Exited Inr by (simp add: session_Close_def)
    next
      case s2: (Inr s2)
      from persist_after[OF move_sstep[OF s1 s2, simplified]] show ?thesis
        using assms(3) Exited Inr s2 by (auto simp: session_Close_def split: option.splits prod.splits)
    qed
  qed
next
  case Closing
  then show ?thesis
    using assms(2,3) finish_close_sstep[OF sstep_refl[OF assms(2)]]
    by (auto simp: session_Close_def intro: sstep_refl split: if_splits)
qed (use assms in \<open>auto simp: session_Close_def intro: sstep_refl\<close>)

lemma finishClosing_sstep:
  assumes "sinv c evs s st" and "finishClosing f t p s (Some st) = (s', ost)"
  shows "sstep c evs s st s' ost"
proof -
  have x: "sstep c evs s st (s\<lparr>ms_exit := Some x, ms_process := None\<rparr>) (Some st)" for x
    using sstep_refl[OF assms(1)] by simp
  have "move Closed (s\<lparr>ms_exit := Some x, ms_process := None\<rparr>) = Inr u \<Longrightarrow> sstep c evs s st u (snd (persist f Closing u (Some st)))" for x u
    using persist_snd[OF move_sstep[OF x]] by simp
  then show ?thesis
    using assms x sstep_refl[OF assms(1)]
    by (auto simp: finishClosing_def Let_def simp del: sstep_fields split: if_splits terminate_result.splits sum.splits)
qed

lemma capture_exit_sstep:
  assumes "sinv c evs s st" and "capture_exit f pe x p s (Some st) = (s', ost)"
  shows "sstep c evs s st s' ost"
proof -
  have 1: "sstep c evs s st (s\<lparr>ms_persistErr := pe\<rparr>) (Some st)" using sstep_refl[OF assms(1)] by simp
  let ?u = "(try_move Exited (s\<lparr>ms_persistErr := pe\<rparr>))\<lparr>ms_exit := Some x, ms_live := None, ms_process := None\<rparr>"
  have "sstep c evs s st ?u (Some st)" using try_move_sstep[OF 1, of Exited] by simp
  from persist_snd[OF this] show ?thesis
    using assms(2) 1 sstep_refl[OF assms(1)]
    by (auto simp: capture_exit_def Let_def simp del: sstep_fields split: if_splits)
qed

lemma move_Running:
  assumes "sinv c evs s st" and "move Running s = Inr s'" and "lc_generation (ms_lifecycle s) < 2 ^ 63"
  shows "sinv c evs (s'\<lparr>ms_inputs := SetGeneration (lc_generation (ms_lifecycle s')) (ms_inputs s')\<rparr>) st"
    and "ms_id s' = ms_id s" and "ms_name s' = ms_name s"
proof -
  note m = move_core[OF assms(2)]
  have "(2 :: nat) ^ 63 < u64_size" by (simp add: u64_size_def)
  then have u: "u64_add (lc_generation (ms_lifecycle s)) 1 = lc_generation (ms_lifecycle s) + 1"
    using assms(3) by (simp add: u64)
  have t: "lc_state (ms_lifecycle s') = Running" "lc_generation (ms_lifecycle s') = lc_generation (ms_lifecycle s) + 1"
    using m u by (auto simp: Transition_Inr enter_Running)
  have "lc_good (ms_lifecycle s')" using t assms(3) by (simp add: lc_good_def)
  then show "sinv c evs (s'\<lparr>ms_inputs := SetGeneration (lc_generation (ms_lifecycle s')) (ms_inputs s')\<rparr>) st"
    using assms(1) m by (auto simp: sinv_def mem_good_def same_core_def SetGeneration_def journal_good_def)
  show "ms_id s' = ms_id s" "ms_name s' = ms_name s" using m by (simp_all add: same_core_def)
qed

lemma start_sstep: "sstep c evs s st (startOutputPersistence o' s1) ost = sstep c evs s st s1 ost"
  by (simp add: startOutputPersistence_def)

lemma restart_sstep:
  assumes "sinv c evs s st" and "session_Restart f l s (Some st) = (r, s', ost)"
  shows "sstep c evs s st s' ost"
proof (cases "fst (Snapshot (ms_lifecycle s)) = Exited \<or> fst (Snapshot (ms_lifecycle s)) = Closed")
  case False
  then show ?thesis using assms by (auto simp: session_Restart_def Let_def intro: sstep_refl)
next
  case st: True
  show ?thesis
  proof (cases "move Restarting s")
    case (Inl e)
    then show ?thesis using assms st by (auto simp: session_Restart_def Let_def intro: sstep_refl)
  next
    case (Inr s1)
    note s1 = move_sstep[OF sstep_refl[OF assms(1)] Inr, simplified]
    obtain e ost1 where p1: "persist (f 0) (fst (Snapshot (ms_lifecycle s))) s1 (Some st) = (e, ost1)" by fastforce
    note s1p = persist_after[OF s1 p1]
    then obtain st1 where ost1: "ost1 = Some st1" "sinv c evs s1 st1" using sstep_store by blast
    note s1q = s1p[unfolded ost1(1)]
    note closed = try_move_sstep[OF s1q, of Closed, simplified]
    show ?thesis
    proof (cases "e \<noteq> None \<or> l = None \<or> (\<exists>x. move Running s1 = Inl x)")
      case True
      then show ?thesis using assms(2) st Inr p1 ost1(1) closed s1q persist_snd[OF closed]
        by (auto simp: session_Restart_def Let_def split: option.splits)
    next
      case False
      then obtain q s2 where l: "e = None" "l = Some q" "move Running s1 = Inr s2"
        by (cases "move Running s1") auto
      define g where "g = lc_generation (ms_lifecycle s2)"
      define s3 where "s3 = startOutputPersistence (Some st1)
        (s2\<lparr>ms_inputs := SetGeneration g (ms_inputs s2), ms_process := Some q, ms_exit := None, ms_live := Some (q, g)\<rparr>)"
      note run = move_Running[OF ost1(2) l(3) persist_checked[OF p1[unfolded l(1)]]]
      have "sstep c evs s1 st1 s3 (Some st1)"
        using run unfolding s3_def g_def start_sstep by (simp add: sstep_def)
      note s3' = sstep_trans[OF s1q this]
      obtain e2 ost2 where p2: "persist (f 1) Restarting s3 (Some st1) = (e2, ost2)" by fastforce
      note s4 = persist_after[OF s3' p2]
      then obtain st2 where ost2: "ost2 = Some st2" using sstep_store by blast
      have dead: "sstep c evs s st (s3\<lparr>ms_live := None, ms_process := None\<rparr>) (Some st2)" using s4 ost2 by simp
      show ?thesis
        using assms(2) st Inr p1 ost1(1) l p2 ost2 s4 try_move_sstep[OF dead, of Exited, simplified]
        by (auto simp: session_Restart_def Let_def Snapshot_def g_def[symmetric] s3_def[symmetric] split: option.splits)
    qed
  qed
qed

text \<open>What clients do to a session's output leaves its rows alone.\<close>

lemma output_op_sinv:
  assumes "sinv c evs s st"
  shows "sinv c evs (snd (attachLocked M B a fr s)) st" and "sinv c evs (snd (AttachLive M B a s)) st"
    and "sinv c evs (snd (session_Acknowledge a n s)) st"
proof -
  have at: "snd (attachLocked M B a x s) = s \<or> (\<exists>f. snd (attachLocked M B a x s) = s\<lparr>ms_fanout := f\<rparr>)" for x
    by (auto simp: attachLocked_def Let_def split: sum.splits prod.splits option.splits)
  have at': "sinv c evs (snd (attachLocked M B a x s)) st" for x
    using at[of x] assms by (elim disjE exE) (simp_all only: sinv_fields)
  show "sinv c evs (snd (attachLocked M B a fr s)) st" by (rule at')
  have "AttachLive M B a s = attachLocked M B a (h_latest (ms_history s)) s" by (simp add: AttachLive_def Bounds_def)
  then show "sinv c evs (snd (AttachLive M B a s)) st" using at' by simp
  note h = mem_history[OF assms]
  have "sinv c evs (s\<lparr>ms_history := snd (Acknowledge a n (ms_history s))\<rparr>) st"
    using h Acknowledge_log[of evs "ms_history s" a n] assms
    by (auto simp: sinv_def mem_good_def Acknowledge_def)
  then show "sinv c evs (snd (session_Acknowledge a n s)) st"
    using assms by (auto simp: session_Acknowledge_def split: sum.splits prod.splits attachment_state.splits)
qed

lemma attach_ids:
  "ms_id (snd (attachLocked M B a fr s)) = ms_id s" "ms_name (snd (attachLocked M B a fr s)) = ms_name s"
  "ms_id (snd (AttachLive M B a s)) = ms_id s" "ms_name (snd (AttachLive M B a s)) = ms_name s"
  by (auto simp: AttachLive_def attachLocked_def Let_def split: sum.splits prod.splits option.splits)

section \<open>Input\<close>

text \<open>The identity that the terminal protocol gives every input.\<close>

definition key_good :: "inputKey \<Rightarrow> bool" where
  "key_good k \<longleftrightarrow> ik_client k \<noteq> [] \<and> ik_attachment k \<noteq> [] \<and> ik_sequence k \<noteq> 0 \<and> ik_sequence k < u64_size"

definition plain :: "inputKey \<Rightarrow> inputKey" where
  "plain k = k\<lparr>ik_id := []\<rparr>"

lemma plain_key:
  assumes "key_good k"
  shows "normalizeInputKey k = (plain k, False)" and "normalizeInputKey (plain k) = (plain k, False)"
    and "ik_id (plain k) = []" and "key_good (plain k)" and "ik_generation (plain k) = ik_generation k"
    and "ik_attachment (plain k) = ik_attachment k" and "ik_sequence (plain k) = ik_sequence k"
  using assms by (simp_all add: key_good_def plain_def normalizeInputKey_def)

lemma decision_row_key:
  assumes "key_good k" and "ik_id k = []"
  shows "row_key (decision_row i k h st n e) = k"
proof -
  have "0 < ik_sequence k" "ik_sequence k < u64_size" using assms(1) by (simp_all add: key_good_def)
  then have "row_key (decision_row i k h st n e) = \<lparr>ik_client = ik_client k, ik_attachment = ik_attachment k,
      ik_generation = ik_generation k, ik_sequence = ik_sequence k, ik_id = []\<rparr>"
    using parse_format[of "ik_sequence k"]
    by (simp only: row_key_def decision_row_def inputStorageID_def input_row.simps Let_def) simp
  also have "\<dots> = k" using assms(2) by (cases k) simp
  finally show ?thesis .
qed

lemma length_update:
  "length (AList.update k v xs) = (case map_of xs k of None \<Rightarrow> Suc (length xs) | Some _ \<Rightarrow> length xs)"
  by (induction xs) (auto split: option.splits)

text \<open>A key that the journal does not know yet and admits: it is reserved, written and recorded.\<close>

lemma journal_Write_new:
  assumes "key_good k" and "ik_id k = []" and "map_of (j_decisions j) k = None" and "int (length (j_decisions j)) < j_max j"
    and "sequence_error k j = None" and "ik_generation k = j_current j" and "0 < j_current j" and "distinct (map fst (j_decisions j))"
  shows "\<exists>d j'. journal_Write sha k data (Some w) j = (Inr (publicDecision d), [data], j') \<and> id_status d \<noteq> InputDuplicate \<and>
     dom (map_of (j_decisions j')) = insert k (dom (map_of (j_decisions j))) \<and>
     length (j_decisions j') = Suc (length (j_decisions j)) \<and> distinct (map fst (j_decisions j')) \<and>
     j_max j' = j_max j \<and> j_current j' = j_current j"
proof -
  define d where "d = \<lparr>id_status = InputUncertain, id_sequence = ik_sequence k, id_bytes = 0, id_error = [], id_hash = sha data\<rparr>"
  define j1 where "j1 = j\<lparr>j_decisions := AList.update k d (j_decisions j),
    j_last := AList.update (cursor_of k) (ik_sequence k) (j_last j)\<rparr>"
  have nk: "normalizeInputKey k = (k, False)" using assms(1,2) by (cases k) (simp add: key_good_def normalizeInputKey_def)
  have r: "reserve sha k data True j = (Reserved k d, j1)"
    using assms nk by (simp add: reserve_def key_good_def d_def j1_def Let_def)
  obtain n err where w: "w data = (n, err)" by fastforce
  define d' where "d' = outcome k data n err d"
  have h: "id_hash d' = sha data" "id_status d' \<noteq> InputDuplicate" by (simp_all add: d'_def outcome_def d_def Let_def)
  have l1: "map_of (j_decisions j1) = (map_of (j_decisions j))(k \<mapsto> d)" by (simp add: j1_def update_conv')
  then have "complete k d' j1 = j1\<lparr>j_decisions := AList.update k d' (j_decisions j1)\<rparr>"
    using h(1) by (simp add: complete_def d_def)
  then have wr: "journal_Write sha k data (Some w) j = (Inr (publicDecision d'), [data], j1\<lparr>j_decisions := AList.update k d' (j_decisions j1)\<rparr>)"
    using r w by (simp add: journal_Write_def d'_def Let_def)
  have dis: "distinct (map fst (j_decisions j1))" using assms(8) by (simp add: j1_def distinct_update)
  have n1: "length (j_decisions j1) = Suc (length (j_decisions j))"
    using assms(3) by (simp add: j1_def length_update)
  show ?thesis
    using wr h(2) l1 dis n1 assms(8)
    by (intro exI[of _ d'] exI[of _ "j1\<lparr>j_decisions := AList.update k d' (j_decisions j1)\<rparr>"])
      (auto simp: update_conv' distinct_update j1_def length_update)
qed

lemma inputs_bound:
  assumes "inputs_good c ds" and "row_key ` set ds \<subseteq> dom (map_of xs)"
  shows "length ds \<le> length xs"
proof -
  have "length ds = card (row_key ` set ds)"
    using assms(1) distinct_card[of "map row_key ds"] by (simp add: inputs_good_def)
  also have "\<dots> \<le> card (dom (map_of xs))" using assms(2) by (intro card_mono) (simp_all add: finite_dom_map_of)
  also have "\<dots> \<le> length xs" by (metis card_length dom_map_of_conv_image_fst length_map list.set_map)
  finally show ?thesis .
qed

definition sha_sized :: "(bytes \<Rightarrow> bytes) \<Rightarrow> bool" where
  "sha_sized sha \<longleftrightarrow> (\<forall>d. length (sha d) = 32)"

lemma decision_row_good:
  assumes "key_good k" and "ik_id k = []" and "0 < ik_generation k" and "sha_sized sha" and "st \<noteq> InputDuplicate"
  shows "input_good (decision_row i k (sha d) st n e)"
proof -
  note rk = decision_row_key[OF assms(1,2), of i "sha d" st n e]
  show ?thesis unfolding input_good_def rk using assms
    by (auto simp: decision_row_def key_good_def sha_sized_def)
qed

text \<open>A decision is on record before the process gets the input.\<close>

lemma put_linked:
  assumes "linked c evs i name (dom (map_of xs)) st" and "key_good k" and "ik_id k = []" and "0 < ik_generation k"
    and "sha_sized sha" and "map_of xs k = None" and "int (length xs) < cf_maxInputs c"
    and "PutInputDecision f (decision_row i k (sha d) InputUncertain 0 []) st = (Inr True, st')"
  shows "linked c evs i name (insert k (dom (map_of xs))) st'" and "touches i st st'"
    and "k \<in> row_key ` set (inputs_of i st')"
proof -
  let ?d = "decision_row i k (sha d) InputUncertain 0 []"
  have st': "st' = st\<lparr>st_inputs := st_inputs st @ [?d]\<rparr>"
    using assms(8) by (auto simp: PutInputDecision_def split: if_splits option.splits)
  have rk: "row_key ?d = k" by (rule decision_row_key[OF assms(2,3)])
  have ses: "ir_session ?d = i" by (simp add: decision_row_def)
  have iof: "inputs_of i st' = inputs_of i st @ [?d]" using ses by (simp add: inputs_of_def st')
  have g: "inputs_good c (inputs_of i st)" "row_key ` set (inputs_of i st) \<subseteq> dom (map_of xs)"
    using assms(1) by (simp_all add: linked_def)
  have "inputs_good c (inputs_of i st')"
    using g inputs_bound[OF g] assms(6,7) decision_row_good[OF assms(2-5), of InputUncertain i d 0 "[]"] rk
    unfolding iof by (auto simp: inputs_good_def)
  moreover have "stored evs i st'" using assms(1) by (simp add: linked_def stored_def st' output_of_def)
  ultimately show "linked c evs i name (insert k (dom (map_of xs))) st'"
    using assms(1) g(2) rk unfolding linked_def iof by (auto simp: st')
  show "touches i st st'" using ses by (auto simp: touches_def same_view_def st' output_of_def inputs_of_def)
  show "k \<in> row_key ` set (inputs_of i st')" using iof rk by (auto simp: image_iff)
qed

text \<open>Recording the outcome keeps the identities of the stored decisions.\<close>

lemma UpdateInputDecision_rows:
  "inputs_of j (snd (UpdateInputDecision f d st)) =
     (if fst (UpdateInputDecision f d st) = Inr ()
      then map (\<lambda>x. if same_input d x \<and> ir_hash x = ir_hash d
                    then x\<lparr>ir_status := ir_status d, ir_bytes := ir_bytes d, ir_error := ir_error d\<rparr> else x) (inputs_of j st)
      else inputs_of j st)"
proof -
  have "filter (\<lambda>d. ir_session d = j) (map (\<lambda>x. if P x then x\<lparr>ir_status := a, ir_bytes := b, ir_error := e\<rparr> else x) xs) =
      map (\<lambda>x. if P x then x\<lparr>ir_status := a, ir_bytes := b, ir_error := e\<rparr> else x) (filter (\<lambda>d. ir_session d = j) xs)"
    for P a b e and xs :: "input_row list"
    by (induction xs) auto
  then show ?thesis by (simp add: UpdateInputDecision_def inputs_of_def Let_def)
qed

lemma row_key_status: "row_key (x\<lparr>ir_status := a, ir_bytes := b, ir_error := e\<rparr>) = row_key x"
  by (simp add: row_key_def)

lemma input_good_status:
  "input_good x \<Longrightarrow> st \<noteq> InputDuplicate \<Longrightarrow> input_good (x\<lparr>ir_status := status_string st, ir_bytes := b, ir_error := e\<rparr>)"
  by (auto simp: input_good_def row_key_status)

lemma update_linked:
  assumes "linked c evs i name ks st" and "ir_session d = i" and "ir_status d = status_string s" and "s \<noteq> InputDuplicate"
  shows "linked c evs i name ks (snd (UpdateInputDecision f d st))" and "touches i st (snd (UpdateInputDecision f d st))"
    and "row_key ` set (inputs_of i (snd (UpdateInputDecision f d st))) = row_key ` set (inputs_of i st)"
proof -
  let ?st = "snd (UpdateInputDecision f d st)" and ?g = "\<lambda>x. if same_input d x \<and> ir_hash x = ir_hash d
    then x\<lparr>ir_status := ir_status d, ir_bytes := ir_bytes d, ir_error := ir_error d\<rparr> else x"
  have keys: "row_key (?g x) = row_key x" for x by (simp add: row_key_status)
  have rows: "st_sessions ?st = st_sessions st" "st_output ?st = st_output st"
    by (simp_all add: UpdateInputDecision_def Let_def)
  have m: "map row_key (inputs_of i ?st) = map row_key (inputs_of i st)"
    unfolding UpdateInputDecision_rows by (simp add: keys comp_def)
  have "list_all input_good (inputs_of i ?st)"
    using assms(1,3,4) unfolding UpdateInputDecision_rows
    by (auto simp: linked_def inputs_good_def list_all_iff intro: input_good_status)
  moreover have len: "length (inputs_of i ?st) = length (inputs_of i st)" unfolding UpdateInputDecision_rows by simp
  ultimately have "inputs_good c (inputs_of i ?st)" using assms(1) by (simp add: linked_def inputs_good_def m)
  moreover show im: "row_key ` set (inputs_of i ?st) = row_key ` set (inputs_of i st)" using m by (metis list.set_map)
  moreover have "stored evs i ?st" using assms(1) by (simp add: linked_def stored_def rows output_of_def)
  ultimately show "linked c evs i name ks ?st" using assms(1) by (simp add: linked_def rows)
  have "inputs_of j ?st = inputs_of j st" if "j \<noteq> i" for j
  proof -
    have "?g x = x" if "x \<in> set (inputs_of j st)" for x
      using that \<open>j \<noteq> i\<close> assms(2) by (auto simp: inputs_of_def same_input_def)
    then have "map ?g (inputs_of j st) = inputs_of j st" by (intro map_idI)
    then show ?thesis unfolding UpdateInputDecision_rows by presburger
  qed
  then show "touches i st ?st" by (simp add: touches_def same_view_def rows output_of_def)
qed

lemma query_write:
  assumes "key_good k" and "0 < ik_generation k" and "Query (plain k) j = Inr d"
  shows "\<exists>r. journal_Write sha (plain k) data (Some w) j = (r, [], j)"
proof -
  obtain x where "map_of (j_decisions j) (plain k) = Some x"
    using assms(3) plain_key(2)[OF assms(1)] by (auto simp: Query_def split: option.splits)
  then have "\<exists>r. reserve sha (plain k) data True j = (Answered r, j)"
    using plain_key[OF assms(1)] assms(1,2) by (auto simp: reserve_def key_good_def Let_def)
  then show ?thesis by (auto simp: journal_Write_def)
qed

text \<open>
  \<^verbatim>\<open>Write\<close> keeps the session recoverable, and what reaches the process is on record, before and
  after.
\<close>

lemma write_sstep:
  assumes "sinv c evs s st" and "key_good k" and "sha_sized sha"
    and "session_Write sha f w k data s (Some st) = (r, out, s', ost)"
  shows "sstep c evs s st s' ost \<and>
     (out \<noteq> [] \<longrightarrow> (\<exists>st'. ost = Some st' \<and> plain k \<in> row_key ` set (inputs_of (ms_id s) st') \<and> plain k \<notin> decided s))"
proof -
  let ?j = "ms_inputs s" and ?k = "plain k"
  note pk = plain_key[OF assms(2)]
  have mg: "mem_good c evs s" and lk: "linked c evs (ms_id s) (ms_name s) (decided s) st"
    using assms(1) by (simp_all add: sinv_def)
  show ?thesis
  proof (cases "lc_state (ms_lifecycle s) = Running \<and> ms_process s \<noteq> None \<and> ik_generation k = lc_generation (ms_lifecycle s) \<and>
      attached_now (ik_attachment k) s")
    case False
    then have "s' = s \<and> ost = Some st \<and> out = []"
      using assms(4) by (auto simp: session_Write_def Snapshot_def Let_def split: if_splits)
    then show ?thesis using sstep_refl[OF assms(1)] by simp
  next
    case True
    have gen: "ik_generation ?k = j_current ?j" "0 < j_current ?j" "0 < ik_generation k"
      using True mg pk(5) by (auto simp: mem_good_def lc_good_def)
    show ?thesis
    proof (cases "Query ?k ?j")
      case (Inr d)
      obtain x where "journal_Write sha ?k data (Some w) ?j = (x, [], ?j)" using query_write[OF assms(2) gen(3) Inr] by blast
      then have "s' = s \<and> ost = Some st \<and> out = []"
        using assms(4) True Inr pk(1) by (cases x) (auto simp: session_Write_def Snapshot_def Let_def)
      then show ?thesis using sstep_refl[OF assms(1)] by simp
    next
      case q: (Inl e)
      then have new: "map_of (j_decisions ?j) ?k = None" using pk(2) by (auto simp: Query_def split: option.splits)
      show ?thesis
      proof (cases "Admit ?k ?j = None \<and> fst (PutInputDecision (f 0) (decision_row (ms_id s) ?k (sha data) InputUncertain 0 []) st) = Inr True")
        case False
        then have "s' = s \<and> ost = Some st \<and> out = []"
          using assms(4) True q pk(1)
          by (auto simp: session_Write_def Snapshot_def Let_def PutInputDecision_def split: option.splits if_splits)
        then show ?thesis using sstep_refl[OF assms(1)] by simp
      next
        case adm: True
        obtain st1 where put: "PutInputDecision (f 0) (decision_row (ms_id s) ?k (sha data) InputUncertain 0 []) st = (Inr True, st1)"
          using adm by (metis prod.collapse)
        have room: "int (length (j_decisions ?j)) < j_max ?j" "sequence_error ?k ?j = None" "j_max ?j = cf_maxInputs c" "distinct (map fst (j_decisions ?j))"
          using adm new pk(2) mg by (auto simp: Admit_def Let_def mem_good_def journal_good_def split: if_splits)
        note put' = put_linked[OF lk pk(4,3) _ assms(3) new _ put, unfolded pk(5), OF gen(3)]
        obtain d j' where jw: "journal_Write sha ?k data (Some w) ?j = (Inr (publicDecision d), [data], j')"
          and d: "id_status d \<noteq> InputDuplicate" and j': "dom (map_of (j_decisions j')) = insert ?k (decided s)"
            "length (j_decisions j') = Suc (length (j_decisions ?j))" "distinct (map fst (j_decisions j'))"
            "j_max j' = j_max ?j" "j_current j' = j_current ?j"
          using journal_Write_new[OF pk(4,3) new room(1,2) gen(1,2) room(4)] by blast
        have lk1: "linked c evs (ms_id s) (ms_name s) (insert ?k (decided s)) st1" "touches (ms_id s) st st1"
          "?k \<in> row_key ` set (inputs_of (ms_id s) st1)"
          using put' room by simp_all
        let ?d = "decision_row (ms_id s) ?k (sha data) (id_status d) (id_bytes d) (id_error d)"
        have dd: "ir_session ?d = ms_id s" "ir_status ?d = status_string (id_status d)" by (simp_all add: decision_row_def)
        note up = update_linked[OF lk1(1) dd d, of "f 1"]
        have res: "s' = s\<lparr>ms_inputs := j'\<rparr>" "ost = Some (snd (UpdateInputDecision (f 1) ?d st1))"
          using assms(4) True q adm put jw pk(1)
          by (auto simp: session_Write_def Snapshot_def Let_def publicDecision_def split: prod.splits sum.splits)
        have "mem_good c evs s'" using mg j' room(1,3) res(1) by (auto simp: mem_good_def journal_good_def)
        then have "sinv c evs s' (snd (UpdateInputDecision (f 1) ?d st1))" using up(1) j'(1) res(1) by (simp add: sinv_def)
        then have "sstep c evs s st s' ost" using up(2) lk1(2) res by (auto simp: sstep_def intro: touches_trans)
        moreover have "?k \<in> row_key ` set (inputs_of (ms_id s) (snd (UpdateInputDecision (f 1) ?d st1)))" using up(3) lk1(3) by simp
        ultimately show ?thesis using res(2) new by auto
      qed
    qed
  qed
qed

section \<open>A session over time\<close>

text \<open>
  Everything that happens to a session. Besides the operations of the manager these are the
  output of a process, the passes of the persistence worker, the two steps at the end of a
  process's output and the row that \<^verbatim>\<open>ShutdownForRecovery\<close> writes for a closed session. The first
  component is all output that the session ever produced.
\<close>

datatype session_act =
    AOutput bytes
  | AFlush "nat \<Rightarrow> bool" "bytes list"
  | ACaptureStop "nat \<Rightarrow> bool"
  | ACaptureExit bool "flush_result option" exit_result nat
  | AAttach string nat
  | AAttachLive string
  | ADetach string
  | ANext string
  | AAck string nat
  | AWrite "nat \<Rightarrow> bool" "bytes \<Rightarrow> int \<times> bool" inputKey bytes
  | AResize bool bool string nat nat int
  | AClear bool
  | AClose close_env
  | AFinish bool terminate_result nat
  | ARestart "nat \<Rightarrow> bool" "nat option"
  | AMark bool

type_synonym session_world = "event list \<times> managedSession \<times> store option"

fun act :: "(bytes \<Rightarrow> bytes) \<Rightarrow> manager_config \<Rightarrow> session_act \<Rightarrow> session_world \<Rightarrow> session_world" where
  "act sha c (AOutput d) (evs, s, ost) = (fst (outs [d] (evs, ms_history s)), capture_output d s, ost)"
| "act sha c (AFlush ff ds) (evs, s, ost) =
     (if ms_worker s = Working
      then (fst (outs ds (evs, ms_history s)), worker_flush c ff ds s ost) else (evs, s, ost))"
| "act sha c (ACaptureStop ff) (evs, s, ost) = (evs, snd (stopOutputPersistence c ff s ost))"
| "act sha c (ACaptureExit f e x p) (evs, s, ost) = (evs, capture_exit f e x p s ost)"
| "act sha c (AAttach a fr) (evs, s, ost) = (evs, snd (attachLocked (nat (cf_maxAttachments c)) (cf_attachment c) a fr s), ost)"
| "act sha c (AAttachLive a) (evs, s, ost) = (evs, snd (AttachLive (nat (cf_maxAttachments c)) (cf_attachment c) a s), ost)"
| "act sha c (ADetach a) (evs, s, ost) = (evs, s\<lparr>ms_fanout := snd (Detach a (ms_fanout s))\<rparr>, ost)"
| "act sha c (ANext a) (evs, s, ost) = (evs, s\<lparr>ms_fanout := snd (Next a (ms_fanout s))\<rparr>, ost)"
| "act sha c (AAck a n) (evs, s, ost) = (evs, snd (session_Acknowledge a n s), ost)"
| "act sha c (AWrite f w k d) (evs, s, ost) = (evs, snd (snd (session_Write sha f w k d s ost)))"
| "act sha c (AResize x f a co ro t) (evs, s, ost) = (evs, snd (session_Resize x f a co ro t s ost))"
| "act sha c (AClear f) (evs, s, ost) = (evs, snd (session_Clear f s ost))"
| "act sha c (AClose env) (evs, s, ost) = (evs, snd (session_Close c env s ost))"
| "act sha c (AFinish f t p) (evs, s, ost) = (evs, finishClosing f t p s ost)"
| "act sha c (ARestart f l) (evs, s, ost) = (evs, snd (session_Restart f l s ost))"
| "act sha c (AMark f) (evs, s, ost) =
     (evs, s, if lc_state (ms_lifecycle s) = Closed then snd (update_row f Closed (recoverable_row Running s) ost) else ost)"

fun act_ok :: "session_act \<Rightarrow> bool" where
  "act_ok (AWrite f w k d) \<longleftrightarrow> key_good k"
| "act_ok _ \<longleftrightarrow> True"

lemma act_sstep:
  assumes "limits c" and "sha_sized sha" and "sinv c evs s st" and "act_ok a" and "act sha c a (evs, s, Some st) = (evs', s', ost)"
  shows "sstep c evs' s st s' ost"
proof (cases a)
  case (AOutput d)
  then show ?thesis using capture_sstep[OF assms(3), of "[d]"] assms(5) by auto
next
  case (AFlush ff ds)
  then show ?thesis using worker_flush_sstep[OF assms(1,3), of ff ds s' ost] assms(5) sstep_refl[OF assms(3)]
    by (auto split: if_splits)
next
  case (ACaptureStop ff)
  then show ?thesis using stop_sstep[OF assms(1,3), of ff "fst (stopOutputPersistence c ff s (Some st))" s' ost] assms(5)
    by (metis act.simps(3) prod.collapse prod.inject)
next
  case (AWrite f w k d)
  obtain r out s1 o1 where w: "session_Write sha f w k d s (Some st) = (r, out, s1, o1)" by (metis prod_cases4)
  then show ?thesis using write_sstep[OF assms(3) _ assms(2) w] assms(4,5) AWrite by simp
next
  case (AResize x f a' co ro t)
  obtain r s1 o1 where w: "session_Resize x f a' co ro t s (Some st) = (r, s1, o1)" by (metis prod_cases3)
  then show ?thesis using resize_sstep[OF assms(3) w] assms(5) AResize by simp
next
  case (AClear f)
  obtain r s1 o1 where w: "session_Clear f s (Some st) = (r, s1, o1)" by (metis prod_cases3)
  then show ?thesis using clear_sstep[OF assms(3) w] assms(5) AClear by simp
next
  case (AClose env)
  obtain r s1 o1 where w: "session_Close c env s (Some st) = (r, s1, o1)" by (metis prod_cases3)
  then show ?thesis using close_sstep[OF assms(1,3) w] assms(5) AClose by simp
next
  case (ARestart f l)
  obtain r s1 o1 where w: "session_Restart f l s (Some st) = (r, s1, o1)" by (metis prod_cases3)
  then show ?thesis using restart_sstep[OF assms(3) w] assms(5) ARestart by simp
next
  case (AMark f)
  have g: "0 < lc_generation (ms_lifecycle s)" using assms(3) by (simp add: sinv_def mem_good_def lc_good_def)
  have r: "sn_id (recoverable_row Running s) = ms_id s" "sn_state (recoverable_row Running s) = state_string Running"
    "sn_generation (recoverable_row Running s) = lc_generation (ms_lifecycle s)"
    by (simp_all add: recoverable_row_def storeRecord_fields)
  have "sstep c evs s st s (snd (update_row f Closed (recoverable_row Running s) (Some st)))"
    by (rule update_row_sstep[OF assms(3) r(1,2), of f Closed "fst (update_row f Closed (recoverable_row Running s) (Some st))"])
      (use r(3) g in \<open>simp_all add: state_good_def\<close>)
  then show ?thesis using AMark assms(5) sstep_refl[OF assms(3)] by (auto split: if_splits)
next
  case (AAck a' n)
  have "ms_id (snd (session_Acknowledge a' n s)) = ms_id s \<and> ms_name (snd (session_Acknowledge a' n s)) = ms_name s"
    by (auto simp: session_Acknowledge_def split: sum.splits prod.splits attachment_state.splits)
  then show ?thesis using AAck assms(5) output_op_sinv(3)[OF assms(3)] by (auto simp: sstep_def)
next
  case (AFinish f t p)
  then show ?thesis using finishClosing_sstep[OF assms(3), of f t p s' ost] assms(5) by simp
next
  case (ACaptureExit f e x p)
  then show ?thesis using capture_exit_sstep[OF assms(3), of f e x p s' ost] assms(5) by simp
next
  case (AAttach a' fr)
  then show ?thesis using assms(5) output_op_sinv(1)[OF assms(3)] attach_ids by (auto simp: sstep_def)
next
  case (AAttachLive a')
  then show ?thesis using assms(5) output_op_sinv(2)[OF assms(3)] attach_ids by (auto simp: sstep_def)
qed (use assms sstep_refl[OF assms(3)] in auto)

end
