(* ===== verification/Manager_Recovery.thy ===== *)
theory Manager_Recovery
  imports Session_Recovery
begin

text \<open>
  The whole manager over time, and what a restart finds. Sessions are created, live and are
  deleted in any order and with any database failures; the stored rows stay recoverable, and
  \<^verbatim>\<open>NewManager\<close> rebuilds every session from them.
\<close>

section \<open>Runs of the manager\<close>

text \<open>\<open>wd_log\<close> holds all output that each session produced since its creation.\<close>

record world =
  wd_manager :: manager
  wd_log :: "string \<Rightarrow> event list"

datatype manager_op =
    MCreate create_env string string command
  | MAct string session_act
  | MDelete string bool
  | MStop

fun manager_exec :: "(bytes \<Rightarrow> bytes) \<Rightarrow> manager_op \<Rightarrow> world \<Rightarrow> world" where
  "manager_exec sha (MCreate env i name cmd) w =
     w\<lparr>wd_manager := snd (Create env i name cmd (wd_manager w))\<rparr>"
| "manager_exec sha (MAct i a) w =
     (let m = wd_manager w
      in case map_of (mg_sessions m) i of
           None \<Rightarrow> w
         | Some s \<Rightarrow>
             (case act sha (mg_config m) a (wd_log w i, s, mg_store m) of
                (evs, s', ost) \<Rightarrow>
                  w\<lparr>wd_manager := m\<lparr>mg_sessions := AList.update i s' (mg_sessions m), mg_store := ost\<rparr>,
                    wd_log := (wd_log w)(i := evs)\<rparr>))"
| "manager_exec sha (MDelete i f) w =
     (case delete_ended f i (wd_manager w) of
        (None, m) \<Rightarrow> w\<lparr>wd_manager := m, wd_log := (wd_log w)(i := [])\<rparr>
      | (Some e, m) \<Rightarrow> w\<lparr>wd_manager := m\<rparr>)"
| "manager_exec sha MStop w = w\<lparr>wd_manager := (wd_manager w)\<lparr>mg_stopping := True\<rparr>\<rparr>"

fun op_ok :: "manager_op \<Rightarrow> bool" where
  "op_ok (MAct i a) \<longleftrightarrow> act_ok a"
| "op_ok _ \<longleftrightarrow> True"

text \<open>\<^verbatim>\<open>Close\<close>, \<^verbatim>\<open>Delete\<close> and the closings of \<^verbatim>\<open>Shutdown\<close> are runs of these steps.\<close>

lemma Close_is_run:
  "wd_manager (manager_exec sha (MAct i (AClose env)) w) = snd (Close False env i (wd_manager w))"
  by (auto simp: Close_def on_session_def Let_def split: option.split prod.split)

lemma Delete_is_run:
  "\<exists>ops. wd_manager (fold (manager_exec sha) ops w) = snd (Delete f env i (wd_manager w))"
proof -
  have 0: "wd_manager (fold (manager_exec sha) [] w) = wd_manager w"
    and 1: "wd_manager (fold (manager_exec sha) [MAct i (AClose env)] w) = snd (Close False env i (wd_manager w))"
    and 2: "wd_manager (fold (manager_exec sha) [MDelete i f] w) = snd (delete_ended f i (wd_manager w))"
    and 3: "wd_manager (fold (manager_exec sha) [MAct i (AClose env), MDelete i f] w) =
      snd (delete_ended f i (snd (Close False env i (wd_manager w))))"
    using Close_is_run[of sha i env w] by (simp_all del: manager_exec.simps(2) split: prod.split option.split)
  have "snd (Delete f env i (wd_manager w)) \<in> {wd_manager w, snd (Close False env i (wd_manager w)),
      snd (delete_ended f i (wd_manager w)), snd (delete_ended f i (snd (Close False env i (wd_manager w))))}"
    by (auto simp: Delete_def Let_def split: option.splits prod.splits if_splits)
  then show ?thesis by (elim insertE emptyE) (metis 0 1 2 3)+
qed

lemma close_all_is_run:
  "\<exists>ops. wd_manager (fold (manager_exec sha) ops w) = snd (close_all False env is (wd_manager w))"
proof (induction "is" arbitrary: w)
  case Nil
  show ?case by (intro exI[of _ "[]"]) simp
next
  case (Cons i "is")
  let ?w = "manager_exec sha (MAct i (AClose (env i))) w"
  obtain ops where "wd_manager (fold (manager_exec sha) ops ?w) = snd (close_all False env is (wd_manager ?w))"
    using Cons.IH by blast
  then have "wd_manager (fold (manager_exec sha) (MAct i (AClose (env i)) # ops) w) = snd (close_all False env (i # is) (wd_manager w))"
    using Close_is_run[of sha i "env i" w] by (auto simp del: manager_exec.simps(2) split: prod.splits)
  then show ?case by blast
qed

section \<open>The invariant of the manager\<close>

definition rows_inv :: "manager_config \<Rightarrow> (string \<Rightarrow> event list) \<Rightarrow> store \<Rightarrow> bool" where
  "rows_inv c lg st \<longleftrightarrow>
     distinct (map fst (st_sessions st)) \<and>
     (\<forall>i j r q. map_of (st_sessions st) i = Some r \<longrightarrow> map_of (st_sessions st) j = Some q \<longrightarrow> sn_name r = sn_name q \<longrightarrow> i = j) \<and>
     (\<forall>i. length (payload (lg i)) < u64_size) \<and>
     (\<forall>i r. map_of (st_sessions st) i = Some r \<longrightarrow> linked c (lg i) i (sn_name r) UNIV st) \<and>
     (\<forall>i. map_of (st_sessions st) i = None \<longrightarrow> output_of i st = [] \<and> inputs_of i st = [] \<and> lg i = [])"

definition names_inv :: "manager \<Rightarrow> bool" where
  "names_inv m \<longleftrightarrow>
     distinct (map fst (mg_sessions m)) \<and> distinct (map fst (mg_names m)) \<and>
     (\<forall>i s. map_of (mg_sessions m) i = Some s \<longrightarrow> ms_id s = i \<and> i \<noteq> [] \<and> map_of (mg_names m) (ms_name s) = Some i) \<and>
     (\<forall>n i. map_of (mg_names m) n = Some i \<longrightarrow> (\<exists>s. map_of (mg_sessions m) i = Some s \<and> ms_name s = n))"

definition world_inv :: "world \<Rightarrow> bool" where
  "world_inv w \<longleftrightarrow>
     (let m = wd_manager w; c = mg_config m
      in limits c \<and> names_inv m \<and> int (length (mg_sessions m)) \<le> cf_maxSessions c \<and>
         (\<exists>st. mg_store m = Some st \<and> rows_inv c (wd_log w) st \<and>
            (\<forall>i s. map_of (mg_sessions m) i = Some s \<longrightarrow> sinv c (wd_log w i) s st)))"

lemma sinv_row: "sinv c evs s st \<Longrightarrow> \<exists>r. map_of (st_sessions st) (ms_id s) = Some r \<and> sn_name r = ms_name s"
  by (auto simp: sinv_def linked_def)

lemma touches_view: "touches i st st' \<Longrightarrow> j \<noteq> i \<Longrightarrow> same_view j st st'"
  by (simp add: touches_def)

text \<open>The rows after a change to one session, which is linked afterwards or gone.\<close>

lemma rows_touch:
  assumes "rows_inv c lg st" and t: "touches i st st'"
    and new: "linked c evs i name UNIV st' \<and> length (payload evs) < u64_size \<and>
       (\<forall>j r. map_of (st_sessions st) j = Some r \<longrightarrow> sn_name r = name \<longrightarrow> j = i) \<or>
     map_of (st_sessions st') i = None \<and> output_of i st' = [] \<and> inputs_of i st' = [] \<and> evs = []"
  shows "rows_inv c (lg(i := evs)) st'"
proof -
  have look: "map_of (st_sessions st') j = map_of (st_sessions st) j" if "j \<noteq> i" for j
    using touches_view[OF t that] by (simp add: same_view_def)
  have name: "sn_name q = name" if "map_of (st_sessions st') i = Some q" for q
    using new that by (auto simp: linked_def)
  have "a = b" if "map_of (st_sessions st') a = Some x" "map_of (st_sessions st') b = Some y" "sn_name x = sn_name y" for a b x y
    using that name look new assms(1) unfolding rows_inv_def by (metis option.distinct(1))
  moreover have "linked c ((lg(i := evs)) j) j (sn_name q) UNIV st'" if q: "map_of (st_sessions st') j = Some q" for j q
  proof (cases "j = i")
    case True
    then show ?thesis using new q name by auto
  next
    case False
    have "linked c (lg j) j (sn_name q) UNIV st" using assms(1) q look[OF False] by (simp add: rows_inv_def)
    then show ?thesis using linked_view[OF touches_view[OF t False]] False by simp
  qed
  moreover have "output_of j st' = [] \<and> inputs_of j st' = [] \<and> (lg(i := evs)) j = []" if "map_of (st_sessions st') j = None" for j
    using that new touches_view[OF t, of j] assms(1) by (cases "j = i") (auto simp: rows_inv_def same_view_def linked_def)
  moreover have "length (payload ((lg(i := evs)) j)) < u64_size" for j
    using new assms(1) by (auto simp: rows_inv_def u64_size_def)
  moreover have "distinct (map fst (st_sessions st'))" using assms(1) t by (simp add: rows_inv_def touches_def)
  ultimately show ?thesis unfolding rows_inv_def by blast
qed

lemma rows_step:
  assumes "rows_inv c lg st" and "sinv c (lg (ms_id s)) s st" and "sstep c evs s st s' (Some st')"
  shows "rows_inv c (lg(ms_id s := evs)) st'"
proof (rule rows_touch[OF assms(1)])
  have t: "touches (ms_id s) st st'" and inv: "sinv c evs s' st'" and ids: "ms_id s' = ms_id s" "ms_name s' = ms_name s"
    using assms(3) by (auto simp: sstep_def)
  show "touches (ms_id s) st st'" by (fact t)
  have "linked c evs (ms_id s) (ms_name s) UNIV st'" using inv ids linked_mono[of c evs _ _ "decided s'"] by (simp add: sinv_def)
  moreover have "length (payload evs) < u64_size" using log_size mem_history[OF inv] by blast
  moreover have "j = ms_id s" if "map_of (st_sessions st) j = Some r" "sn_name r = ms_name s" for j r
    using that sinv_row[OF assms(2)] assms(1) unfolding rows_inv_def by metis
  ultimately show "linked c evs (ms_id s) (ms_name s) UNIV st' \<and> length (payload evs) < u64_size \<and>
       (\<forall>j r. map_of (st_sessions st) j = Some r \<longrightarrow> sn_name r = ms_name s \<longrightarrow> j = ms_id s) \<or>
     map_of (st_sessions st') (ms_id s) = None \<and> output_of (ms_id s) st' = [] \<and> inputs_of (ms_id s) st' = [] \<and> evs = []"
    by blast
qed

lemma other_sinv:
  assumes "sinv c evs s st" and "touches i st st'" and "ms_id s \<noteq> i"
  shows "sinv c evs s st'"
  using assms(1) linked_view[OF touches_view[OF assms(2,3)]] by (simp add: sinv_def)

lemma world_invI:
  assumes "limits (mg_config (wd_manager w))" and "names_inv (wd_manager w)"
    and "int (length (mg_sessions (wd_manager w))) \<le> cf_maxSessions (mg_config (wd_manager w))"
    and "mg_store (wd_manager w) = Some st" and "rows_inv (mg_config (wd_manager w)) (wd_log w) st"
    and "\<And>i s. map_of (mg_sessions (wd_manager w)) i = Some s \<Longrightarrow> sinv (mg_config (wd_manager w)) (wd_log w i) s st"
  shows "world_inv w"
  using assms by (auto simp: world_inv_def Let_def)

lemma world_invE:
  assumes "world_inv w"
  obtains st where "limits (mg_config (wd_manager w))" "names_inv (wd_manager w)"
    "int (length (mg_sessions (wd_manager w))) \<le> cf_maxSessions (mg_config (wd_manager w))"
    "mg_store (wd_manager w) = Some st" "rows_inv (mg_config (wd_manager w)) (wd_log w) st"
    "\<And>i s. map_of (mg_sessions (wd_manager w)) i = Some s \<Longrightarrow> sinv (mg_config (wd_manager w)) (wd_log w i) s st"
  using assms unfolding world_inv_def Let_def by blast

lemma names_ids: "names_inv m \<Longrightarrow> map_of (mg_sessions m) i = Some s \<Longrightarrow> ms_id s = i"
  by (simp add: names_inv_def)

lemma names_update:
  assumes "names_inv m" and "map_of (mg_sessions m) i = Some s" and "ms_id s' = i" and "ms_name s' = ms_name s"
  shows "names_inv (m\<lparr>mg_sessions := AList.update i s' (mg_sessions m), mg_store := ost\<rparr>)"
  using assms by (auto simp: names_inv_def update_conv' distinct_update) fastforce

lemma act_step:
  assumes "world_inv w" and "sha_sized sha" and "act_ok a"
  shows "world_inv (manager_exec sha (MAct i a) w)"
proof (cases "map_of (mg_sessions (wd_manager w)) i")
  case None
  with assms(1) show ?thesis by simp
next
  case (Some s)
  let ?m = "wd_manager w" and ?c = "mg_config (wd_manager w)" and ?lg = "wd_log w"
  obtain st where st: "limits ?c" "names_inv ?m" "int (length (mg_sessions ?m)) \<le> cf_maxSessions ?c"
    "mg_store ?m = Some st" "rows_inv ?c ?lg st"
    and all: "\<And>j t. map_of (mg_sessions ?m) j = Some t \<Longrightarrow> sinv ?c (?lg j) t st"
    using world_invE[OF assms(1)] by blast
  note i = names_ids[OF st(2) Some]
  obtain evs s' ost where a: "act sha ?c a (?lg i, s, Some st) = (evs, s', ost)" by (metis prod_cases3)
  note step = act_sstep[OF st(1) assms(2) all[OF Some] assms(3) a]
  then obtain st' where st': "ost = Some st'" "sinv ?c evs s' st'" "touches i st st'" "ms_id s' = i" "ms_name s' = ms_name s"
    unfolding sstep_def i by blast
  let ?m' = "?m\<lparr>mg_sessions := AList.update i s' (mg_sessions ?m), mg_store := Some st'\<rparr>"
  have ex: "manager_exec sha (MAct i a) w = w\<lparr>wd_manager := ?m', wd_log := ?lg(i := evs)\<rparr>"
    unfolding manager_exec.simps Let_def st(4) Some option.case a prod.case st'(1) by (rule refl)
  have rows: "rows_inv ?c (?lg(i := evs)) st'"
    using rows_step[OF st(5), of s evs s' st'] all[OF Some] step unfolding st'(1) i by blast
  have other: "sinv ?c ((?lg(i := evs)) j) t st'" if t: "map_of (AList.update i s' (mg_sessions ?m)) j = Some t" for j t
  proof (cases "j = i")
    case True
    with t st'(2) show ?thesis by (simp add: update_conv')
  next
    case False
    with t have j: "map_of (mg_sessions ?m) j = Some t" by (simp add: update_conv')
    show ?thesis using other_sinv[OF all[OF j] st'(3)] names_ids[OF st(2) j] False by simp
  qed
  show ?thesis unfolding ex
    using st(1,3) rows names_update[OF st(2) Some st'(4,5), of "Some st'"] other Some
    by (intro world_invI[of _ st']) (simp_all add: length_update del: fun_upd_apply)
qed

lemma DeleteSession_gone:
  assumes "DeleteSession f i st = (Inr u, st')"
  shows "touches i st st' \<and> map_of (st_sessions st') i = None \<and> output_of i st' = [] \<and> inputs_of i st' = []"
proof -
  have st': "st' = st\<lparr>st_sessions := AList.delete i (st_sessions st), st_output := AList.delete i (st_output st),
      st_inputs := filter (\<lambda>d. ir_session d \<noteq> i) (st_inputs st)\<rparr>"
    using assms by (simp add: DeleteSession_def split: if_splits option.splits)
  have "\<forall>j. j \<noteq> i \<longrightarrow> filter (\<lambda>d. ir_session d \<noteq> i \<and> ir_session d = j) (st_inputs st) = filter (\<lambda>d. ir_session d = j) (st_inputs st)"
    by (auto intro!: filter_cong)
  then show ?thesis
    by (simp add: st' touches_def same_view_def delete_conv' distinct_delete output_of_def inputs_of_def)
qed

lemma DeleteSession_kept: "DeleteSession f i st = (Inl e, st') \<Longrightarrow> st' = st"
  by (auto simp: DeleteSession_def split: if_splits option.splits)

lemma move_Deleted: "lc_state (ms_lifecycle s) \<in> {Exited, Closed} \<Longrightarrow> \<exists>s'. move Deleted s = Inr s'"
  by (auto simp: move_def Transition_def)

lemma delete_ended_cases:
  assumes "mg_store m = Some st" and "delete_ended f i m = (e, m')"
  shows "e \<noteq> None \<and> m' = m \<or> (\<exists>s st' u. e = None \<and> map_of (mg_sessions m) i = Some s \<and> DeleteSession f i st = (Inr u, st') \<and>
     m' = m\<lparr>mg_store := Some st', mg_sessions := AList.delete i (mg_sessions m), mg_names := AList.delete (ms_name s) (mg_names m)\<rparr>)"
proof (cases "map_of (mg_sessions m) i")
  case None
  with assms(2) show ?thesis by (auto simp: delete_ended_def)
next
  case (Some s)
  show ?thesis
  proof (cases "lc_state (ms_lifecycle s) \<in> {Exited, Closed}")
    case False
    with assms(2) Some show ?thesis by (auto simp: delete_ended_def Snapshot_def)
  next
    case True
    obtain s' where "move Deleted s = Inr s'" using move_Deleted[OF True] by blast
    moreover have "m\<lparr>mg_store := Some st\<rparr> = m" using assms(1) by (cases m) simp
    moreover obtain x st' where ds: "DeleteSession f i st = (x, st')" by fastforce
    ultimately show ?thesis using assms Some True DeleteSession_kept[of f i st _ st']
      by (cases x) (auto simp: delete_ended_def Snapshot_def delete_row_def)
  qed
qed

lemma names_delete:
  assumes "names_inv m" and "map_of (mg_sessions m) i = Some s"
  shows "names_inv (m\<lparr>mg_store := ost, mg_sessions := AList.delete i (mg_sessions m), mg_names := AList.delete (ms_name s) (mg_names m)\<rparr>)"
proof -
  have other: "ms_name t \<noteq> ms_name s" if "map_of (mg_sessions m) j = Some t" "j \<noteq> i" for j t
    using assms that unfolding names_inv_def by (metis option.inject)
  have other': "j \<noteq> i" if "map_of (mg_names m) n = Some j" "n \<noteq> ms_name s" for n j
    using assms that unfolding names_inv_def by (metis option.inject)
  show ?thesis
    using assms(1) by (auto simp: names_inv_def delete_conv' distinct_delete other other')
qed

lemma delete_step:
  assumes "world_inv w"
  shows "world_inv (manager_exec sha (MDelete i f) w)"
proof -
  let ?m = "wd_manager w" and ?c = "mg_config (wd_manager w)" and ?lg = "wd_log w"
  obtain st where st: "limits ?c" "names_inv ?m" "int (length (mg_sessions ?m)) \<le> cf_maxSessions ?c"
    "mg_store ?m = Some st" "rows_inv ?c ?lg st"
    and all: "\<And>j t. map_of (mg_sessions ?m) j = Some t \<Longrightarrow> sinv ?c (?lg j) t st"
    using world_invE[OF assms] by blast
  obtain e m' where d: "delete_ended f i ?m = (e, m')" by (cases "delete_ended f i ?m")
  from delete_ended_cases[OF st(4) d] show ?thesis
  proof (elim disjE exE conjE)
    assume "e \<noteq> None" and "m' = ?m"
    with d assms show ?thesis by auto
  next
    fix s st' u
    assume e: "e = None" and s: "map_of (mg_sessions ?m) i = Some s" and ds: "DeleteSession f i st = (Inr u, st')"
      and m': "m' = ?m\<lparr>mg_store := Some st', mg_sessions := AList.delete i (mg_sessions ?m), mg_names := AList.delete (ms_name s) (mg_names ?m)\<rparr>"
    have ex: "manager_exec sha (MDelete i f) w = w\<lparr>wd_manager := m', wd_log := ?lg(i := [])\<rparr>" using d e by simp
    note g = DeleteSession_gone[OF ds]
    have "rows_inv ?c (?lg(i := [])) st'" by (rule rows_touch[OF st(5)]) (use g in auto)
    moreover have "sinv ?c ((?lg(i := [])) j) t st'" if "map_of (AList.delete i (mg_sessions ?m)) j = Some t" for j t
      using that other_sinv[OF all, of j t i st'] g names_ids[OF st(2), of j t] by (auto simp: delete_conv' split: if_splits)
    moreover have "length (AList.delete i (mg_sessions ?m)) \<le> length (mg_sessions ?m)" by (rule length_delete_le)
    ultimately show ?thesis unfolding ex using st(1,3) names_delete[OF st(2) s, of "Some st'"] m'
      by (intro world_invI[of _ st']) (simp_all del: fun_upd_apply)
  qed
qed

lemma stop_step: "world_inv w \<Longrightarrow> world_inv (manager_exec sha MStop w)"
  by (auto simp: world_inv_def names_inv_def Let_def)

text \<open>A creation that fails leaves the session's row, still recoverable, or nothing.\<close>

definition left_over :: "manager_config \<Rightarrow> string \<Rightarrow> string \<Rightarrow> store \<Rightarrow> bool" where
  "left_over c i name st \<longleftrightarrow>
     linked c [] i name {} st \<or> map_of (st_sessions st) i = None \<and> output_of i st = [] \<and> inputs_of i st = []"

lemma CreateSession_new:
  assumes "CreateSession f (created_row i name cmd) st = (Inr u, st1)" and "rows_inv c lg st" and "config_ok c"
  shows "linked c [] i name {} st1" and "touches i st st1" and "lg i = []"
    and "map_of (st_sessions st) j = Some r \<Longrightarrow> sn_name r \<noteq> name"
proof -
  have c: "session_checks (created_row i name cmd)" "map_of (st_sessions st) i = None"
    "\<not> list_ex (\<lambda>(j, q). sn_name q = name) (st_sessions st)"
    and st1: "st1 = st\<lparr>st_sessions := AList.update i (created_row i name cmd) (st_sessions st)\<rparr>"
    using assms(1) by (auto simp: CreateSession_def created_row_def split: if_splits)
  have empty: "output_of i st = []" "inputs_of i st = []" "lg i = []" using assms(2) c(2) by (auto simp: rows_inv_def)
  then show "lg i = []" by simp
  show "touches i st st1"
    by (simp add: st1 touches_def same_view_def update_conv' distinct_update output_of_def inputs_of_def)
  have "row_good i (created_row i name cmd)"
    using c(1) by (auto simp: row_good_def created_row_def session_checks_def validDimensions_def)
  moreover have "output_of i st1 = []" "inputs_of i st1 = []" using empty by (simp_all add: st1 output_of_def inputs_of_def)
  ultimately show "linked c [] i name {} st1"
    using assms(3) by (simp add: linked_def stored_def st1 update_conv' created_row_def inputs_good_def i63_def config_ok_def)
  show "sn_name r \<noteq> name" if "map_of (st_sessions st) j = Some r"
    using c(3) map_of_SomeD[OF that] by (auto simp: list_ex_iff)
qed

lemma persist_linked:
  assumes "linked c evs (ms_id s) name ks st" and "state_good (lc_state (ms_lifecycle s)) (lc_generation (ms_lifecycle s))"
    and "persist f ex s (Some st) = (e, ost)"
  shows "\<exists>st'. ost = Some st' \<and> touches (ms_id s) st st' \<and> linked c evs (ms_id s) name ks st'"
proof -
  have "ost = Some (snd (UpdateSession f (ms_id s) (state_string ex) (storeRecordLocked s) st))"
    using assms(3) by (auto simp: persist_def update_row_def storeRecord_fields split: prod.splits sum.splits)
  then show ?thesis
    using assms(1,2) UpdateSession_touches UpdateSession_linked[OF assms(1) storeRecord_fields(3)] by (auto simp: storeRecord_fields)
qed

lemma discard_left_over:
  assumes "linked c [] (ms_id s) name {} st" and "state_good (lc_state (ms_lifecycle s)) (lc_generation (ms_lifecycle s))"
  shows "\<exists>st'. discardFailedCreate f g s (Some st) = Some st' \<and> touches (ms_id s) st st' \<and> left_over c (ms_id s) name st'"
proof -
  obtain e ost where p: "persist f Creating s (Some st) = (e, ost)" by fastforce
  obtain st1 where st1: "ost = Some st1" "touches (ms_id s) st st1" "linked c [] (ms_id s) name {} st1"
    using persist_linked[OF assms p] by blast
  obtain x st2 where d: "DeleteSession g (ms_id s) st1 = (x, st2)" by fastforce
  have "discardFailedCreate f g s (Some st) = Some st2"
    using p st1(1) d by (cases x) (simp_all add: discardFailedCreate_def delete_row_def)
  moreover have "touches (ms_id s) st st2 \<and> left_over c (ms_id s) name st2"
  proof (cases x)
    case (Inl e)
    show ?thesis using DeleteSession_kept[OF d[unfolded Inl]] st1 by (simp add: left_over_def)
  next
    case (Inr u)
    show ?thesis using DeleteSession_gone[OF d[unfolded Inr]] touches_trans[OF st1(2)] by (simp add: left_over_def)
  qed
  ultimately show ?thesis by blast
qed

lemma new_session_history:
  assumes "limits c"
  shows "history_of [] (ms_history (new_session c i name cmd))" "h_max (ms_history (new_session c i name cmd)) = cf_history c"
proof -
  have "0 < cf_history c" using assms by (simp add: limits_def config_ok_def)
  then have n: "New (cf_history c) = Inr (ms_history (new_session c i name cmd))" by (simp add: new_session_def New_def)
  show "history_of [] (ms_history (new_session c i name cmd))" using New_log[OF n] by (simp add: log_inv_def)
  show "h_max (ms_history (new_session c i name cmd)) = cf_history c"
    using \<open>0 < cf_history c\<close> by (simp add: new_session_def New_def)
qed

lemma new_session_fields:
  "ms_id (new_session c i name cmd) = i" "ms_name (new_session c i name cmd) = name"
  "ms_lifecycle (new_session c i name cmd) = \<lparr>lc_state = Creating, lc_generation = 0\<rparr>"
  "j_max (ms_inputs (new_session c i name cmd)) = cf_maxInputs c"
  by (simp_all add: new_session_def NewLifecycle_def NewBoundedInputJournal_def)

lemma try_move_new: "try_move Closed (new_session c i name cmd) =
    (new_session c i name cmd)\<lparr>ms_lifecycle := \<lparr>lc_state = Closed, lc_generation = 0\<rparr>\<rparr>"
  "move Running (new_session c i name cmd) =
    Inr ((new_session c i name cmd)\<lparr>ms_lifecycle := \<lparr>lc_state = Running, lc_generation = 1\<rparr>\<rparr>)"
  by (simp_all add: try_move_def move_def Transition_def new_session_fields u64_add_def u64_size_def)

lemma launched_sinv:
  assumes "limits c" and "linked c [] i name {} st"
    and "s' = (new_session c i name cmd)\<lparr>ms_lifecycle := \<lparr>lc_state = Running, lc_generation = 1\<rparr>,
       ms_inputs := NewBoundedInputJournal 1 (cf_maxInputs c), ms_process := p, ms_live := l\<rparr>"
  shows "sinv c [] s' st \<and> ms_id s' = i \<and> ms_name s' = name"
proof -
  have "0 \<le> cf_maxInputs c" using assms(1) by (simp add: limits_def config_ok_def)
  then show ?thesis
    using assms new_session_history[OF assms(1), of i name cmd]
    by (simp add: sinv_def mem_good_def lc_good_def journal_good_def new_session_fields NewBoundedInputJournal_def)
qed

lemma launch_cases:
  assumes "limits c" and "linked c [] i name {} st" and "launch_session env (new_session c i name cmd) (Some st) = (res, ost)"
  shows "\<exists>st'. ost = Some st' \<and> touches i st st' \<and>
     (case res of Inl _ \<Rightarrow> left_over c i name st' | Inr s' \<Rightarrow> sinv c [] s' st' \<and> ms_id s' = i \<and> ms_name s' = name)"
proof (cases "cr_launch env")
  case None
  let ?s = "try_move Closed (new_session c i name cmd)"
  have s: "ms_id ?s = i" "state_good (lc_state (ms_lifecycle ?s)) (lc_generation (ms_lifecycle ?s))"
    by (simp_all add: try_move_new new_session_fields state_good_def)
  show ?thesis using discard_left_over[of c ?s name st, unfolded s(1)] assms(2,3) s(2) None
    by (fastforce simp: launch_session_def)
next
  case (Some p)
  let ?s = "(new_session c i name cmd)\<lparr>ms_lifecycle := \<lparr>lc_state = Running, lc_generation = 1\<rparr>\<rparr>"
  have s: "ms_id ?s = i" "state_good (lc_state (ms_lifecycle ?s)) (lc_generation (ms_lifecycle ?s))"
    by (simp_all add: new_session_fields state_good_def)
  obtain e ost1 where p: "persist (cr_fault env 1) Creating ?s (Some st) = (e, ost1)" by fastforce
  obtain st1 where st1: "ost1 = Some st1" "touches i st st1" "linked c [] i name {} st1"
    using persist_linked[OF _ s(2) p, unfolded s(1)] assms(2) by blast
  show ?thesis
  proof (cases e)
    case (Some e)
    obtain st2 where "discardFailedCreate (cr_fault env 2) (cr_fault env 3) ?s (Some st1) = Some st2" "touches i st1 st2" "left_over c i name st2"
      using discard_left_over[OF _ s(2), unfolded s(1), OF st1(3)] by blast
    moreover have "res = Inl e" "ost = discardFailedCreate (cr_fault env 2) (cr_fault env 3) ?s (Some st1)"
      using assms(3) p st1(1) \<open>cr_launch env = Some p\<close> Some by (auto simp: launch_session_def try_move_new)
    ultimately show ?thesis using touches_trans[OF st1(2)] by simp
  next
    case None
    have "ost = Some st1" "\<exists>s'. res = Inr (startOutputPersistence (Some st1) s') \<and>
      s' = ?s\<lparr>ms_inputs := NewBoundedInputJournal 1 (cf_maxInputs c), ms_process := Some p, ms_live := Some (p, 1)\<rparr>"
      using assms(3) p st1(1) Some None by (auto simp: launch_session_def try_move_new Snapshot_def new_session_fields)
    then show ?thesis using launched_sinv[OF assms(1) st1(3)] st1(2) by (fastforce simp: startOutputPersistence_def)
  qed
qed

lemma names_insert:
  assumes "names_inv m" and "map_of (mg_names m) name = None" and "map_of (mg_sessions m) i = None" and "i \<noteq> []"
    and "ms_id s = i" and "ms_name s = name"
  shows "names_inv (m\<lparr>mg_store := ost, mg_sessions := AList.update i s (mg_sessions m), mg_names := AList.update name i (mg_names m)\<rparr>)"
proof -
  have other: "ms_name t \<noteq> name" if "map_of (mg_sessions m) j = Some t" for j t
    using assms(1,2) that unfolding names_inv_def by (metis option.distinct(1))
  have other': "j \<noteq> i" if "map_of (mg_names m) n = Some j" for n j
    using assms(1,3) that unfolding names_inv_def by (metis option.distinct(1))
  show ?thesis
    using assms by (auto simp: names_inv_def update_conv' distinct_update dest: other other')
qed

lemma draw_id_fresh: "draw_id n k random ss = Inr i \<Longrightarrow> map_of ss i = None \<and> i \<noteq> []"
  by (induction n k random ss rule: draw_id.induct) (auto simp: randomID_def split: option.splits if_splits)

lemma Create_cases:
  assumes "mg_store m = Some st" and "Create env i0 name cmd m = (res, m')"
  shows "m' = m \<or> (\<exists>i u st1 r ost. map_of (mg_sessions m) i = None \<and> i \<noteq> [] \<and> map_of (mg_names m) name = None \<and>
     int (length (mg_sessions m)) < cf_maxSessions (mg_config m) \<and>
     CreateSession (cr_fault env 0) (created_row i name cmd) st = (Inr u, st1) \<and>
     launch_session env (new_session (mg_config m) i name cmd) (Some st1) = (r, ost) \<and>
     m' = (case r of Inl _ \<Rightarrow> m\<lparr>mg_store := ost\<rparr>
           | Inr s \<Rightarrow> m\<lparr>mg_store := ost, mg_sessions := AList.update i s (mg_sessions m), mg_names := AList.update name i (mg_names m)\<rparr>))"
proof -
  define oi where "oi = (if i0 \<noteq> [] then Inr i0 else draw_id 8 0 (cr_random env) (mg_sessions m))"
  show ?thesis
  proof (cases "m' = m")
    case False
    then obtain i where g: "oi = Inr i" "map_of (mg_names m) name = None" "int (length (mg_sessions m)) < cf_maxSessions (mg_config m)"
      "i0 \<noteq> [] \<longrightarrow> map_of (mg_sessions m) i0 = None"
      using assms(2) by (auto simp: Create_def oi_def[symmetric] not_le split: if_splits sum.splits)
    have i: "map_of (mg_sessions m) i = None" "i \<noteq> []"
      using g(1,4) draw_id_fresh[of 8 0 "cr_random env" "mg_sessions m" i] by (auto simp: oi_def split: if_splits)
    obtain x st1 where cs: "CreateSession (cr_fault env 0) (created_row i name cmd) st = (x, st1)" by fastforce
    have same: "m\<lparr>mg_store := Some st\<rparr> = m" using assms(1) by (cases m) simp
    have step: "Create env i0 name cmd m =
      (case insert_row (cr_fault env 0) (created_row i name cmd) (Some st) of
         (Some e, ost) \<Rightarrow> (Inl e, m\<lparr>mg_store := ost\<rparr>)
       | (None, ost) \<Rightarrow>
           (case launch_session env (new_session (mg_config m) i name cmd) ost of
              (Inl e, ost') \<Rightarrow> (Inl e, m\<lparr>mg_store := ost'\<rparr>)
            | (Inr s', ost') \<Rightarrow> (Inr (snapshotLocked s'),
                 m\<lparr>mg_store := ost', mg_sessions := AList.update i s' (mg_sessions m), mg_names := AList.update name i (mg_names m)\<rparr>)))"
      using False assms g by (auto simp: Create_def oi_def[symmetric] split: if_splits)
    show ?thesis
    proof (cases x)
      case (Inl e)
      have "st1 = st" using cs Inl by (auto simp: CreateSession_def split: if_splits)
      then show ?thesis using step cs Inl assms(2) same by (simp add: insert_row_def)
    next
      case (Inr u)
      obtain r ost where l: "launch_session env (new_session (mg_config m) i name cmd) (Some st1) = (r, ost)" by fastforce
      have "m' = (case r of Inl _ \<Rightarrow> m\<lparr>mg_store := ost\<rparr>
           | Inr s \<Rightarrow> m\<lparr>mg_store := ost, mg_sessions := AList.update i s (mg_sessions m), mg_names := AList.update name i (mg_names m)\<rparr>)"
        using step cs Inr l assms(2) by (cases r) (simp_all add: insert_row_def)
      then show ?thesis using cs Inr l g(2,3) i by blast
    qed
  qed simp
qed

lemma create_step:
  assumes "world_inv w"
  shows "world_inv (manager_exec sha (MCreate env i0 name cmd) w)"
proof -
  let ?m = "wd_manager w" and ?c = "mg_config (wd_manager w)" and ?lg = "wd_log w"
  obtain st where st: "limits ?c" "names_inv ?m" "int (length (mg_sessions ?m)) \<le> cf_maxSessions ?c"
    "mg_store ?m = Some st" "rows_inv ?c ?lg st"
    and all: "\<And>j t. map_of (mg_sessions ?m) j = Some t \<Longrightarrow> sinv ?c (?lg j) t st"
    using world_invE[OF assms] by blast
  obtain res m' where cr: "Create env i0 name cmd ?m = (res, m')" by fastforce
  have ex: "manager_exec sha (MCreate env i0 name cmd) w = w\<lparr>wd_manager := m'\<rparr>" using cr by simp
  from Create_cases[OF st(4) cr] show ?thesis
  proof (elim disjE exE conjE)
    assume "m' = ?m"
    then show ?thesis using assms ex by simp
  next
    fix i u st1 r ost
    assume i: "map_of (mg_sessions ?m) i = None" "i \<noteq> []" and n: "map_of (mg_names ?m) name = None"
      and lim: "int (length (mg_sessions ?m)) < cf_maxSessions ?c"
      and cs: "CreateSession (cr_fault env 0) (created_row i name cmd) st = (Inr u, st1)"
      and l: "launch_session env (new_session ?c i name cmd) (Some st1) = (r, ost)"
      and m': "m' = (case r of Inl _ \<Rightarrow> ?m\<lparr>mg_store := ost\<rparr>
        | Inr s \<Rightarrow> ?m\<lparr>mg_store := ost, mg_sessions := AList.update i s (mg_sessions ?m), mg_names := AList.update name i (mg_names ?m)\<rparr>)"
    have "config_ok ?c" using st(1) by (simp add: limits_def)
    note new = CreateSession_new[OF cs st(5) this]
    obtain st2 where st2: "ost = Some st2" "touches i st1 st2"
      "case r of Inl _ \<Rightarrow> left_over ?c i name st2 | Inr s \<Rightarrow> sinv ?c [] s st2 \<and> ms_id s = i \<and> ms_name s = name"
      using launch_cases[OF st(1) new(1) l] by blast
    note t = touches_trans[OF new(2) st2(2)]
    have keep: "sinv ?c (?lg j) s st2" if "map_of (mg_sessions ?m) j = Some s" for j s
    proof -
      have "j \<noteq> i" using i(1) that by auto
      then show ?thesis using other_sinv[OF all[OF that] t] names_ids[OF st(2) that] by simp
    qed
    have "left_over ?c i name st2 \<or> linked ?c [] i name UNIV st2"
      using st2(3) linked_mono[of ?c "[]" i name] by (auto simp: sinv_def split: sum.splits)
    then have "rows_inv ?c (?lg(i := [])) st2"
      using new(4) linked_mono[of ?c "[]" i name "{}" st2] by (intro rows_touch[OF st(5) t]) (auto simp: left_over_def u64_size_def)
    then have rows: "rows_inv ?c ?lg st2" using new(3) by (metis fun_upd_triv)
    show ?thesis
    proof (cases r)
      case (Inl e)
      then show ?thesis unfolding ex using st(1-3) m' st2(1) rows keep
        by (intro world_invI[of _ st2]) (simp_all add: names_inv_def)
    next
      case (Inr s)
      then have s: "sinv ?c (?lg i) s st2" "ms_id s = i" "ms_name s = name" using st2(3) new(3) by simp_all
      show ?thesis unfolding ex using st(1) lim m' Inr st2(1) rows keep s names_insert[OF st(2) n i s(2,3)] i(1)
        by (intro world_invI[of _ st2]) (auto simp: length_update update_conv' split: if_splits)
    qed
  qed
qed

interpretation manager_run: machine "manager_exec sha" world_inv "\<lambda>a. op_ok a \<and> sha_sized sha" for sha
proof unfold_locales
  fix a w
  assume "world_inv w" and "op_ok a \<and> sha_sized sha"
  then show "world_inv (manager_exec sha a w)"
    using act_step create_step delete_step stop_step by (cases a) (simp_all del: manager_exec.simps)
qed

section \<open>Recovery\<close>

lemma recover_output_only: "recover_output i m st = (Some h, st') \<Longrightarrow> output_only i st st'"
  using output_calls(4)[of i st False m] by (auto simp: recover_output_def split: prod.splits sum.splits)

text \<open>The decisions that stored rows restore.\<close>

definition decision_of :: "input_row \<Rightarrow> inputDecision" where
  "decision_of d =
     \<lparr>id_status = the (status_of (ir_status d)), id_sequence = ik_sequence (row_key d), id_bytes = ir_bytes d,
      id_error = ir_error d, id_hash = ir_hash d\<rparr>"

lemma status_of_string [simp]: "status_of (status_string x) = Some x"
  by (cases x) (simp_all add: status_of_def)

lemma row_key_normal: "fst (normalizeInputKey (row_key d)) = row_key d"
  by (auto simp: row_key_def normalizeInputKey_def Let_def split: option.split)

lemma row_key_fields: "ik_client (row_key d) = ir_client d" "ik_attachment (row_key d) = ir_attachment d"
  "ik_generation (row_key d) = ir_generation d"
  by (auto simp: row_key_def Let_def split: option.split)

lemma journal_Restore_row:
  assumes "input_good d" and "map_of (j_decisions j) (row_key d) = None" and "int (length (j_decisions j)) < j_max j"
  shows "\<exists>l. journal_Restore (row_key d) (ir_hash d) (status_of (ir_status d)) (ir_bytes d) (ir_error d) j =
     (Inr (), j\<lparr>j_decisions := AList.update (row_key d) (decision_of d) (j_decisions j), j_last := l\<rparr>)"
proof -
  obtain x where x: "ir_status d = status_string x" "x = InputAccepted \<or> x = InputRejected \<or> x = InputUncertain"
    using assms(1) unfolding input_good_def by (metis inputStatus.exhaust)
  let ?k = "row_key d"
  have "journal_Restore ?k (ir_hash d) (status_of (ir_status d)) (ir_bytes d) (ir_error d) j =
     (Inr (), j\<lparr>j_decisions := AList.update ?k (decision_of d) (j_decisions j),
       j_last := (if ik_sequence ?k \<noteq> 0 \<and> LastSequence (cursor_of ?k) j < ik_sequence ?k
                  then AList.update (cursor_of ?k) (ik_sequence ?k) (j_last j) else j_last j)\<rparr>)"
    using assms x by (auto simp: journal_Restore_def row_key_normal row_key_fields input_good_def decision_of_def Let_def)
  then show ?thesis by blast
qed

lemma restore_inputs_ok:
  assumes "list_all input_good ds" and "distinct (map row_key ds)" and "\<forall>d\<in>set ds. map_of (j_decisions j) (row_key d) = None"
    and "int (length (j_decisions j) + length ds) \<le> j_max j" and "distinct (map fst (j_decisions j))"
  shows "\<exists>j'. restore_inputs ds j = Inr j' \<and> j_max j' = j_max j \<and> j_current j' = j_current j \<and>
     distinct (map fst (j_decisions j')) \<and> length (j_decisions j') = length (j_decisions j) + length ds \<and>
     map_of (j_decisions j') = map_of (j_decisions j) ++ map_of (map (\<lambda>d. (row_key d, decision_of d)) ds)"
  using assms
proof (induction ds arbitrary: j)
  case (Cons d ds)
  obtain l where l: "journal_Restore (row_key d) (ir_hash d) (status_of (ir_status d)) (ir_bytes d) (ir_error d) j =
     (Inr (), j\<lparr>j_decisions := AList.update (row_key d) (decision_of d) (j_decisions j), j_last := l\<rparr>)" (is "_ = (_, ?j)")
    using journal_Restore_row[of d j] Cons.prems by auto
  have fresh: "\<forall>x\<in>set ds. row_key x \<noteq> row_key d" using Cons.prems(2) by (metis distinct.simps(2) imageI list.set_map list.simps(9))
  have len: "length (j_decisions ?j) = Suc (length (j_decisions j))" using Cons.prems(3) by (simp add: length_update)
  have "\<exists>j'. restore_inputs ds ?j = Inr j' \<and> j_max j' = j_max ?j \<and> j_current j' = j_current ?j \<and>
     distinct (map fst (j_decisions j')) \<and> length (j_decisions j') = length (j_decisions ?j) + length ds \<and>
     map_of (j_decisions j') = map_of (j_decisions ?j) ++ map_of (map (\<lambda>d. (row_key d, decision_of d)) ds)"
    using Cons.prems len fresh by (intro Cons.IH) (auto simp: update_conv' distinct_update)
  then obtain j' where j': "restore_inputs ds ?j = Inr j'" "j_max j' = j_max j" "j_current j' = j_current j"
     "distinct (map fst (j_decisions j'))" "length (j_decisions j') = Suc (length (j_decisions j)) + length ds"
     "map_of (j_decisions j') = (map_of (j_decisions j))(row_key d \<mapsto> decision_of d) ++ map_of (map (\<lambda>d. (row_key d, decision_of d)) ds)"
    using len by (auto simp: update_conv')
  have "map_of (map (\<lambda>d. (row_key d, decision_of d)) ds) (row_key d) = None"
    using Cons.prems(2) by (auto simp: map_of_eq_None_iff)
  then have m: "map_of (j_decisions j') = map_of (j_decisions j) ++ map_of (map (\<lambda>d. (row_key d, decision_of d)) (d # ds))"
    unfolding j'(6) by (auto simp: map_add_def fun_eq_iff split: option.splits)
  have "restore_inputs (d # ds) j = Inr j'" using l j'(1) by simp
  then show ?case using m j'(2-5) by (intro exI[of _ j'] conjI) (assumption | simp)+
qed simp

lemma recover_history_quiet:
  assumes "recover_output i m st = (Some h, st')" and "\<And>k. \<not> fault k"
  shows "recover_history fault i m st = (Inr h, st')"
  using assms by (auto simp: recover_output_def recover_history_def split: prod.splits sum.splits)

text \<open>What recovery rebuilds of a session whose output was \<open>evs\<close>, from its row and its input decisions.\<close>

definition rebuilt :: "manager_config \<Rightarrow> event list \<Rightarrow> session_row \<Rightarrow> store \<Rightarrow> managedSession \<Rightarrow> bool" where
  "rebuilt c evs r st s \<longleftrightarrow>
     ms_id s = sn_id r \<and> ms_name s = sn_name r \<and>
     recovered_state (state_of (sn_state r)) = Some (lc_state (ms_lifecycle s)) \<and>
     lc_generation (ms_lifecycle s) = sn_generation r \<and> ms_process s = None \<and>
     history_wf (ms_history s) \<and> h_max (ms_history s) = cf_history c \<and> h_latest (ms_history s) = sn_latest r \<and>
     payload (retained (ms_history s)) = slice (payload evs) (h_earliest (ms_history s)) (sn_latest r) \<and>
     journal_good c (ms_inputs s) \<and>
     map_of (j_decisions (ms_inputs s)) = map_of (map (\<lambda>d. (row_key d, decision_of d)) (inputs_of (sn_id r) st))"

lemma row_recovers:
  assumes "row_good i r"
  obtains x where "recovered_state (state_of (sn_state r)) = Some x" "x = Exited \<or> x = Closed"
    "RecoverLifecycle (state_string x) (sn_generation r) = Inr \<lparr>lc_state = x, lc_generation = sn_generation r\<rparr>"
    "state_good x (sn_generation r)"
proof -
  obtain y where y: "sn_state r = state_string y" "y \<noteq> Deleted" "y = Running \<or> y = Restarting \<or> y = Exited \<longrightarrow> 0 < sn_generation r"
    using assms by (auto simp: row_good_def)
  show thesis by (cases y) (use y in \<open>auto simp: RecoverLifecycle_def state_good_def intro: that\<close>)
qed

lemma recovered_row_fields:
  "sn_id (recovered_row sg now r) = sn_id r" "sn_name (recovered_row sg now r) = sn_name r"
  "sn_columns (recovered_row sg now r) = sn_columns r" "sn_rows (recovered_row sg now r) = sn_rows r"
  "sn_generation (recovered_row sg now r) = sn_generation r"
  "recovered_state (state_of (sn_state r)) = Some x \<Longrightarrow> sn_state (recovered_row sg now r) = state_string x"
  by (auto simp: recovered_row_def Let_def split: option.split)

text \<open>The update of the row before recovery, if one is needed, succeeds.\<close>

lemma recovered_update:
  assumes "linked c evs i name UNIV st" and "map_of (st_sessions st) i = Some r"
    and "recovered_state (state_of (sn_state r)) = Some x" and "state_good x (sn_generation r)"
  shows "\<exists>st1. UpdateSession False i (sn_state r) (recovered_row sg now r) st = (Inr (), st1) \<and> touches i st st1 \<and>
     linked c evs i name UNIV st1 \<and> stored_latest i st1 = sn_latest r \<and> inputs_of i st1 = inputs_of i st"
proof -
  let ?q = "recovered_row sg now r"
  have g: "row_good i r" using assms(1,2) by (auto simp: linked_def)
  have "session_checks (r\<lparr>sn_cwd := a, sn_columns := sn_columns r, sn_rows := sn_rows r, sn_state := b,
      sn_generation := sn_generation r, sn_exit_code := d, sn_exit_signal := e, sn_exited_at := f\<rparr>)" for a b d e f
    using g stored_checks[OF linked_stored[OF assms(1)] assms(2)]
    by (auto simp: session_checks_def row_good_def validDimensions_def)
  then obtain st1 where u: "UpdateSession False i (sn_state r) ?q st = (Inr (), st1)"
    "stored_latest i st1 = sn_latest r" "inputs_of i st1 = inputs_of i st"
    using assms(2) by (simp add: UpdateSession_def recovered_row_fields Let_def stored_latest_def update_conv' inputs_of_def)
  have "linked c evs i name UNIV st1"
    using UpdateSession_linked[OF assms(1) recovered_row_fields(6)[OF assms(3)], of sg now False "sn_state r"] assms(4) u(1)
    by (simp add: recovered_row_fields)
  moreover have "touches i st st1" using UpdateSession_touches[of i st False "sn_state r" ?q] u(1) by simp
  ultimately show ?thesis using u by blast
qed

lemma recovered_inputs:
  assumes "limits c" and "inputs_good c (inputs_of i st)"
  shows "\<exists>j. restore_inputs (sort_key ir_generation (inputs_of i st)) (NewBoundedInputJournal g (cf_maxInputs c)) = Inr j \<and>
     journal_good c j \<and> map_of (j_decisions j) = map_of (map (\<lambda>d. (row_key d, decision_of d)) (inputs_of i st))"
proof -
  let ?ds = "inputs_of i st" and ?f = "\<lambda>d. (row_key d, decision_of d)"
  let ?s = "sort_key ir_generation ?ds" and ?j = "NewBoundedInputJournal g (cf_maxInputs c)"
  have g: "list_all input_good ?ds" "distinct (map row_key ?ds)" "int (length ?ds) \<le> cf_maxInputs c"
    using assms(2) by (auto simp: inputs_good_def)
  have d: "distinct (map row_key ?s)" using g(2) by (simp add: distinct_map)
  then have "\<exists>j. restore_inputs ?s ?j = Inr j \<and> j_max j = j_max ?j \<and> j_current j = j_current ?j \<and>
     distinct (map fst (j_decisions j)) \<and> length (j_decisions j) = length (j_decisions ?j) + length ?s \<and>
     map_of (j_decisions j) = map_of (j_decisions ?j) ++ map_of (map ?f ?s)"
    using g(1,3) by (intro restore_inputs_ok) (auto simp: NewBoundedInputJournal_def list_all_iff)
  moreover have "map_of (map ?f ?s) = map_of (map ?f ?ds)" using d g(2) map_of_inject_set[of "map ?f ?s" "map ?f ?ds"] by (simp add: comp_def)
  ultimately show ?thesis using g(3) by (auto simp: journal_good_def NewBoundedInputJournal_def)
qed

lemma recover_session_ok:
  assumes "limits c" and "linked c evs i name UNIV st" and "map_of (st_sessions st) i = Some r"
    and "length (payload evs) < u64_size" and nf: "\<And>k. \<not> fault k"
  shows "\<exists>s st'. recover_session c fault now r st = (Inr s, st') \<and> touches i st st' \<and> linked c evs i name UNIV st' \<and>
     rebuilt c evs r st s"
proof -
  have g: "row_good i r" "sn_id r = i" using assms(2,3) by (auto simp: linked_def row_good_def)
  obtain x where x: "recovered_state (state_of (sn_state r)) = Some x"
    "RecoverLifecycle (state_string x) (sn_generation r) = Inr \<lparr>lc_state = x, lc_generation = sn_generation r\<rparr>"
    "state_good x (sn_generation r)"
    using row_recovers[OF g(1)] by metis
  let ?q = "recovered_row (cf_signal c) now r"
  have "\<exists>st1. (if state_string x = sn_state r then (Inr (), st) else UpdateSession False i (sn_state r) ?q st) = (Inr (), st1) \<and>
     touches i st st1 \<and> linked c evs i name UNIV st1 \<and> stored_latest i st1 = sn_latest r \<and> inputs_of i st1 = inputs_of i st"
    using recovered_update[OF assms(2,3) x(1,3)] assms(2,3) by (auto simp: touches_refl stored_latest_def)
  then obtain st1 where u: "(if state_string x = sn_state r then (Inr (), st) else UpdateSession False i (sn_state r) ?q st) = (Inr (), st1)"
    and st1: "touches i st st1" "linked c evs i name UNIV st1" "stored_latest i st1 = sn_latest r" "inputs_of i st1 = inputs_of i st"
    by blast
  have "0 < cf_history c" using assms(1) by (simp add: limits_def config_ok_def)
  then obtain h st2 where h: "recover_output i (cf_history c) st1 = (Some h, st2)" "history_wf h" "h_max h = cf_history c"
    "h_latest h = sn_latest r" "payload (retained h) = slice (payload evs) (h_earliest h) (sn_latest r)" "stored evs i st2"
    using recover_output_window[OF linked_stored[OF st1(2)] _ assms(4)] st1(3) by metis
  have o: "output_only i st1 st2" by (rule recover_output_only[OF h(1)])
  have st2: "touches i st st2" "linked c evs i name UNIV st2" "inputs_of i st2 = inputs_of i st"
    using touches_trans[OF st1(1)] o linked_output[OF st1(2) o h(6)] st1(4) by (simp_all add: output_only_def)
  obtain j where j: "restore_inputs (sort_key ir_generation (inputs_of i st)) (NewBoundedInputJournal (sn_generation r) (cf_maxInputs c)) = Inr j"
    "journal_good c j" "map_of (j_decisions j) = map_of (map (\<lambda>d. (row_key d, decision_of d)) (inputs_of i st))"
    using recovered_inputs[OF assms(1), of i st] assms(2) by (auto simp: linked_def)
  have f: "fault 0 = False" "fault 3 = False" using nf by simp_all
  have "recover_session c fault now r st = (Inr (rebuild c ?q h \<lparr>lc_state = x, lc_generation = sn_generation r\<rparr> j), st2)"
    unfolding recover_session_def Let_def x(1) option.case g(2) f(1) u prod.case sum.case recover_history_quiet[OF h(1) nf]
      x(2) InputDecisions_def f(2) if_False inputs_of_def[symmetric] st2(3) j(1) by (rule refl)
  moreover have "rebuilt c evs r st (rebuild c ?q h \<lparr>lc_state = x, lc_generation = sn_generation r\<rparr> j)"
    using x(1) h j g(2) by (simp add: rebuilt_def rebuild_def recovered_row_fields new_session_def)
  ultimately show ?thesis using st2 by blast
qed

lemma rebuilt_view: "same_view (sn_id r) st st' \<Longrightarrow> rebuilt c evs r st' s = rebuilt c evs r st s"
  by (simp add: rebuilt_def same_view_def)

lemma recover_all_ok:
  assumes "rows_inv c lg st" and "limits c" and "mg_config m = c" and nf: "\<And>k j. \<not> fault k j"
    and "\<forall>r\<in>set rs. map_of (st_sessions st) (sn_id r) = Some r" and "distinct (map sn_id rs)"
    and "\<forall>r\<in>set rs. map_of (mg_sessions m) (sn_id r) = None \<and> map_of (mg_names m) (sn_name r) = None"
  shows "\<exists>st' m'. recover_all fault k now rs st m = (None, st', m') \<and> rows_inv c lg st' \<and> mg_config m' = c \<and>
     (\<forall>i. i \<notin> sn_id ` set rs \<longrightarrow> map_of (mg_sessions m') i = map_of (mg_sessions m) i) \<and>
     (\<forall>r\<in>set rs. \<exists>s. map_of (mg_sessions m') (sn_id r) = Some s \<and> rebuilt c (lg (sn_id r)) r st s)"
  using assms
proof (induction rs arbitrary: k st m)
  case (Cons r rs)
  let ?i = "sn_id r"
  have row: "map_of (st_sessions st) ?i = Some r" using Cons.prems(5) by simp
  then have l: "linked c (lg ?i) ?i (sn_name r) UNIV st" "length (payload (lg ?i)) < u64_size"
    and names: "\<And>j q. map_of (st_sessions st) j = Some q \<Longrightarrow> sn_name q = sn_name r \<Longrightarrow> j = ?i"
    using Cons.prems(1) by (auto simp: rows_inv_def)
  obtain s st1 where s: "recover_session c (fault k) now r st = (Inr s, st1)" "touches ?i st st1"
    "linked c (lg ?i) ?i (sn_name r) UNIV st1" "rebuilt c (lg ?i) r st s"
    using recover_session_ok[OF Cons.prems(2) l(1) row l(2), of "fault k" now] nf by blast
  have "rows_inv c (lg(?i := lg ?i)) st1"
    by (rule rows_touch[OF Cons.prems(1) s(2)]) (use s(3) l(2) names in blast)
  then have inv: "rows_inv c lg st1" by simp
  let ?m = "m\<lparr>mg_sessions := AList.update ?i s (mg_sessions m), mg_names := AList.update (sn_name r) ?i (mg_names m)\<rparr>"
  have other: "sn_id q \<noteq> ?i" if "q \<in> set rs" for q using Cons.prems(6) that by (metis distinct.simps(2) imageI list.set_map list.simps(9))
  have view: "same_view (sn_id q) st st1" if "q \<in> set rs" for q using touches_view[OF s(2) other[OF that]] .
  have rows: "\<forall>q\<in>set rs. map_of (st_sessions st1) (sn_id q) = Some q"
    using view Cons.prems(5) by (simp add: same_view_def)
  have name: "sn_name q \<noteq> sn_name r" if "q \<in> set rs" for q
    using names[of "sn_id q" q] Cons.prems(5) other[OF that] that by auto
  have "\<exists>st' m'. recover_all fault (Suc k) now rs st1 ?m = (None, st', m') \<and> rows_inv c lg st' \<and> mg_config m' = c \<and>
     (\<forall>i. i \<notin> sn_id ` set rs \<longrightarrow> map_of (mg_sessions m') i = map_of (mg_sessions ?m) i) \<and>
     (\<forall>r\<in>set rs. \<exists>s. map_of (mg_sessions m') (sn_id r) = Some s \<and> rebuilt c (lg (sn_id r)) r st1 s)"
    using Cons.prems(2,3,6,7) nf other name by (intro Cons.IH[OF inv _ _ _ rows]) (simp_all add: update_conv')
  then obtain st' m' where m': "recover_all fault (Suc k) now rs st1 ?m = (None, st', m')" "rows_inv c lg st'" "mg_config m' = c"
    "\<And>i. i \<notin> sn_id ` set rs \<Longrightarrow> map_of (mg_sessions m') i = map_of (mg_sessions ?m) i"
    "\<And>q. q \<in> set rs \<Longrightarrow> \<exists>s. map_of (mg_sessions m') (sn_id q) = Some s \<and> rebuilt c (lg (sn_id q)) q st1 s" by blast
  have "recover_all fault k now (r # rs) st m = (None, st', m')" using s(1) m'(1) Cons.prems(3,7) by simp
  moreover have "map_of (mg_sessions m') ?i = Some s"
  proof -
    have "?i \<notin> sn_id ` set rs" using Cons.prems(6) by simp
    then show ?thesis using m'(4)[of ?i] by (simp add: update_conv')
  qed
  moreover have "map_of (mg_sessions m') i = map_of (mg_sessions m) i" if "i \<notin> sn_id ` set (r # rs)" for i
    using m'(4)[of i] that by (simp add: update_conv')
  moreover have "\<exists>t. map_of (mg_sessions m') (sn_id q) = Some t \<and> rebuilt c (lg (sn_id q)) q st t" if "q \<in> set rs" for q
    using m'(5)[OF that] rebuilt_view[OF view[OF that]] by simp
  ultimately show ?case using m'(2,3) s(4) by (intro exI[of _ st'] exI[of _ m']) (simp (no_asm_simp) del: recover_all.simps)
qed auto

lemma rows_listed:
  assumes "rows_inv c lg st" and "Sessions False st = Inr rs"
  shows "\<forall>r\<in>set rs. map_of (st_sessions st) (sn_id r) = Some r" and "distinct (map sn_id rs)"
    and "map_of (st_sessions st) i = Some r \<Longrightarrow> r \<in> set rs \<and> sn_id r = i"
proof -
  have d: "distinct (map fst (st_sessions st))" using assms(1) by (simp add: rows_inv_def)
  have id: "sn_id r = i" if "map_of (st_sessions st) i = Some r" for i r
    using assms(1) that by (auto simp: rows_inv_def linked_def row_good_def)
  have rs: "rs = sort_key (\<lambda>r. map of_char (sn_name r) :: nat list) (map snd (st_sessions st))"
    using assms(2) by (simp add: Sessions_def)
  have pair: "sn_id (snd x) = fst x" if "x \<in> set (st_sessions st)" for x
    using id[of "fst x" "snd x"] d that by simp
  then show "\<forall>r\<in>set rs. map_of (st_sessions st) (sn_id r) = Some r" using d rs by auto
  have "map sn_id (map snd (st_sessions st)) = map fst (st_sessions st)" using pair by simp
  then have "distinct (map sn_id (map snd (st_sessions st)))" using d by (simp only:)
  then have "distinct (map snd (st_sessions st))" "inj_on sn_id (set (map snd (st_sessions st)))"
    unfolding distinct_map[of sn_id] by (rule conjunct1, rule conjunct2)
  then show "distinct (map sn_id rs)" unfolding distinct_map[of sn_id] rs by simp
  show "r \<in> set rs \<and> sn_id r = i" if "map_of (st_sessions st) i = Some r"
    using id[OF that] map_of_SomeD[OF that] rs by force
qed

lemma NewManager_ok:
  assumes "rows_inv (config_defaults c) lg st" and "limits (config_defaults c)" and "cf_launch (config_defaults c)"
    and nf: "\<And>k j. \<not> fault k j"
  shows "\<exists>m' st'. NewManager c fault False now (Some st) = (Inr m', Some st') \<and> rows_inv (config_defaults c) lg st' \<and>
     (\<forall>i. map_of (st_sessions st) i = None \<longrightarrow> map_of (mg_sessions m') i = None) \<and>
     (\<forall>i r. map_of (st_sessions st) i = Some r \<longrightarrow> (\<exists>s. map_of (mg_sessions m') i = Some s \<and> rebuilt (config_defaults c) (lg i) r st s))"
proof -
  let ?c = "config_defaults c"
  let ?m = "\<lparr>mg_config = ?c, mg_sessions = [], mg_names = [], mg_stopping = False, mg_store = Some st\<rparr>"
  obtain rs where rs: "Sessions False st = Inr rs" by (simp add: Sessions_def)
  note l = rows_listed[OF assms(1) rs]
  obtain st' m' where m': "recover_all fault 0 now rs st ?m = (None, st', m')" "rows_inv ?c lg st'"
    "\<And>i. i \<notin> sn_id ` set rs \<Longrightarrow> map_of (mg_sessions m') i = None"
    "\<And>q. q \<in> set rs \<Longrightarrow> \<exists>s. map_of (mg_sessions m') (sn_id q) = Some s \<and> rebuilt ?c (lg (sn_id q)) q st s"
    using recover_all_ok[where fault = fault and m = ?m and k = 0 and now = now, OF assms(1,2) _ nf l(1,2)] by auto
  have "NewManager c fault False now (Some st) = (Inr (m'\<lparr>mg_store := Some st'\<rparr>), Some st')"
    using m'(1) rs assms(2,3) by (simp add: NewManager_def Let_def limits_def)
  moreover have "map_of (mg_sessions m') i = None" if "map_of (st_sessions st) i = None" for i
    using m'(3)[of i] l(1) that by (metis image_iff option.distinct(1))
  moreover have "\<exists>s. map_of (mg_sessions m') i = Some s \<and> rebuilt ?c (lg i) r st s" if "map_of (st_sessions st) i = Some r" for i r
    using m'(4)[of r] l(3)[OF that] by auto
  ultimately show ?thesis using m'(2) by (intro exI[of _ "m'\<lparr>mg_store := Some st'\<rparr>"] exI[of _ st']) simp
qed

section \<open>Runs from an empty database\<close>

definition empty_store :: store where
  "empty_store = \<lparr>st_sessions = [], st_output = [], st_inputs = []\<rparr>"

definition start_world :: "manager \<Rightarrow> world" where
  "start_world m = \<lparr>wd_manager = m, wd_log = \<lambda>_. []\<rparr>"

lemma rows_empty: "rows_inv c (\<lambda>_. []) empty_store"
  by (simp add: rows_inv_def empty_store_def output_of_def inputs_of_def u64_size_def)

lemma NewManager_start:
  assumes "NewManager c fault lf now (Some empty_store) = (Inr m, ost)"
  shows "m = \<lparr>mg_config = config_defaults c, mg_sessions = [], mg_names = [], mg_stopping = False, mg_store = Some empty_store\<rparr>"
    and "cf_launch (config_defaults c)" and "config_ok (config_defaults c)"
  using assms by (auto simp: NewManager_def Sessions_def empty_store_def Let_def split: if_splits)

lemma world_start_inv:
  assumes "NewManager c fault lf now (Some empty_store) = (Inr m, ost)" and "cf_history (config_defaults c) < u64_size"
  shows "world_inv (start_world m)"
proof -
  note n = NewManager_start[OF assms(1)]
  show ?thesis using n(3) assms(2) rows_empty
    by (intro world_invI[of _ empty_store]) (auto simp: n(1) start_world_def limits_def names_inv_def config_ok_def)
qed

lemma Create_config: "mg_config (snd (Create env i name cmd m)) = mg_config m"
  by (auto simp: Create_def Let_def split: sum.splits prod.splits option.splits)

lemma delete_config: "mg_config (snd (delete_ended f i m)) = mg_config m"
  by (auto simp: delete_ended_def Let_def split: sum.splits prod.splits option.splits)

lemma exec_config: "mg_config (wd_manager (manager_exec sha a w)) = mg_config (wd_manager w)"
proof (cases a)
  case (MDelete i f)
  then show ?thesis using delete_config[of f i "wd_manager w"] by (auto split: prod.splits option.splits)
qed (auto simp: Create_config Let_def split: option.split prod.split)

lemma run_config: "mg_config (wd_manager (fold (manager_exec sha) ops w)) = mg_config (wd_manager w)"
  by (induction ops arbitrary: w) (simp_all add: exec_config del: manager_exec.simps)

lemma reached:
  assumes "NewManager c fault lf now (Some empty_store) = (Inr m0, ost)" and "cf_history (config_defaults c) < u64_size"
    and "sha_sized sha" and "list_all op_ok ops"
  shows "world_inv (fold (manager_exec sha) ops (start_world m0))"
    and "mg_config (wd_manager (fold (manager_exec sha) ops (start_world m0))) = config_defaults c"
proof -
  show "world_inv (fold (manager_exec sha) ops (start_world m0))"
    using manager_run.run[OF world_start_inv[OF assms(1,2)], of sha ops] assms(3,4) by (simp add: list_all_iff)
  show "mg_config (wd_manager (fold (manager_exec sha) ops (start_world m0))) = config_defaults c"
    by (simp add: run_config start_world_def NewManager_start(1)[OF assms(1)])
qed

lemma query_restored:
  assumes "rebuilt c evs r st s" and "key_good k" and "plain k \<in> row_key ` set (inputs_of (sn_id r) st)"
  shows "\<exists>d. Query k (ms_inputs s) = Inr d"
proof -
  have "map_of (j_decisions (ms_inputs s)) (plain k) \<noteq> None"
    using assms(1,3) by (auto simp: rebuilt_def map_of_eq_None_iff image_image)
  moreover have "fst (normalizeInputKey k) = plain k" using assms(2) by (simp add: normalizeInputKey_def plain_def key_good_def)
  ultimately show ?thesis by (auto simp: Query_def)
qed

lemma write_exec:
  assumes "map_of (mg_sessions (wd_manager w)) i = Some s"
    and "session_Write sha f wr k d s (mg_store (wd_manager w)) = (r, out, s', ost)"
  shows "mg_store (wd_manager (manager_exec sha (MAct i (AWrite f wr k d)) w)) = ost"
  using assms by (simp add: Let_def)

section \<open>Examples\<close>

definition ex_setup :: manager_config where
  "ex_setup = \<lparr>cf_launch = True, cf_history = 0, cf_attachment = 0, cf_timeout = 0, cf_grace = 0, cf_maxSessions = 0,
     cf_maxAttachments = 0, cf_maxInputs = 0, cf_signal = []\<rparr>"

definition ex_manager :: manager where
  "ex_manager = \<lparr>mg_config = config_defaults ex_setup, mg_sessions = [], mg_names = [], mg_stopping = False, mg_store = Some empty_store\<rparr>"

lemma ex_manager_new: "NewManager ex_setup (\<lambda>_ _. False) False 0 (Some empty_store) = (Inr ex_manager, Some empty_store)"
  by (simp add: NewManager_def ex_setup_def ex_manager_def config_defaults_def config_ok_def Sessions_def empty_store_def Let_def)

lemma ex_setup_size: "cf_history (config_defaults ex_setup) < u64_size"
  by (simp add: config_defaults_def ex_setup_def u64_size_def)

definition ex_sha :: "bytes \<Rightarrow> bytes" where
  "ex_sha d = replicate 32 (CHR 0x07)"

lemma ex_sha_sized: "sha_sized ex_sha"
  by (simp add: sha_sized_def ex_sha_def)

definition ex_command :: command where
  "ex_command = \<lparr>cm_path = ''sh'', cm_args = [], cm_env = [], cm_cwd = ''/'', cm_columns = 80, cm_rows = 24\<rparr>"

definition ex_create :: create_env where
  "ex_create = \<lparr>cr_canceled = False, cr_random = \<lambda>_. None, cr_fault = \<lambda>_. False, cr_launch = Some 5\<rparr>"

definition ex_ops :: "manager_op list" where
  "ex_ops = [MCreate ex_create ''s1'' ''work'' ex_command, MAct ''s1'' (AAttach ''a1'' 0)]"

definition ex_session1 :: managedSession where
  "ex_session1 = startOutputPersistence (Some empty_store)
     ((new_session (config_defaults ex_setup) ''s1'' ''work'' ex_command)\<lparr>ms_lifecycle := \<lparr>lc_state = Running, lc_generation = 1\<rparr>,
       ms_inputs := NewBoundedInputJournal 1 10000, ms_process := Some 5, ms_live := Some (5, 1)\<rparr>)"

definition ex_row1 :: session_row where
  "ex_row1 = (created_row ''s1'' ''work'' ex_command)\<lparr>sn_state := state_string Running, sn_generation := 1\<rparr>"

definition ex_world1 :: world where
  "ex_world1 = \<lparr>wd_manager = ex_manager\<lparr>mg_sessions := [(''s1'', ex_session1)], mg_names := [(''work'', ''s1'')],
     mg_store := Some (empty_store\<lparr>st_sessions := [(''s1'', ex_row1)]\<rparr>)\<rparr>, wd_log = \<lambda>_. []\<rparr>"

definition ex_row0 :: session_row where
  "ex_row0 = created_row ''s1'' ''work'' ex_command"

lemma ex_insert: "insert_row False (created_row ''s1'' ''work'' ex_command) (Some empty_store) =
    (None, Some (empty_store\<lparr>st_sessions := [(''s1'', ex_row0)]\<rparr>))"
  by (simp add: insert_row_def CreateSession_def session_checks_def ex_row0_def created_row_def ex_command_def i63_def empty_store_def)

lemma ex_launch: "launch_session ex_create (new_session (config_defaults ex_setup) ''s1'' ''work'' ex_command)
    (Some (empty_store\<lparr>st_sessions := [(''s1'', ex_row0)]\<rparr>)) =
    (Inr ex_session1, Some (empty_store\<lparr>st_sessions := [(''s1'', ex_row1)]\<rparr>))"
proof -
  let ?s = "(new_session (config_defaults ex_setup) ''s1'' ''work'' ex_command)\<lparr>ms_lifecycle := \<lparr>lc_state = Running, lc_generation = 1\<rparr>\<rparr>"
  have r: "storeRecordLocked ?s = ex_row1"
    by (simp add: storeRecordLocked_def snapshotLocked_def Snapshot_def Bounds_def new_session_def New_def ex_row1_def created_row_def
        config_defaults_def ex_setup_def Let_def)
  have "persist False Creating ?s (Some (empty_store\<lparr>st_sessions := [(''s1'', ex_row0)]\<rparr>)) =
      (None, Some (empty_store\<lparr>st_sessions := [(''s1'', ex_row1)]\<rparr>))"
    unfolding persist_def r
    by (simp add: update_row_def UpdateSession_def ex_row0_def ex_row1_def created_row_def session_checks_def ex_command_def i63_def Let_def)
  moreover have "j_max (ms_inputs (new_session (config_defaults ex_setup) ''s1'' ''work'' ex_command)) = 10000"
    by (simp add: new_session_fields config_defaults_def ex_setup_def)
  ultimately show ?thesis
    by (simp add: launch_session_def ex_create_def try_move_new Snapshot_def ex_session1_def startOutputPersistence_def)
qed

lemma ex_created_world: "manager_exec ex_sha (MCreate ex_create ''s1'' ''work'' ex_command) (start_world ex_manager) = ex_world1"
proof -
  have v: "validSessionName ''work''" by (simp add: validSessionName_def between_def)
  have m: "mg_sessions ex_manager = []" "mg_names ex_manager = []" "\<not> mg_stopping ex_manager" "mg_store ex_manager = Some empty_store"
    "mg_config ex_manager = config_defaults ex_setup" "cf_maxSessions (config_defaults ex_setup) = 20"
    by (simp_all add: ex_manager_def config_defaults_def ex_setup_def)
  have e: "\<not> cr_canceled ex_create" "\<not> cr_fault ex_create 0" by (simp_all add: ex_create_def)
  show ?thesis using v m e ex_insert ex_launch by (simp add: Create_def start_world_def ex_world1_def)
qed

definition ex_fanout1 :: fanout where
  "ex_fanout1 = \<lparr>fo_attachments = [(''a1'', \<lparr>cu_state = Attached, cu_max = 1048576, cu_queued = 0, cu_evicted = 0,
     cu_cursor = 0, cu_end = 0, cu_has = False, cu_notify = False\<rparr>)], fo_active = {''a1''}, fo_ring = []\<rparr>"

definition ex_world2 :: world where
  "ex_world2 = ex_world1\<lparr>wd_manager := (wd_manager ex_world1)\<lparr>mg_sessions := [(''s1'', ex_session1\<lparr>ms_fanout := ex_fanout1\<rparr>)]\<rparr>\<rparr>"

lemma ex_attach1: "snd (attachLocked 16 1048576 ''a1'' 0 ex_session1) = ex_session1\<lparr>ms_fanout := ex_fanout1\<rparr>"
  by (simp add: attachLocked_def ex_session1_def startOutputPersistence_def new_session_def New_def config_defaults_def ex_setup_def
      NewFanout_def Count_def attach_replay_def ReplayOwned_def replay_loop.simps Attach_def ex_fanout1_def Let_def)

lemma ex_world_run: "fold (manager_exec ex_sha) ex_ops (start_world ex_manager) = ex_world2"
proof -
  have "manager_exec ex_sha (MAct ''s1'' (AAttach ''a1'' 0)) ex_world1 = ex_world2"
    using ex_attach1
    by (simp add: ex_world1_def ex_world2_def ex_manager_def config_defaults_def ex_setup_def fun_upd_idem)
  then show ?thesis using ex_created_world by (simp add: ex_ops_def del: manager_exec.simps)
qed

definition ex_input_key :: inputKey where
  "ex_input_key = \<lparr>ik_client = ''c1'', ik_attachment = ''a1'', ik_generation = 1, ik_sequence = 1, ik_id = []\<rparr>"

definition ex_write :: "(inputDecision option \<times> manager_error option) \<times> bytes list \<times> managedSession \<times> store option" where
  "ex_write = session_Write ex_sha (\<lambda>k. k = 1) (\<lambda>d. (int (length d), False)) ex_input_key ''ls'' (ex_session1\<lparr>ms_fanout := ex_fanout1\<rparr>)
     (mg_store (wd_manager ex_world2))"

lemma ex_write_out: "fst (snd ex_write) = [''ls'']"
proof -
  let ?s = "ex_session1\<lparr>ms_fanout := ex_fanout1\<rparr>"
  have s: "ms_lifecycle ?s = \<lparr>lc_state = Running, lc_generation = 1\<rparr>" "ms_process ?s = Some 5" "ms_id ?s = ''s1''"
    "ms_inputs ?s = NewBoundedInputJournal 1 10000" "attached_now ''a1'' ?s"
    by (simp_all add: ex_session1_def startOutputPersistence_def new_session_def attached_now_def Status_def ex_fanout1_def)
  have st: "mg_store (wd_manager ex_world2) = Some (empty_store\<lparr>st_sessions := [(''s1'', ex_row1)]\<rparr>)"
    by (simp add: ex_world2_def ex_world1_def)
  have k: "fst (normalizeInputKey ex_input_key) = ex_input_key" "ik_generation ex_input_key = 1" "ik_attachment ex_input_key = ''a1''"
    by (simp_all add: normalizeInputKey_def ex_input_key_def)
  have adm: "Query ex_input_key (NewBoundedInputJournal 1 10000) = Inl ErrInputUnknown" "Admit ex_input_key (NewBoundedInputJournal 1 10000) = None"
    by (simp_all add: Query_def Admit_def NewBoundedInputJournal_def k sequence_error_def LastSequence_def Let_def)
  obtain r j where w: "journal_Write ex_sha ex_input_key ''ls'' (Some (\<lambda>d. (int (length d), False))) (NewBoundedInputJournal 1 10000) = (Inr r, [''ls''], j)"
    by (simp add: journal_Write_def reserve_def NewBoundedInputJournal_def normalizeInputKey_def sequence_error_def LastSequence_def
        ex_input_key_def u64_add_def u64_size_def Let_def)
  have p: "PutInputDecision False (decision_row ''s1'' ex_input_key (ex_sha ''ls'') InputUncertain 0 []) (empty_store\<lparr>st_sessions := [(''s1'', ex_row1)]\<rparr>) =
      (Inr True, empty_store\<lparr>st_sessions := [(''s1'', ex_row1)], st_inputs := [decision_row ''s1'' ex_input_key (ex_sha ''ls'') InputUncertain 0 []]\<rparr>)"
    by (simp add: PutInputDecision_def empty_store_def decision_row_def)
  show ?thesis unfolding ex_write_def session_Write_def st
    using s k adm w p by (simp add: Snapshot_def UpdateInputDecision_def Let_def)
qed

section \<open>Properties\<close>







end
