(* ===== verification/Wire_Codec.thy ===== *)
theory Wire_Codec
  imports Prelude
begin

text \<open>
  The framed byte streams: \<^verbatim>\<open>internal/hostruntime/protocol/binary.go\<close> (output and input frames),
  the preface and the records of \<^verbatim>\<open>nativeproto.go\<close>, and the greeting of a resumable stream in
  \<^verbatim>\<open>resumablestream/protocol.go\<close>. A reader consumes the bytes of the stream and leaves the rest; a
  writer is what the destination makes of each call.
\<close>

section \<open>Streams\<close>

datatype code =
    Malformed | Oversized | UnsupportedMessage | InvalidFrame | CapabilityRequired | InvalidDeadline
  | CredentialExpired | UnsupportedChannel | ProtocolIncompatible

datatype wire_error =
    EOF | UnexpectedEOF | Coded code | ErrPreface | ErrRecord | ErrProtocol | WriterError | ErrShortWrite

text \<open>\<^verbatim>\<open>io.ReadFull\<close>; its errors tell a clean end from a truncated read.\<close>

definition read_full :: "nat \<Rightarrow> bytes \<Rightarrow> wire_error + bytes \<times> bytes" where
  "read_full n bs =
     (if n \<le> length bs then Inr (take n bs, drop n bs) else Inl (if bs = [] then EOF else UnexpectedEOF))"

text \<open>
  \<^verbatim>\<open>w k p\<close> is the answer of the \<open>k\<close>-th call of \<^verbatim>\<open>Write\<close>: how many bytes it took and whether it
  failed. The result is the error, what reached the destination and the number of calls so far.
\<close>

type_synonym writer = "nat \<Rightarrow> bytes \<Rightarrow> nat \<times> bool"

function writeAll :: "writer \<Rightarrow> nat \<Rightarrow> bytes \<Rightarrow> wire_error option \<times> bytes \<times> nat" where
  "writeAll w k p =
     (if p = [] then (None, [], k)
      else case w k p of
        (n, err) \<Rightarrow>
          if err then (Some WriterError, take n p, Suc k)
          else if n = 0 then (Some ErrShortWrite, [], Suc k)
          else (case writeAll w (Suc k) (drop n p) of (e, out, k') \<Rightarrow> (e, take n p @ out, k')))"
  by pat_completeness auto
termination
  by (relation "measure (\<lambda>(w, k, p). length p)") auto

declare writeAll.simps [simp del]

section \<open>Binary frames\<close>

record binaryFrame =
  bf_channel :: byte
  bf_start :: nat
  bf_data :: bytes

definition MaxBinaryFrame :: nat where
  "MaxBinaryFrame = 256 * 1024"

definition binaryHeaderLen :: nat where
  "binaryHeaderLen = 9"

definition known_channel :: "byte \<Rightarrow> bool" where
  "known_channel b \<longleftrightarrow> b = CHR 0x01 \<or> b = CHR 0x02 \<or> b = CHR 0x03"

definition EndSequence :: "binaryFrame \<Rightarrow> wire_error + nat" where
  "EndSequence f =
     (if u64_sub u64_max (bf_start f) < length (bf_data f) then Inl (Coded InvalidFrame)
      else Inr (u64_add (bf_start f) (length (bf_data f))))"

definition ReadBinaryFrame :: "bytes \<Rightarrow> wire_error + binaryFrame \<times> bytes" where
  "ReadBinaryFrame bs =
     (case read_full 4 bs of
        Inl e \<Rightarrow> Inl e
      | Inr (len, r1) \<Rightarrow>
          (let n = be_get len
           in if n < binaryHeaderLen then Inl (Coded InvalidFrame)
              else if MaxBinaryFrame < n then Inl (Coded Oversized)
              else case read_full binaryHeaderLen r1 of
                Inl _ \<Rightarrow> Inl (Coded InvalidFrame)
              | Inr (header, r2) \<Rightarrow>
                  if \<not> known_channel (header ! 0) then Inl (Coded UnsupportedChannel)
                  else (case read_full (n - binaryHeaderLen) r2 of
                          Inl _ \<Rightarrow> Inl (Coded InvalidFrame)
                        | Inr (data, r3) \<Rightarrow>
                            (let f = \<lparr>bf_channel = header ! 0, bf_start = be_get (drop 1 header), bf_data = data\<rparr>
                             in case EndSequence f of Inl e \<Rightarrow> Inl e | Inr _ \<Rightarrow> Inr (f, r3)))))"

definition binary_header :: "binaryFrame \<Rightarrow> bytes" where
  "binary_header f = be_put 4 (binaryHeaderLen + length (bf_data f)) @ bf_channel f # be_put 8 (bf_start f)"

definition WriteBinaryFrame :: "writer \<Rightarrow> binaryFrame \<Rightarrow> wire_error option \<times> bytes" where
  "WriteBinaryFrame w f =
     (if \<not> known_channel (bf_channel f) then (Some (Coded UnsupportedChannel), [])
      else if MaxBinaryFrame - binaryHeaderLen < length (bf_data f) then (Some (Coded Oversized), [])
      else case EndSequence f of
        Inl e \<Rightarrow> (Some e, [])
      | Inr _ \<Rightarrow>
          (case writeAll w 0 (binary_header f) of
             (Some e, out, _) \<Rightarrow> (Some e, out)
           | (None, out, k) \<Rightarrow>
               (case writeAll w k (bf_data f) of (e, out', _) \<Rightarrow> (e, out @ out'))))"

section \<open>Native streams\<close>

record preface =
  pf_role :: byte
  pf_id :: bytes
  pf_binding :: bytes
  pf_token :: string

definition Magic :: bytes where
  "Magic = ''PBT1''"

definition MaxTokenSize :: nat where
  "MaxTokenSize = 16 * 1024"

definition MaxRecordSize :: nat where
  "MaxRecordSize = 1024 * 1024"

definition validLengths :: "byte \<Rightarrow> nat \<Rightarrow> nat \<Rightarrow> bool" where
  "validLengths role bindingLen tokenLen \<longleftrightarrow>
     (role = CHR 0x01 \<or> role = CHR 0x04) \<and> bindingLen = 0 \<and> 0 < tokenLen \<or>
     (role = CHR 0x02 \<or> role = CHR 0x03) \<and> bindingLen = 32 \<and> tokenLen = 0"

definition zeroID :: "bytes \<Rightarrow> bool" where
  "zeroID i \<longleftrightarrow> i = replicate 16 (CHR 0x00)"

definition ReadPreface :: "bytes \<Rightarrow> wire_error + preface \<times> bytes" where
  "ReadPreface bs =
     (case read_full 26 bs of
        Inl e \<Rightarrow> Inl e
      | Inr (header, r1) \<Rightarrow>
          if take 4 header \<noteq> Magic \<or> header ! 4 \<noteq> CHR 0x01 then Inl ErrPreface
          else (let role = header ! 5; i = slice header 6 22; bindingLen = be_get (slice header 22 24);
                    tokenLen = be_get (slice header 24 26)
                in if zeroID i \<or> MaxTokenSize < tokenLen \<or> \<not> validLengths role bindingLen tokenLen then Inl ErrPreface
                   else case read_full bindingLen r1 of
                     Inl e \<Rightarrow> Inl e
                   | Inr (binding, r2) \<Rightarrow>
                       (case read_full tokenLen r2 of
                          Inl e \<Rightarrow> Inl e
                        | Inr (token, r3) \<Rightarrow>
                            Inr (\<lparr>pf_role = role, pf_id = i, pf_binding = binding, pf_token = token\<rparr>, r3))))"

definition preface_bytes :: "preface \<Rightarrow> bytes" where
  "preface_bytes p =
     Magic @ [CHR 0x01, pf_role p] @ pf_id p @ be_put 2 (length (pf_binding p)) @ be_put 2 (length (pf_token p)) @
     pf_binding p @ pf_token p"

definition WritePreface :: "writer \<Rightarrow> preface \<Rightarrow> wire_error option \<times> bytes" where
  "WritePreface w p =
     (if zeroID (pf_id p) \<or> MaxTokenSize < length (pf_token p) \<or>
         \<not> validLengths (pf_role p) (length (pf_binding p)) (length (pf_token p))
      then (Some ErrPreface, [])
      else case writeAll w 0 (preface_bytes p) of (e, out, _) \<Rightarrow> (e, out))"

definition record_kind :: "byte \<Rightarrow> bool" where
  "record_kind b \<longleftrightarrow> b = CHR 0x01 \<or> b = CHR 0x02"

definition ReadRecord :: "bool \<Rightarrow> bytes \<Rightarrow> wire_error + (byte \<times> bytes) \<times> bytes" where
  "ReadRecord typed bs =
     (case read_full (if typed then 5 else 4) bs of
        Inl e \<Rightarrow> Inl e
      | Inr (header, r1) \<Rightarrow>
          if typed \<and> \<not> record_kind (header ! 0) then Inl ErrRecord
          else (let kind = (if typed then header ! 0 else CHR 0x02); n = be_get (drop (if typed then 1 else 0) header)
                in if n = 0 \<or> MaxRecordSize < n then Inl ErrRecord
                   else case read_full n r1 of Inl e \<Rightarrow> Inl e | Inr (payload, r2) \<Rightarrow> Inr ((kind, payload), r2)))"

definition record_bytes :: "bool \<Rightarrow> byte \<times> bytes \<Rightarrow> bytes" where
  "record_bytes typed r = (if typed then [fst r] else []) @ be_put 4 (length (snd r)) @ snd r"

definition WriteRecord :: "writer \<Rightarrow> byte \<Rightarrow> bytes \<Rightarrow> bool \<Rightarrow> wire_error option \<times> bytes" where
  "WriteRecord w kind payload typed =
     (if payload = [] \<or> MaxRecordSize < length payload \<or> typed \<and> \<not> record_kind kind then (Some ErrRecord, [])
      else case writeAll w 0 (record_bytes typed (kind, payload)) of (e, out, _) \<Rightarrow> (e, out))"

section \<open>The greeting of a resumable stream\<close>

record helloV2 =
  hl_kind :: byte
  hl_digest :: bytes
  hl_carrier :: bytes
  hl_epoch :: nat
  hl_committed :: nat
  hl_ack :: nat
  hl_fin :: bool
  hl_finOffset :: nat

definition hello_magic :: bytes where
  "hello_magic = ''PBRS'' @ [CHR 0x00, CHR 0x00, CHR 0x00, CHR 0x03]"

definition hello_bytes :: "helloV2 \<Rightarrow> bytes" where
  "hello_bytes h =
     hello_magic @ [hl_kind h] @ hl_digest h @ hl_carrier h @ be_put 8 (hl_epoch h) @ be_put 8 (hl_committed h) @
     be_put 8 (hl_ack h) @ [if hl_fin h then CHR 0x01 else CHR 0x00] @ be_put 8 (hl_finOffset h)"

definition writeHello :: "writer \<Rightarrow> helloV2 \<Rightarrow> wire_error option \<times> bytes" where
  "writeHello w h = (case writeAll w 0 (hello_bytes h) of (e, out, _) \<Rightarrow> (e, out))"

definition readHello :: "bytes \<Rightarrow> wire_error + helloV2 \<times> bytes" where
  "readHello bs =
     (case read_full 90 bs of
        Inl e \<Rightarrow> Inl e
      | Inr (m, r) \<Rightarrow>
          if take 8 m \<noteq> hello_magic \<or> m ! 8 \<noteq> CHR 0x01 \<and> m ! 8 \<noteq> CHR 0x02 \<or> m ! 81 \<noteq> CHR 0x00 \<and> m ! 81 \<noteq> CHR 0x01
          then Inl ErrProtocol
          else (let h = \<lparr>hl_kind = m ! 8, hl_digest = slice m 9 41, hl_carrier = slice m 41 57,
                         hl_epoch = be_get (slice m 57 65), hl_committed = be_get (slice m 65 73),
                         hl_ack = be_get (slice m 73 81), hl_fin = (m ! 81 = CHR 0x01),
                         hl_finOffset = be_get (slice m 82 90)\<rparr>
                in if zeroID (hl_carrier h) \<or> hl_epoch h = 0 then Inl ErrProtocol else Inr (h, r)))"

section \<open>Reading and writing streams\<close>

lemma writeAll_prefix: "writeAll w k p = (e, out, k') \<Longrightarrow> prefix out p \<and> (e = None \<longrightarrow> out = p)"
proof (induction w k p arbitrary: e out k' rule: writeAll.induct)
  case (1 w k p)
  show ?case
  proof (cases "p = []")
    case True
    with "1.prems" show ?thesis by (simp add: writeAll.simps)
  next
    case False
    obtain n err where w: "w k p = (n, err)" by fastforce
    show ?thesis
    proof (cases "err \<or> n = 0")
      case True
      with "1.prems" False w show ?thesis by (subst (asm) writeAll.simps) (auto simp: take_is_prefix split: if_splits)
    next
      case ok: False
      obtain out1 where r: "writeAll w (Suc k) (drop n p) = (e, out1, k')" "out = take n p @ out1"
        using "1.prems" False w ok by (subst (asm) writeAll.simps) (auto split: prod.splits)
      have "prefix out1 (drop n p) \<and> (e = None \<longrightarrow> out1 = drop n p)"
        using "1.IH"[OF False w[symmetric] _ _ r(1)] ok by simp
      then show ?thesis using r(2) by (metis append_take_drop_id same_prefix_prefix)
    qed
  qed
qed

lemma read_full_append [simp]: "length xs = n \<Longrightarrow> read_full n (xs @ r) = Inr (xs, r)"
  by (simp add: read_full_def)

lemma read_full_Inr: "read_full n bs = Inr (a, r) \<longleftrightarrow> bs = a @ r \<and> length a = n"
  by (auto simp: read_full_def min_def)

lemma be_put_slice: "length bs = n \<Longrightarrow> be_put n (be_get bs) = bs"
  using be_put_get by blast

lemma be_get_bound: "length bs = n \<Longrightarrow> be_get bs < 256 ^ n"
  using be_get_less by blast

section \<open>Binary frames\<close>

definition binary_ok :: "binaryFrame \<Rightarrow> bool" where
  "binary_ok f \<longleftrightarrow>
     known_channel (bf_channel f) \<and> length (bf_data f) \<le> MaxBinaryFrame - binaryHeaderLen \<and>
     bf_start f + length (bf_data f) < u64_size"

definition binary_bytes :: "binaryFrame \<Rightarrow> bytes" where
  "binary_bytes f = binary_header f @ bf_data f"

lemma EndSequence_iff:
  assumes "bf_start f < u64_size"
  shows "EndSequence f = Inr n \<longleftrightarrow> bf_start f + length (bf_data f) < u64_size \<and> n = bf_start f + length (bf_data f)"
proof -
  have "u64_sub u64_max (bf_start f) = u64_max - bf_start f"
    using assms by (intro u64_sub_exact) (simp_all add: u64_max_def)
  then have "u64_sub u64_max (bf_start f) < length (bf_data f) \<longleftrightarrow> \<not> bf_start f + length (bf_data f) < u64_size"
    using assms by (auto simp: u64_max_def)
  then show ?thesis by (auto simp: EndSequence_def u64_add_exact)
qed

lemma ReadBinaryFrame_bytes:
  assumes "binary_ok f"
  shows "ReadBinaryFrame (binary_bytes f @ rest) = Inr (f, rest)"
proof -
  let ?n = "binaryHeaderLen + length (bf_data f)" and ?h = "bf_channel f # be_put 8 (bf_start f)"
  have v: "known_channel (bf_channel f)" "?n \<le> MaxBinaryFrame" "bf_start f + length (bf_data f) < u64_size"
    using assms by (auto simp: binary_ok_def binaryHeaderLen_def MaxBinaryFrame_def)
  have n: "be_get (be_put 4 ?n) = ?n" using v(2) by (intro be_get_put) (simp add: MaxBinaryFrame_def)
  have s: "be_get (be_put 8 (bf_start f)) = bf_start f" using v(3) by (intro be_get_put) (simp add: u64_size_def)
  have f: "\<lparr>bf_channel = ?h ! 0, bf_start = be_get (drop 1 ?h), bf_data = bf_data f\<rparr> = f" using s by simp
  have e: "EndSequence f = Inr (bf_start f + length (bf_data f))" using v(3) by (simp add: EndSequence_iff)
  have b: "binary_bytes f @ rest = be_put 4 ?n @ (?h @ (bf_data f @ rest))" by (simp add: binary_bytes_def binary_header_def)
  have r1: "read_full 4 (be_put 4 ?n @ (?h @ (bf_data f @ rest))) = Inr (be_put 4 ?n, ?h @ (bf_data f @ rest))"
    and r2: "read_full binaryHeaderLen (?h @ (bf_data f @ rest)) = Inr (?h, bf_data f @ rest)"
    and r3: "read_full (length (bf_data f)) (bf_data f @ rest) = Inr (bf_data f, rest)"
    by (intro read_full_append, simp add: binaryHeaderLen_def)+
  show ?thesis unfolding ReadBinaryFrame_def b r1 sum.case prod.case Let_def n r2 add_diff_cancel_left' r3 f e using v by simp
qed

lemma ReadBinaryFrame_exact:
  assumes "ReadBinaryFrame bs = Inr (f, rest)"
  shows "binary_ok f \<and> bs = binary_bytes f @ rest"
proof -
  obtain pre r1 h r2 where r: "read_full 4 bs = Inr (pre, r1)" "read_full binaryHeaderLen r1 = Inr (h, r2)"
      "read_full (be_get pre - binaryHeaderLen) r2 = Inr (bf_data f, rest)"
    and f: "f = \<lparr>bf_channel = h ! 0, bf_start = be_get (drop 1 h), bf_data = bf_data f\<rparr>" "known_channel (h ! 0)"
      "binaryHeaderLen \<le> be_get pre" "be_get pre \<le> MaxBinaryFrame" "\<exists>n. EndSequence f = Inr n"
    using assms by (auto simp: ReadBinaryFrame_def Let_def split: sum.splits prod.splits if_splits)
  have b: "bs = pre @ h @ bf_data f @ rest" "length pre = 4" "length h = 9" "length (bf_data f) = be_get pre - binaryHeaderLen"
    using r by (auto simp: read_full_Inr binaryHeaderLen_def)
  have fs: "bf_channel f = h ! 0" "bf_start f = be_get (drop 1 h)" using f(1) by (metis binaryFrame.select_convs)+
  have h: "h = bf_channel f # be_put 8 (bf_start f)"
    unfolding fs using b(3) be_put_slice[of "drop 1 h" 8] by (cases h) simp_all
  have "pre = be_put 4 (binaryHeaderLen + length (bf_data f))" using be_put_slice[OF b(2)] b(4) f(3) by simp
  moreover have "bf_start f < u64_size"
    using be_get_bound[of "drop 1 h" 8] b(3) unfolding fs by (simp add: u64_size_def)
  moreover have "known_channel (bf_channel f)" using f(2) fs by simp
  ultimately show ?thesis
    using b h f(3-5) by (auto simp: binary_ok_def binary_bytes_def binary_header_def EndSequence_iff)
qed

section \<open>Native streams\<close>

lemma slice_nth: "i < length xs \<Longrightarrow> slice xs i (Suc i) = [xs ! i]"
  by (simp add: slice_def take_Suc hd_drop_conv_nth)

lemma slice_cut: "i \<le> j \<Longrightarrow> j \<le> length xs \<Longrightarrow> drop i xs = slice xs i j @ drop j xs"
  by (metis drop_drop le_add_diff_inverse2 slice_def append_take_drop_id)

definition preface_ok :: "preface \<Rightarrow> bool" where
  "preface_ok p \<longleftrightarrow>
     length (pf_id p) = 16 \<and> \<not> zeroID (pf_id p) \<and> length (pf_token p) \<le> MaxTokenSize \<and>
     validLengths (pf_role p) (length (pf_binding p)) (length (pf_token p))"

lemma preface_header:
  assumes "length h = 26"
  shows "h = take 4 h @ [h ! 4, h ! 5] @ slice h 6 22 @ slice h 22 24 @ slice h 24 26"
proof -
  have "h = take 4 h @ drop 4 h" by simp
  also have "drop 4 h = slice h 4 (Suc 4) @ drop (Suc 4) h" by (rule slice_cut) (use assms in auto)
  also have "drop (Suc 4) h = slice h 5 (Suc 5) @ drop (Suc 5) h" using slice_cut[of 5 "Suc 5" h] assms by simp
  also have "drop (Suc 5) h = slice h 6 22 @ drop 22 h" using slice_cut[of 6 22 h] assms by simp
  also have "drop 22 h = slice h 22 24 @ drop 24 h" by (rule slice_cut) (use assms in auto)
  also have "drop 24 h = slice h 24 26" using slice_to_end[of h 24] assms by simp
  also have "slice h 4 (Suc 4) = [h ! 4]" by (rule slice_nth) (use assms in simp)
  also have "slice h 5 (Suc 5) = [h ! 5]" by (rule slice_nth) (use assms in simp)
  finally show ?thesis by simp
qed

lemma ReadPreface_bytes:
  assumes "preface_ok p"
  shows "ReadPreface (preface_bytes p @ rest) = Inr (p, rest)"
proof -
  let ?b = "length (pf_binding p)" and ?t = "length (pf_token p)"
  let ?h = "Magic @ [CHR 0x01, pf_role p] @ pf_id p @ be_put 2 ?b @ be_put 2 ?t"
  have v: "length (pf_id p) = 16" "\<not> zeroID (pf_id p)" "?t \<le> MaxTokenSize" "validLengths (pf_role p) ?b ?t"
    using assms by (auto simp: preface_ok_def)
  have g: "be_get (be_put 2 ?b) = ?b" "be_get (be_put 2 ?t) = ?t"
    using v(3,4) by (auto simp: validLengths_def MaxTokenSize_def intro!: be_get_put)
  have h: "take 4 ?h = Magic" "?h ! 4 = CHR 0x01" "?h ! 5 = pf_role p" "slice ?h 6 22 = pf_id p"
    "slice ?h 22 24 = be_put 2 ?b" "slice ?h 24 26 = be_put 2 ?t" "length ?h = 26"
    using v(1) by (simp_all add: Magic_def slice_def)
  have b: "preface_bytes p @ rest = ?h @ (pf_binding p @ (pf_token p @ rest))" by (simp add: preface_bytes_def)
  have r: "read_full 26 (?h @ (pf_binding p @ (pf_token p @ rest))) = Inr (?h, pf_binding p @ (pf_token p @ rest))"
    by (rule read_full_append[OF h(7)])
  show ?thesis unfolding ReadPreface_def b r sum.case prod.case h Let_def g using v by simp
qed

lemma ReadPreface_exact:
  assumes "ReadPreface bs = Inr (p, rest)"
  shows "preface_ok p \<and> bs = preface_bytes p @ rest"
proof -
  obtain h r1 r2 where r: "read_full 26 bs = Inr (h, r1)" "read_full (be_get (slice h 22 24)) r1 = Inr (pf_binding p, r2)"
      "read_full (be_get (slice h 24 26)) r2 = Inr (pf_token p, rest)"
    and c: "take 4 h = Magic" "h ! 4 = CHR 0x01" "\<not> zeroID (slice h 6 22)" "be_get (slice h 24 26) \<le> MaxTokenSize"
      "validLengths (h ! 5) (be_get (slice h 22 24)) (be_get (slice h 24 26))"
    and p: "pf_role p = h ! 5" "pf_id p = slice h 6 22"
    using assms by (auto simp: ReadPreface_def Let_def split: sum.splits prod.splits if_splits)
  have b: "bs = h @ pf_binding p @ pf_token p @ rest" "length h = 26" "length (pf_binding p) = be_get (slice h 22 24)"
    "length (pf_token p) = be_get (slice h 24 26)"
    using r by (auto simp: read_full_Inr)
  have s: "be_put 2 (be_get (slice h 22 24)) = slice h 22 24" "be_put 2 (be_get (slice h 24 26)) = slice h 24 26"
    using b(2) by (auto intro!: be_put_slice simp: slice_def)
  have "h = Magic @ [CHR 0x01, pf_role p] @ pf_id p @ be_put 2 (length (pf_binding p)) @ be_put 2 (length (pf_token p))"
    using preface_header[OF b(2)] c(1,2) p b(3,4) s by simp
  moreover have "length (pf_id p) = 16" using b(2) p(2) by (simp add: slice_def)
  ultimately show ?thesis using b(1,3,4) c p by (simp add: preface_ok_def preface_bytes_def)
qed

definition record_ok :: "bool \<Rightarrow> byte \<times> bytes \<Rightarrow> bool" where
  "record_ok typed r \<longleftrightarrow>
     snd r \<noteq> [] \<and> length (snd r) \<le> MaxRecordSize \<and> (if typed then record_kind (fst r) else fst r = CHR 0x02)"

lemma ReadRecord_bytes:
  assumes "record_ok typed r"
  shows "ReadRecord typed (record_bytes typed r @ rest) = Inr (r, rest)"
proof -
  have v: "snd r \<noteq> []" "length (snd r) \<le> MaxRecordSize" using assms by (auto simp: record_ok_def)
  have g: "be_get (be_put 4 (length (snd r))) = length (snd r)" using v(2) by (intro be_get_put) (simp add: MaxRecordSize_def)
  show ?thesis
    using assms v g read_full_append[of "[fst r] @ be_put 4 (length (snd r))" 5 "snd r @ rest"]
    by (cases r; cases typed) (simp_all add: ReadRecord_def record_bytes_def record_ok_def Let_def)
qed

lemma ReadRecord_exact:
  assumes "ReadRecord typed bs = Inr (r, rest)"
  shows "record_ok typed r \<and> bs = record_bytes typed r @ rest"
proof -
  let ?k = "if typed then 5 else 4" and ?o = "if typed then 1 else 0"
  obtain h r1 where rd: "read_full ?k bs = Inr (h, r1)" "read_full (be_get (drop ?o h)) r1 = Inr (snd r, rest)"
    and c: "typed \<longrightarrow> record_kind (h ! 0)" "be_get (drop ?o h) \<noteq> 0" "be_get (drop ?o h) \<le> MaxRecordSize"
      "fst r = (if typed then h ! 0 else CHR 0x02)"
    using assms by (auto simp: ReadRecord_def Let_def split: sum.splits prod.splits if_splits)
  have b: "bs = h @ snd r @ rest" "length h = ?k" "length (snd r) = be_get (drop ?o h)" using rd by (auto simp: read_full_Inr)
  have "be_put 4 (length (snd r)) = drop ?o h" using b(2,3) be_put_slice[of "drop ?o h" 4] by simp
  then have "h = (if typed then [fst r] else []) @ be_put 4 (length (snd r))" using b(2) c(4) by (cases h) auto
  then show ?thesis using b c by (auto simp: record_ok_def record_bytes_def)
qed

section \<open>The greeting\<close>

definition hello_ok :: "helloV2 \<Rightarrow> bool" where
  "hello_ok h \<longleftrightarrow>
     (hl_kind h = CHR 0x01 \<or> hl_kind h = CHR 0x02) \<and> length (hl_digest h) = 32 \<and> length (hl_carrier h) = 16 \<and>
     \<not> zeroID (hl_carrier h) \<and> hl_epoch h \<noteq> 0 \<and> hl_epoch h < u64_size \<and> hl_committed h < u64_size \<and>
     hl_ack h < u64_size \<and> hl_finOffset h < u64_size"

lemma hello_layout:
  assumes "length m = 90"
  shows "m = take 8 m @ [m ! 8] @ slice m 9 41 @ slice m 41 57 @ slice m 57 65 @ slice m 65 73 @ slice m 73 81 @ [m ! 81] @ slice m 82 90"
proof -
  have "m = take 8 m @ drop 8 m" by simp
  also have "drop 8 m = slice m 8 (Suc 8) @ drop (Suc 8) m" by (rule slice_cut) (use assms in auto)
  also have "drop (Suc 8) m = slice m 9 41 @ drop 41 m" using slice_cut[of 9 41 m] assms by simp
  also have "drop 41 m = slice m 41 57 @ drop 57 m" by (rule slice_cut) (use assms in auto)
  also have "drop 57 m = slice m 57 65 @ drop 65 m" by (rule slice_cut) (use assms in auto)
  also have "drop 65 m = slice m 65 73 @ drop 73 m" by (rule slice_cut) (use assms in auto)
  also have "drop 73 m = slice m 73 81 @ drop 81 m" by (rule slice_cut) (use assms in auto)
  also have "drop 81 m = slice m 81 (Suc 81) @ drop (Suc 81) m" by (rule slice_cut) (use assms in auto)
  also have "drop (Suc 81) m = slice m 82 90" using slice_to_end[of m 82] assms by simp
  also have "slice m 8 (Suc 8) = [m ! 8]" by (rule slice_nth) (use assms in simp)
  also have "slice m 81 (Suc 81) = [m ! 81]" by (rule slice_nth) (use assms in simp)
  finally show ?thesis by simp
qed

lemma readHello_bytes:
  assumes "hello_ok h"
  shows "readHello (hello_bytes h @ rest) = Inr (h, rest)"
proof -
  let ?m = "hello_bytes h"
  have v: "length (hl_digest h) = 32" "length (hl_carrier h) = 16" using assms by (auto simp: hello_ok_def)
  have n: "length ?m = 90" using v by (simp add: hello_bytes_def hello_magic_def)
  have g: "v < u64_size \<Longrightarrow> be_get (be_put 8 v) = v" for v by (rule be_get_put) (simp add: u64_size_def)
  have f: "take 8 ?m = hello_magic" "?m ! 8 = hl_kind h" "slice ?m 9 41 = hl_digest h" "slice ?m 41 57 = hl_carrier h"
    "slice ?m 57 65 = be_put 8 (hl_epoch h)" "slice ?m 65 73 = be_put 8 (hl_committed h)" "slice ?m 73 81 = be_put 8 (hl_ack h)"
    "?m ! 81 = (if hl_fin h then CHR 0x01 else CHR 0x00)" "slice ?m 82 90 = be_put 8 (hl_finOffset h)"
    using v by (simp_all add: hello_bytes_def hello_magic_def slice_def nth_append)
  show ?thesis unfolding readHello_def read_full_append[OF n] sum.case prod.case f Let_def
    using assms g by (simp add: hello_ok_def)
qed

lemma readHello_exact:
  assumes "readHello bs = Inr (h, rest)"
  shows "hello_ok h \<and> bs = hello_bytes h @ rest"
proof -
  obtain m where r: "read_full 90 bs = Inr (m, rest)"
    and c: "take 8 m = hello_magic" "m ! 8 = CHR 0x01 \<or> m ! 8 = CHR 0x02" "m ! 81 = CHR 0x00 \<or> m ! 81 = CHR 0x01"
    and h: "h = \<lparr>hl_kind = m ! 8, hl_digest = slice m 9 41, hl_carrier = slice m 41 57,
       hl_epoch = be_get (slice m 57 65), hl_committed = be_get (slice m 65 73), hl_ack = be_get (slice m 73 81),
       hl_fin = (m ! 81 = CHR 0x01), hl_finOffset = be_get (slice m 82 90)\<rparr>" "\<not> zeroID (hl_carrier h)" "hl_epoch h \<noteq> 0"
    using assms by (auto simp: readHello_def Let_def split: sum.splits prod.splits if_splits)
  have b: "bs = m @ rest" "length m = 90" using r by (auto simp: read_full_Inr)
  have p: "be_put 8 (be_get (slice m i (i + 8))) = slice m i (i + 8)" "be_get (slice m i (i + 8)) < u64_size" if "i + 8 \<le> 90" for i
    using b(2) that be_put_slice[of "slice m i (i + 8)" 8] be_get_bound[of "slice m i (i + 8)" 8] by (simp_all add: u64_size_def)
  have "m = hello_bytes h"
    using hello_layout[OF b(2)] c p(1)[of 57] p(1)[of 65] p(1)[of 73] p(1)[of 82] by (auto simp: hello_bytes_def h(1))
  moreover have "hello_ok h"
    using c(2) h(2,3) p(2)[of 57] p(2)[of 65] p(2)[of 73] p(2)[of 82] b(2) by (simp add: hello_ok_def h(1))
  ultimately show ?thesis using b(1) by simp
qed

section \<open>The formats as codecs\<close>

definition ok_of :: "wire_error + 'a \<Rightarrow> 'a option" where
  "ok_of r = (case r of Inl _ \<Rightarrow> None | Inr x \<Rightarrow> Some x)"

lemma ok_of_simps [simp]: "ok_of (Inl e) = None" "ok_of (Inr x) = Some x" "ok_of r = Some x \<longleftrightarrow> r = Inr x" "ok_of r = None \<longleftrightarrow> (\<exists>e. r = Inl e)"
  by (auto simp: ok_of_def split: sum.splits)

interpretation binary_stream: codec binary_bytes "\<lambda>bs. ok_of (ReadBinaryFrame bs)" binary_ok
  by unfold_locales (simp_all add: ReadBinaryFrame_bytes ReadBinaryFrame_exact)

interpretation preface_stream: codec preface_bytes "\<lambda>bs. ok_of (ReadPreface bs)" preface_ok
  by unfold_locales (simp_all add: ReadPreface_bytes ReadPreface_exact)

interpretation record_stream: codec "record_bytes typed" "\<lambda>bs. ok_of (ReadRecord typed bs)" "record_ok typed" for typed
  by unfold_locales (simp_all add: ReadRecord_bytes ReadRecord_exact)

interpretation hello_stream: codec hello_bytes "\<lambda>bs. ok_of (readHello bs)" hello_ok
  by unfold_locales (simp_all add: readHello_bytes readHello_exact)

section \<open>Writers\<close>

definition sink :: writer where
  "sink k p = (length p, False)"

lemma writeAll_sink: "writeAll sink k p = (None, p, if p = [] then k else Suc k)"
  by (simp add: writeAll.simps sink_def)

lemma WriteBinaryFrame_out:
  assumes "bf_start f < u64_size" and "WriteBinaryFrame w f = (e, out)"
  shows "prefix out (binary_bytes f) \<and> (e = None \<longrightarrow> binary_ok f \<and> out = binary_bytes f) \<and> (\<not> binary_ok f \<longrightarrow> out = [])"
proof (cases "binary_ok f")
  case False
  then show ?thesis
    using assms EndSequence_iff[OF assms(1)]
    by (auto simp: WriteBinaryFrame_def binary_ok_def not_less split: if_splits sum.splits prod.splits option.splits)
next
  case True
  have e: "EndSequence f = Inr (bf_start f + length (bf_data f))" using True by (simp add: binary_ok_def EndSequence_iff)
  obtain e1 out1 k where 1: "writeAll w 0 (binary_header f) = (e1, out1, k)" by (metis prod_cases3)
  obtain e2 out2 k' where 2: "writeAll w k (bf_data f) = (e2, out2, k')" by (metis prod_cases3)
  have "WriteBinaryFrame w f = (case e1 of None \<Rightarrow> (e2, out1 @ out2) | Some e \<Rightarrow> (Some e, out1))"
    using True e 1 2
    by (auto simp: WriteBinaryFrame_def binary_ok_def not_le split: option.splits sum.splits)
  then show ?thesis
    using assms(2) True writeAll_prefix[OF 1] writeAll_prefix[OF 2]
    by (auto simp: binary_bytes_def prefix_append split: option.splits)
qed

lemma WriteBinaryFrame_sink: "binary_ok f \<Longrightarrow> WriteBinaryFrame sink f = (None, binary_bytes f)"
  using EndSequence_iff[of f "bf_start f + length (bf_data f)"]
  by (simp add: WriteBinaryFrame_def binary_ok_def writeAll_sink binary_bytes_def)

lemma WritePreface_out:
  assumes "length (pf_id p) = 16" and "WritePreface w p = (e, out)"
  shows "prefix out (preface_bytes p) \<and> (e = None \<longrightarrow> preface_ok p \<and> out = preface_bytes p) \<and> (\<not> preface_ok p \<longrightarrow> out = [])"
  using assms writeAll_prefix[of w 0 "preface_bytes p"]
  by (auto simp: WritePreface_def preface_ok_def not_less split: if_splits prod.splits)

lemma WritePreface_sink: "preface_ok p \<Longrightarrow> WritePreface sink p = (None, preface_bytes p)"
  by (auto simp: WritePreface_def preface_ok_def writeAll_sink)

lemma WriteRecord_out:
  assumes "typed \<or> kind = CHR 0x02" and "WriteRecord w kind payload typed = (e, out)"
  shows "prefix out (record_bytes typed (kind, payload)) \<and>
     (e = None \<longrightarrow> record_ok typed (kind, payload) \<and> out = record_bytes typed (kind, payload)) \<and>
     (\<not> record_ok typed (kind, payload) \<longrightarrow> out = [])"
  using assms writeAll_prefix[of w 0 "record_bytes typed (kind, payload)"]
  by (auto simp: WriteRecord_def record_ok_def not_less split: if_splits prod.splits)

lemma WriteRecord_sink: "record_ok typed (kind, payload) \<Longrightarrow> WriteRecord sink kind payload typed = (None, record_bytes typed (kind, payload))"
  by (auto simp: WriteRecord_def record_ok_def writeAll_sink split: if_splits)

lemma writeHello_out: "writeHello w h = (e, out) \<Longrightarrow> prefix out (hello_bytes h) \<and> (e = None \<longrightarrow> out = hello_bytes h)"
  using writeAll_prefix[of w 0 "hello_bytes h"] by (auto simp: writeHello_def split: prod.splits)

lemma writeHello_sink: "writeHello sink h = (None, hello_bytes h)"
  by (simp add: writeHello_def writeAll_sink hello_bytes_def hello_magic_def)

lemma ReadBinaryFrame_Nil [simp]: "ReadBinaryFrame [] = Inl EOF" "ReadPreface [] = Inl EOF" "ReadRecord typed [] = Inl EOF"
  by (simp_all add: ReadBinaryFrame_def ReadPreface_def ReadRecord_def read_full_def)

section \<open>Properties\<close>


text \<open>
  C14. A torn write is noticed. Whatever the connection does with the calls that write a frame,
  the peer reads the frame itself or gets an error, never a different frame.
\<close>

theorem torn_write_detected:
  assumes "bf_start f < u64_size" and "length (pf_id p) = 16" and "hello_ok h"
  shows "ok_of (ReadBinaryFrame (snd (WriteBinaryFrame w f))) \<in> {None, Some (f, [])} \<and>
     ok_of (ReadPreface (snd (WritePreface w p))) \<in> {None, Some (p, [])} \<and>
     ok_of (ReadRecord True (snd (WriteRecord w k d True))) \<in> {None, Some ((k, d), [])} \<and>
     ok_of (readHello (snd (writeHello w h))) \<in> {None, Some (h, [])}"
proof (intro conjI)
  have part: "ok_of (ReadBinaryFrame out) \<in> {None, Some (f, [])}" if "prefix out (binary_bytes f)" "binary_ok f" for out
    using binary_stream.torn[OF that(2,1)] binary_stream.decode_encode[OF that(2), of "[]"] by auto
  then show "ok_of (ReadBinaryFrame (snd (WriteBinaryFrame w f))) \<in> {None, Some (f, [])}"
    using WriteBinaryFrame_out[OF assms(1), of w] by (cases "binary_ok f"; cases "WriteBinaryFrame w f") auto
  have part: "ok_of (ReadPreface out) \<in> {None, Some (p, [])}" if "prefix out (preface_bytes p)" "preface_ok p" for out
    using preface_stream.torn[OF that(2,1)] preface_stream.decode_encode[OF that(2), of "[]"] by auto
  then show "ok_of (ReadPreface (snd (WritePreface w p))) \<in> {None, Some (p, [])}"
    using WritePreface_out[OF assms(2), of w] by (cases "preface_ok p"; cases "WritePreface w p") auto
  have part: "ok_of (ReadRecord True out) \<in> {None, Some ((k, d), [])}" if "prefix out (record_bytes True (k, d))" "record_ok True (k, d)" for out
    using record_stream.torn[OF that(2,1)] record_stream.decode_encode[OF that(2), of "[]"] by auto
  then show "ok_of (ReadRecord True (snd (WriteRecord w k d True))) \<in> {None, Some ((k, d), [])}"
    using WriteRecord_out[of True k w d] by (cases "record_ok True (k, d)"; cases "WriteRecord w k d True") auto
  show "ok_of (readHello (snd (writeHello w h))) \<in> {None, Some (h, [])}"
    using hello_stream.torn[OF assms(3), of "snd (writeHello w h)"] hello_stream.decode_encode[OF assms(3), of "[]"] writeHello_out[of w h]
    by (cases "writeHello w h") auto
qed

theorem torn_write_detected_witness:
  "ok_of (ReadBinaryFrame (snd (WriteBinaryFrame (\<lambda>k p. (k, k = 1)) \<lparr>bf_channel = CHR 0x01, bf_start = 7, bf_data = ''hi''\<rparr>)))
     \<in> {None, Some (\<lparr>bf_channel = CHR 0x01, bf_start = 7, bf_data = ''hi''\<rparr>, [])}"
proof -
  let ?h = "\<lparr>hl_kind = CHR 0x01, hl_digest = replicate 32 (CHR 0x05), hl_carrier = replicate 16 (CHR 0x09), hl_epoch = 1, hl_committed = 0,
     hl_ack = 0, hl_fin = False, hl_finOffset = 0\<rparr>"
  have "bf_start \<lparr>bf_channel = CHR 0x01, bf_start = 7, bf_data = ''hi''\<rparr> < u64_size"
    "length (pf_id \<lparr>pf_role = CHR 0x01, pf_id = replicate 16 (CHR 0x09), pf_binding = [], pf_token = ''t''\<rparr>) = 16" "hello_ok ?h"
    by (simp_all add: u64_size_def hello_ok_def zeroID_def replicate_eq_replicate)
  from torn_write_detected[OF this] show ?thesis by blast
qed

end
