(* ===== verification/Terminal_Wire.thy ===== *)
theory Terminal_Wire
  imports Wire_Codec
begin

text \<open>
  The messages of the terminal protocol, \<^verbatim>\<open>internal/hostruntime/protocol/terminal_v1.go\<close>: input,
  output, acknowledgement, resize and end of input, one binary message each. Output is sent raw or
  compressed. The compression library is a parameter: \<open>enc\<close> compresses (\<^const>\<open>None\<close> when no encoder
  can be made), \<open>hdr\<close> reads the header of a compressed frame and \<open>dec\<close> decompresses. The encoders
  fill a buffer of the right size that the caller may supply; its old contents never show, so
  \<^verbatim>\<open>growFrame\<close> leaves no trace here. Counters and timings are left out.
\<close>

section \<open>Frames\<close>

record terminalInput =
  ti_stream :: nat
  ti_sequence :: nat
  ti_data :: bytes

record terminalOutput =
  to_channel :: byte
  to_stream :: nat
  to_start :: nat
  to_encoding :: byte
  to_length :: nat
  to_data :: bytes

record outputInfo =
  oi_encoding :: byte
  oi_stream :: nat
  oi_start :: nat
  oi_length :: nat

record terminalACK =
  ta_stream :: nat
  ta_next :: nat

record terminalResize =
  tr_stream :: nat
  tr_columns :: nat
  tr_rows :: nat
  tr_sequence :: nat

record terminalEOF =
  te_stream :: nat
  te_sequence :: nat

abbreviation u32_size :: nat where
  "u32_size \<equiv> 2 ^ 32"

definition MaxTerminalOutputBytes :: nat where
  "MaxTerminalOutputBytes = MaxBinaryFrame - 19"

section \<open>Input\<close>

definition EncodeTerminalInput :: "terminalInput \<Rightarrow> code + bytes" where
  "EncodeTerminalInput f =
     (if ti_stream f = 0 \<or> ti_sequence f = 0 \<or> ti_data f = [] \<or> MaxBinaryFrame - 13 < length (ti_data f)
      then Inl InvalidFrame
      else Inr (CHR 0x01 # be_put 4 (ti_stream f) @ be_put 8 (ti_sequence f) @ ti_data f))"

definition DecodeTerminalInput :: "bytes \<Rightarrow> code + terminalInput" where
  "DecodeTerminalInput m =
     (if length m \<le> 13 \<or> MaxBinaryFrame < length m \<or> m ! 0 \<noteq> CHR 0x01 then Inl InvalidFrame
      else let f = \<lparr>ti_stream = be_get (slice m 1 5), ti_sequence = be_get (slice m 5 13), ti_data = drop 13 m\<rparr>
           in if ti_stream f = 0 \<or> ti_sequence f = 0 then Inl InvalidFrame else Inr f)"

section \<open>Output\<close>

text \<open>The fields of the library's frame header that the code reads.\<close>

record zstdHeader =
  zh_size :: nat
  zh_skippable :: bool
  zh_dictionary :: nat
  zh_hasFCS :: bool
  zh_contentSize :: nat
  zh_single :: bool
  zh_window :: nat
  zh_checksum :: bool

definition block_header :: "bytes \<Rightarrow> nat \<Rightarrow> nat" where
  "block_header payload offset =
     of_char (payload ! offset) + 256 * of_char (payload ! (offset + 1)) + 65536 * of_char (payload ! (offset + 2))"

function zstd_blocks :: "bytes \<Rightarrow> bool \<Rightarrow> nat \<Rightarrow> nat option" where
  "zstd_blocks payload checksum offset =
     (if length payload < offset + 3 then None
      else let block = block_header payload offset;
               blockType = block div 2 mod 4;
               payloadSize = (if blockType = 1 then 1 else block div 8)
           in if blockType = 3 then None
              else if length payload < offset + 3 + payloadSize then None
              else if odd block
              then (if checksum
                    then (if length payload < offset + 3 + payloadSize + 4 then None else Some (offset + 3 + payloadSize + 4))
                    else Some (offset + 3 + payloadSize))
              else zstd_blocks payload checksum (offset + 3 + payloadSize))"
  by pat_completeness auto
termination
  by (relation "measure (\<lambda>(payload, checksum, offset). length payload - offset)") auto

declare zstd_blocks.simps [simp del]

definition zstdFrameSize :: "bytes \<Rightarrow> zstdHeader \<Rightarrow> nat option" where
  "zstdFrameSize payload h = zstd_blocks payload (zh_checksum h) (zh_size h)"

definition header_ok :: "nat \<Rightarrow> zstdHeader \<Rightarrow> bool" where
  "header_ok declared h \<longleftrightarrow>
     \<not> zh_skippable h \<and> zh_dictionary h = 0 \<and> zh_hasFCS h \<and> zh_contentSize h = declared \<and>
     (zh_single h \<or> zh_window h \<le> MaxTerminalOutputBytes)"

definition one_frame :: "(bytes \<Rightarrow> zstdHeader option) \<Rightarrow> bytes \<Rightarrow> nat \<Rightarrow> bool" where
  "one_frame hdr payload declared \<longleftrightarrow>
     (case hdr payload of
        None \<Rightarrow> False
      | Some h \<Rightarrow> header_ok declared h \<and> zstdFrameSize payload h = Some (length payload))"

definition InspectTerminalOutput :: "(bytes \<Rightarrow> zstdHeader option) \<Rightarrow> bytes \<Rightarrow> code + outputInfo" where
  "InspectTerminalOutput hdr m =
     (if length m \<le> 19 \<or> MaxBinaryFrame < length m \<or> m ! 0 \<noteq> CHR 0x02 \<or>
         m ! 1 \<noteq> CHR 0x01 \<and> m ! 1 \<noteq> CHR 0x02 \<or> m ! 2 \<noteq> CHR 0x00 \<and> m ! 2 \<noteq> CHR 0x01
      then Inl InvalidFrame
      else let i = \<lparr>oi_encoding = m ! 2, oi_stream = be_get (slice m 3 7), oi_start = be_get (slice m 7 15),
                    oi_length = be_get (slice m 15 19)\<rparr>
           in if oi_stream i = 0 \<or> oi_length i = 0 \<or> MaxTerminalOutputBytes < oi_length i \<or>
                 u64_sub u64_max (oi_start i) < oi_length i
              then Inl InvalidFrame
              else if oi_encoding i = CHR 0x00
              then (if length (drop 19 m) \<noteq> oi_length i then Inl InvalidFrame else Inr i)
              else if one_frame hdr (drop 19 m) (oi_length i) then Inr i else Inl InvalidFrame)"

definition EncodeTerminalOutput :: "terminalOutput \<Rightarrow> code + bytes" where
  "EncodeTerminalOutput f =
     (let declared = (if to_length f = 0 \<and> to_encoding f = CHR 0x00 then length (to_data f) mod u32_size else to_length f)
      in if to_channel f \<noteq> CHR 0x01 \<and> to_channel f \<noteq> CHR 0x02 \<or> to_stream f = 0 \<or> to_data f = [] \<or>
            MaxTerminalOutputBytes < length (to_data f) \<or> declared = 0 \<or> MaxTerminalOutputBytes < declared \<or>
            u64_sub u64_max (to_start f) < declared
         then Inl InvalidFrame
         else if to_encoding f \<noteq> CHR 0x00 \<and> to_encoding f \<noteq> CHR 0x01 then Inl InvalidFrame
         else if to_encoding f = CHR 0x00 \<and> declared \<noteq> length (to_data f) then Inl InvalidFrame
         else Inr (CHR 0x02 # to_channel f # to_encoding f # be_put 4 (to_stream f) @ be_put 8 (to_start f) @
                   be_put 4 declared @ to_data f))"

definition zstdDecode :: "(bytes \<Rightarrow> zstdHeader option) \<Rightarrow> (bytes \<Rightarrow> bytes option) \<Rightarrow> bytes \<Rightarrow> nat \<Rightarrow> bytes option" where
  "zstdDecode hdr dec payload declared =
     (if \<not> one_frame hdr payload declared then None
      else case dec payload of
        None \<Rightarrow> None
      | Some out \<Rightarrow> if length out \<noteq> declared then None else Some out)"

definition DecodeTerminalOutput ::
  "(bytes \<Rightarrow> zstdHeader option) \<Rightarrow> (bytes \<Rightarrow> bytes option) \<Rightarrow> bytes \<Rightarrow> code + terminalOutput" where
  "DecodeTerminalOutput hdr dec m =
     (case InspectTerminalOutput hdr m of
        Inl e \<Rightarrow> Inl e
      | Inr i \<Rightarrow>
          (case (if oi_encoding i = CHR 0x00 then Some (drop 19 m) else zstdDecode hdr dec (drop 19 m) (oi_length i)) of
             None \<Rightarrow> Inl InvalidFrame
           | Some decoded \<Rightarrow>
               if length decoded \<noteq> oi_length i then Inl InvalidFrame
               else Inr \<lparr>to_channel = m ! 1, to_stream = oi_stream i, to_start = oi_start i, to_encoding = oi_encoding i,
                         to_length = oi_length i, to_data = decoded\<rparr>))"

definition saves :: "bytes \<Rightarrow> bytes \<Rightarrow> bool" where
  "saves compressed data \<longleftrightarrow>
     length compressed + 32 \<le> length data \<and> length compressed * 100 \<le> length data * (100 - 5)"

definition EncodeTerminalOutputAdaptive :: "(bytes \<Rightarrow> bytes option) \<Rightarrow> terminalOutput \<Rightarrow> code + bytes" where
  "EncodeTerminalOutputAdaptive enc f0 =
     (let f = f0\<lparr>to_encoding := CHR 0x00, to_length := length (to_data f0) mod u32_size\<rparr>
      in if 1024 \<le> length (to_data f)
         then (case enc (to_data f) of
                 None \<Rightarrow> Inl InvalidFrame
               | Some compressed \<Rightarrow>
                   EncodeTerminalOutput (if saves compressed (to_data f)
                     then f\<lparr>to_encoding := CHR 0x01, to_data := compressed\<rparr> else f))
         else EncodeTerminalOutput f)"

section \<open>Control messages\<close>

definition EncodeTerminalACK :: "terminalACK \<Rightarrow> code + bytes" where
  "EncodeTerminalACK f =
     (if ta_stream f = 0 then Inl InvalidFrame else Inr (CHR 0x03 # be_put 4 (ta_stream f) @ be_put 8 (ta_next f)))"

definition DecodeTerminalACK :: "bytes \<Rightarrow> code + terminalACK" where
  "DecodeTerminalACK m =
     (if length m \<noteq> 13 \<or> m ! 0 \<noteq> CHR 0x03 then Inl InvalidFrame
      else let f = \<lparr>ta_stream = be_get (slice m 1 5), ta_next = be_get (slice m 5 13)\<rparr>
           in if ta_stream f = 0 then Inl InvalidFrame else Inr f)"

definition EncodeTerminalResize :: "terminalResize \<Rightarrow> code + bytes" where
  "EncodeTerminalResize f =
     (if tr_stream f = 0 \<or> tr_columns f = 0 \<or> tr_rows f = 0 \<or> tr_sequence f = 0 then Inl InvalidFrame
      else Inr (CHR 0x04 # be_put 4 (tr_stream f) @ be_put 2 (tr_columns f) @ be_put 2 (tr_rows f) @ be_put 8 (tr_sequence f)))"

definition DecodeTerminalResize :: "bytes \<Rightarrow> code + terminalResize" where
  "DecodeTerminalResize m =
     (if length m \<noteq> 17 \<or> m ! 0 \<noteq> CHR 0x04 then Inl InvalidFrame
      else let f = \<lparr>tr_stream = be_get (slice m 1 5), tr_columns = be_get (slice m 5 7), tr_rows = be_get (slice m 7 9),
                    tr_sequence = be_get (slice m 9 17)\<rparr>
           in if tr_stream f = 0 \<or> tr_columns f = 0 \<or> tr_rows f = 0 \<or> tr_sequence f = 0 then Inl InvalidFrame else Inr f)"

definition EncodeTerminalEOF :: "terminalEOF \<Rightarrow> code + bytes" where
  "EncodeTerminalEOF f =
     (if te_stream f = 0 \<or> te_sequence f = 0 then Inl InvalidFrame
      else Inr (CHR 0x05 # be_put 4 (te_stream f) @ be_put 8 (te_sequence f)))"

definition DecodeTerminalEOF :: "bytes \<Rightarrow> code + terminalEOF" where
  "DecodeTerminalEOF m =
     (if length m \<noteq> 13 \<or> m ! 0 \<noteq> CHR 0x05 then Inl InvalidFrame
      else let f = \<lparr>te_stream = be_get (slice m 1 5), te_sequence = be_get (slice m 5 13)\<rparr>
           in if te_stream f = 0 \<or> te_sequence f = 0 then Inl InvalidFrame else Inr f)"

definition TerminalOpcode :: "bytes \<Rightarrow> code + byte" where
  "TerminalOpcode m =
     (if m = [] then Inl InvalidFrame
      else if (of_char (m ! 0) :: nat) < 1 \<or> 5 < (of_char (m ! 0) :: nat) then Inl UnsupportedChannel
      else Inr (m ! 0))"

section \<open>Layouts\<close>

lemma head_rest: "m \<noteq> [] \<Longrightarrow> m = m ! 0 # drop 1 m"
  by (cases m) simp_all

lemma layout13: "13 \<le> length m \<Longrightarrow> m = m ! 0 # slice m 1 5 @ slice m 5 13 @ drop 13 m"
  using head_rest[of m] slice_cut[of 1 5 m] slice_cut[of 5 13 m] by (cases "m = []") auto

lemma layout17: "17 \<le> length m \<Longrightarrow> m = m ! 0 # slice m 1 5 @ slice m 5 7 @ slice m 7 9 @ slice m 9 17 @ drop 17 m"
  using head_rest[of m] slice_cut[of 1 5 m] slice_cut[of 5 7 m] slice_cut[of 7 9 m] slice_cut[of 9 17 m] by (cases "m = []") auto

lemma layout19:
  assumes "19 \<le> length m"
  shows "m = m ! 0 # m ! 1 # m ! 2 # slice m 3 7 @ slice m 7 15 @ slice m 15 19 @ drop 19 m"
proof -
  have "m = m ! 0 # drop 1 m" using assms by (intro head_rest) auto
  also have "drop 1 m = m ! 1 # drop 2 m" using assms Cons_nth_drop_Suc[of 1 m] by (simp add: numeral_2_eq_2)
  also have "drop 2 m = m ! 2 # drop 3 m" using assms Cons_nth_drop_Suc[of 2 m] by (simp add: numeral_3_eq_3)
  also have "drop 3 m = slice m 3 7 @ drop 7 m" by (rule slice_cut) (use assms in auto)
  also have "drop 7 m = slice m 7 15 @ drop 15 m" by (rule slice_cut) (use assms in auto)
  also have "drop 15 m = slice m 15 19 @ drop 19 m" by (rule slice_cut) (use assms in auto)
  finally show ?thesis .
qed

lemma be_field:
  assumes "i + n \<le> length m"
  shows "be_put n (be_get (slice m i (i + n))) = slice m i (i + n)" and "be_get (slice m i (i + n)) < 256 ^ n"
  using assms by (auto intro!: be_put_slice be_get_bound)

lemma widths: "(256 :: nat) ^ 2 = 2 ^ 16" "(256 :: nat) ^ 4 = 2 ^ 32" "(256 :: nat) ^ 8 = u64_size"
  by (simp_all add: u64_size_def)

lemma be_get_fields:
  "v < 2 ^ 16 \<Longrightarrow> be_get (be_put 2 v) = v" "v < u32_size \<Longrightarrow> be_get (be_put 4 v) = v" "v < u64_size \<Longrightarrow> be_get (be_put 8 v) = v"
  by (rule be_get_put; simp only: widths)+

section \<open>Round trips\<close>

lemma ack_roundtrip: "DecodeTerminalACK m = Inr f \<longleftrightarrow> ta_stream f < u32_size \<and> ta_next f < u64_size \<and> EncodeTerminalACK f = Inr m"
proof
  assume d: "DecodeTerminalACK m = Inr f"
  then have m: "length m = 13" "m ! 0 = CHR 0x03" "f = \<lparr>ta_stream = be_get (slice m 1 5), ta_next = be_get (slice m 5 13)\<rparr>" "ta_stream f \<noteq> 0"
    by (auto simp: DecodeTerminalACK_def Let_def split: if_splits)
  show "ta_stream f < u32_size \<and> ta_next f < u64_size \<and> EncodeTerminalACK f = Inr m"
    using m layout13[of m] be_field[of 1 4 m] be_field[of 5 8 m] by (simp add: EncodeTerminalACK_def u64_size_def)
next
  assume "ta_stream f < u32_size \<and> ta_next f < u64_size \<and> EncodeTerminalACK f = Inr m"
  then show "DecodeTerminalACK m = Inr f"
    using be_get_fields(2)[of "ta_stream f"] be_get_fields(3)[of "ta_next f"]
    by (auto simp: EncodeTerminalACK_def DecodeTerminalACK_def slice_def Let_def split: if_splits)
qed

lemma eof_roundtrip: "DecodeTerminalEOF m = Inr f \<longleftrightarrow> te_stream f < u32_size \<and> te_sequence f < u64_size \<and> EncodeTerminalEOF f = Inr m"
proof
  assume d: "DecodeTerminalEOF m = Inr f"
  then have m: "length m = 13" "m ! 0 = CHR 0x05" "f = \<lparr>te_stream = be_get (slice m 1 5), te_sequence = be_get (slice m 5 13)\<rparr>"
    "te_stream f \<noteq> 0" "te_sequence f \<noteq> 0"
    by (auto simp: DecodeTerminalEOF_def Let_def split: if_splits)
  show "te_stream f < u32_size \<and> te_sequence f < u64_size \<and> EncodeTerminalEOF f = Inr m"
    using m layout13[of m] be_field[of 1 4 m] be_field[of 5 8 m] by (simp add: EncodeTerminalEOF_def u64_size_def)
next
  assume "te_stream f < u32_size \<and> te_sequence f < u64_size \<and> EncodeTerminalEOF f = Inr m"
  then show "DecodeTerminalEOF m = Inr f"
    using be_get_fields(2)[of "te_stream f"] be_get_fields(3)[of "te_sequence f"]
    by (auto simp: EncodeTerminalEOF_def DecodeTerminalEOF_def slice_def Let_def split: if_splits)
qed

lemma resize_roundtrip:
  "DecodeTerminalResize m = Inr f \<longleftrightarrow>
     tr_stream f < u32_size \<and> tr_columns f < 2 ^ 16 \<and> tr_rows f < 2 ^ 16 \<and> tr_sequence f < u64_size \<and> EncodeTerminalResize f = Inr m"
proof
  assume d: "DecodeTerminalResize m = Inr f"
  then have m: "length m = 17" "m ! 0 = CHR 0x04" "f = \<lparr>tr_stream = be_get (slice m 1 5), tr_columns = be_get (slice m 5 7),
      tr_rows = be_get (slice m 7 9), tr_sequence = be_get (slice m 9 17)\<rparr>"
    "tr_stream f \<noteq> 0" "tr_columns f \<noteq> 0" "tr_rows f \<noteq> 0" "tr_sequence f \<noteq> 0"
    by (auto simp: DecodeTerminalResize_def Let_def split: if_splits)
  show "tr_stream f < u32_size \<and> tr_columns f < 2 ^ 16 \<and> tr_rows f < 2 ^ 16 \<and> tr_sequence f < u64_size \<and> EncodeTerminalResize f = Inr m"
    using m layout17[of m] be_field[of 1 4 m] be_field[of 5 2 m] be_field[of 7 2 m] be_field[of 9 8 m]
    by (simp add: EncodeTerminalResize_def u64_size_def)
next
  assume "tr_stream f < u32_size \<and> tr_columns f < 2 ^ 16 \<and> tr_rows f < 2 ^ 16 \<and> tr_sequence f < u64_size \<and> EncodeTerminalResize f = Inr m"
  then show "DecodeTerminalResize m = Inr f"
    using be_get_fields(2)[of "tr_stream f"] be_get_fields(1)[of "tr_columns f"] be_get_fields(1)[of "tr_rows f"] be_get_fields(3)[of "tr_sequence f"]
    by (auto simp: EncodeTerminalResize_def DecodeTerminalResize_def slice_def Let_def split: if_splits)
qed

lemma input_roundtrip: "DecodeTerminalInput m = Inr f \<longleftrightarrow> ti_stream f < u32_size \<and> ti_sequence f < u64_size \<and> EncodeTerminalInput f = Inr m"
proof
  assume d: "DecodeTerminalInput m = Inr f"
  then have m: "13 < length m" "length m \<le> MaxBinaryFrame" "m ! 0 = CHR 0x01"
    "f = \<lparr>ti_stream = be_get (slice m 1 5), ti_sequence = be_get (slice m 5 13), ti_data = drop 13 m\<rparr>" "ti_stream f \<noteq> 0" "ti_sequence f \<noteq> 0"
    by (auto simp: DecodeTerminalInput_def Let_def split: if_splits)
  show "ti_stream f < u32_size \<and> ti_sequence f < u64_size \<and> EncodeTerminalInput f = Inr m"
    using m layout13[of m] be_field[of 1 4 m] be_field[of 5 8 m] by (auto simp: EncodeTerminalInput_def u64_size_def)
next
  assume "ti_stream f < u32_size \<and> ti_sequence f < u64_size \<and> EncodeTerminalInput f = Inr m"
  then show "DecodeTerminalInput m = Inr f"
    using be_get_fields(2)[of "ti_stream f"] be_get_fields(3)[of "ti_sequence f"]
    by (auto simp: EncodeTerminalInput_def DecodeTerminalInput_def slice_def Let_def MaxBinaryFrame_def split: if_splits)
qed

section \<open>Output frames\<close>

lemma zstd_blocks_bound: "zstd_blocks payload checksum offset = Some n \<Longrightarrow> offset + 3 \<le> n \<and> n \<le> length payload"
proof (induction payload checksum offset arbitrary: n rule: zstd_blocks.induct)
  case (1 payload checksum offset)
  define b where "b = block_header payload offset"
  define k where "k = (if b div 2 mod 4 = 1 then 1 else b div 8)"
  note z = zstd_blocks.simps[of payload checksum offset, unfolded Let_def, folded b_def, folded k_def]
  have c: "\<not> length payload < offset + 3" "b div 2 mod 4 \<noteq> 3" "\<not> length payload < offset + 3 + k"
    using "1.prems" unfolding z by (auto split: if_splits)
  show ?case
  proof (cases "odd b")
    case True
    then show ?thesis using "1.prems" c unfolding z by (auto split: if_splits)
  next
    case False
    then have r: "zstd_blocks payload checksum (offset + 3 + k) = Some n" using "1.prems" c unfolding z by simp
    show ?thesis using "1.IH"[OF c(1) b_def refl k_def c(2,3) False r] by simp
  qed
qed

lemma one_frame_nonempty: "one_frame hdr c n \<Longrightarrow> 3 \<le> length c"
  by (auto simp: one_frame_def zstdFrameSize_def split: option.splits dest: zstd_blocks_bound)

lemma room: "n < u64_size \<Longrightarrow> u64_sub u64_max n < k \<longleftrightarrow> u64_size \<le> n + k"
  using u64_sub_exact[of n u64_max] by (auto simp: u64_max_def)

lemma inspected:
  assumes "InspectTerminalOutput hdr m = Inr i"
  shows "19 < length m \<and> length m \<le> MaxBinaryFrame \<and> m ! 0 = CHR 0x02 \<and> (m ! 1 = CHR 0x01 \<or> m ! 1 = CHR 0x02)"
    and "m ! 2 = CHR 0x00 \<and> length (drop 19 m) = oi_length i \<or> m ! 2 = CHR 0x01 \<and> one_frame hdr (drop 19 m) (oi_length i)"
    and "i = \<lparr>oi_encoding = m ! 2, oi_stream = be_get (slice m 3 7), oi_start = be_get (slice m 7 15), oi_length = be_get (slice m 15 19)\<rparr>"
    and "oi_stream i \<noteq> 0" and "oi_stream i < u32_size" and "oi_length i \<noteq> 0" and "oi_length i \<le> MaxTerminalOutputBytes"
    and "oi_start i + oi_length i < u64_size"
proof -
  define j where "j = \<lparr>oi_encoding = m ! 2, oi_stream = be_get (slice m 3 7), oi_start = be_get (slice m 7 15), oi_length = be_get (slice m 15 19)\<rparr>"
  define bad where "bad \<longleftrightarrow> length m \<le> 19 \<or> MaxBinaryFrame < length m \<or> m ! 0 \<noteq> CHR 0x02 \<or>
         m ! 1 \<noteq> CHR 0x01 \<and> m ! 1 \<noteq> CHR 0x02 \<or> m ! 2 \<noteq> CHR 0x00 \<and> m ! 2 \<noteq> CHR 0x01"
  define wrong where "wrong \<longleftrightarrow> oi_stream j = 0 \<or> oi_length j = 0 \<or> MaxTerminalOutputBytes < oi_length j \<or> u64_sub u64_max (oi_start j) < oi_length j"
  have e: "InspectTerminalOutput hdr m =
    (if bad then Inl InvalidFrame else if wrong then Inl InvalidFrame
     else if oi_encoding j = CHR 0x00 then (if length (drop 19 m) \<noteq> oi_length j then Inl InvalidFrame else Inr j)
     else if one_frame hdr (drop 19 m) (oi_length j) then Inr j else Inl InvalidFrame)"
    unfolding InspectTerminalOutput_def bad_def wrong_def j_def Let_def by (rule refl)
  have ok: "\<not> bad" "\<not> wrong" "i = j"
    and body: "oi_encoding j = CHR 0x00 \<and> length (drop 19 m) = oi_length j \<or> oi_encoding j \<noteq> CHR 0x00 \<and> one_frame hdr (drop 19 m) (oi_length j)"
    using assms unfolding e by (simp_all split: if_splits)
  have enc: "oi_encoding j = m ! 2" by (simp add: j_def)
  show "i = \<lparr>oi_encoding = m ! 2, oi_stream = be_get (slice m 3 7), oi_start = be_get (slice m 7 15), oi_length = be_get (slice m 15 19)\<rparr>"
    using ok(3) j_def by simp
  show l: "19 < length m \<and> length m \<le> MaxBinaryFrame \<and> m ! 0 = CHR 0x02 \<and> (m ! 1 = CHR 0x01 \<or> m ! 1 = CHR 0x02)"
    using ok(1) unfolding bad_def by linarith
  show "m ! 2 = CHR 0x00 \<and> length (drop 19 m) = oi_length i \<or> m ! 2 = CHR 0x01 \<and> one_frame hdr (drop 19 m) (oi_length i)"
    using ok(1,3) body enc unfolding bad_def by metis
  have w: "oi_stream j < u32_size" "oi_start j < u64_size"
    using l be_field(2)[of 3 4 m] be_field(2)[of 7 8 m] by (simp_all add: j_def u64_size_def)
  show "oi_stream i \<noteq> 0" "oi_stream i < u32_size" "oi_length i \<noteq> 0" "oi_length i \<le> MaxTerminalOutputBytes" "oi_start i + oi_length i < u64_size"
    using ok(2,3) w room[OF w(2)] unfolding wrong_def by (simp_all add: not_less not_le)
qed

definition output_ok :: "terminalOutput \<Rightarrow> bool" where
  "output_ok f \<longleftrightarrow>
     (to_channel f = CHR 0x01 \<or> to_channel f = CHR 0x02) \<and> to_stream f \<noteq> 0 \<and> to_stream f < u32_size \<and> to_data f \<noteq> [] \<and>
     length (to_data f) \<le> MaxTerminalOutputBytes \<and> to_start f + to_length f < u64_size \<and> to_length f \<noteq> 0 \<and>
     to_length f \<le> MaxTerminalOutputBytes \<and>
     (to_encoding f = CHR 0x00 \<and> to_length f = length (to_data f) \<or> to_encoding f = CHR 0x01)"

definition output_bytes :: "terminalOutput \<Rightarrow> bytes" where
  "output_bytes f =
     CHR 0x02 # to_channel f # to_encoding f # be_put 4 (to_stream f) @ be_put 8 (to_start f) @ be_put 4 (to_length f) @ to_data f"

lemma EncodeTerminalOutput_ok: "output_ok f \<Longrightarrow> EncodeTerminalOutput f = Inr (output_bytes f)"
  using room[of "to_start f" "to_length f"]
  by (auto simp: EncodeTerminalOutput_def output_ok_def output_bytes_def Let_def)

lemma output_fields:
  assumes "output_ok f"
  shows "19 < length (output_bytes f)" and "length (output_bytes f) \<le> MaxBinaryFrame" and "output_bytes f ! 0 = CHR 0x02"
    and "output_bytes f ! 1 = to_channel f" and "output_bytes f ! 2 = to_encoding f"
    and "be_get (slice (output_bytes f) 3 7) = to_stream f" and "be_get (slice (output_bytes f) 7 15) = to_start f"
    and "be_get (slice (output_bytes f) 15 19) = to_length f" and "drop 19 (output_bytes f) = to_data f"
proof -
  have v: "to_data f \<noteq> []" "length (to_data f) \<le> MaxTerminalOutputBytes" "to_stream f < u32_size" "to_start f < u64_size" "to_length f < u32_size"
    using assms by (auto simp: output_ok_def MaxTerminalOutputBytes_def MaxBinaryFrame_def)
  show "19 < length (output_bytes f)" "length (output_bytes f) \<le> MaxBinaryFrame"
    using v(1,2) by (auto simp: output_bytes_def MaxTerminalOutputBytes_def MaxBinaryFrame_def)
  show "output_bytes f ! 0 = CHR 0x02" "output_bytes f ! 1 = to_channel f" "output_bytes f ! 2 = to_encoding f"
    "be_get (slice (output_bytes f) 3 7) = to_stream f" "be_get (slice (output_bytes f) 7 15) = to_start f"
    "be_get (slice (output_bytes f) 15 19) = to_length f" "drop 19 (output_bytes f) = to_data f"
    using be_get_fields(2)[OF v(3)] be_get_fields(3)[OF v(4)] be_get_fields(2)[OF v(5)]
    by (simp_all add: output_bytes_def slice_def)
qed

lemma InspectTerminalOutput_bytes:
  assumes "output_ok f" and "to_encoding f = CHR 0x01 \<longrightarrow> one_frame hdr (to_data f) (to_length f)"
  shows "InspectTerminalOutput hdr (output_bytes f) =
     Inr \<lparr>oi_encoding = to_encoding f, oi_stream = to_stream f, oi_start = to_start f, oi_length = to_length f\<rparr>"
proof -
  have "u64_sub u64_max (to_start f) < to_length f \<longleftrightarrow> False" using assms(1) room[of "to_start f" "to_length f"] by (simp add: output_ok_def)
  then show ?thesis
    using output_fields[OF assms(1)] assms by (auto simp: InspectTerminalOutput_def output_ok_def Let_def)
qed

text \<open>What the code relies on: a compressed frame is one frame with the content's size, and decompresses to it.\<close>

definition zstd_ok :: "(bytes \<Rightarrow> bytes option) \<Rightarrow> (bytes \<Rightarrow> zstdHeader option) \<Rightarrow> (bytes \<Rightarrow> bytes option) \<Rightarrow> bool" where
  "zstd_ok enc hdr dec \<longleftrightarrow>
     (\<forall>d c. d \<noteq> [] \<longrightarrow> length d \<le> MaxTerminalOutputBytes \<longrightarrow> enc d = Some c \<longrightarrow> one_frame hdr c (length d) \<and> dec c = Some d)"

lemma DecodeTerminalOutput_facts:
  assumes "DecodeTerminalOutput hdr dec m = Inr f"
  shows "length (to_data f) = to_length f" and "to_length f \<noteq> 0" and "to_length f \<le> MaxTerminalOutputBytes"
    and "to_start f + to_length f < u64_size" and "to_stream f \<noteq> 0" and "to_stream f < u32_size"
    and "to_encoding f = m ! 2" and "m ! 2 = CHR 0x00 \<Longrightarrow> EncodeTerminalOutput f = Inr m"
proof -
  obtain i where i: "InspectTerminalOutput hdr m = Inr i" using assms by (auto simp: DecodeTerminalOutput_def split: sum.splits)
  note n = inspected[OF i]
  have f: "f = \<lparr>to_channel = m ! 1, to_stream = oi_stream i, to_start = oi_start i, to_encoding = oi_encoding i,
      to_length = oi_length i, to_data = to_data f\<rparr>" "length (to_data f) = oi_length i"
    "oi_encoding i = CHR 0x00 \<Longrightarrow> to_data f = drop 19 m"
    using assms i by (auto simp: DecodeTerminalOutput_def split: option.splits if_splits)
  have fs: "to_channel f = m ! 1" "to_stream f = oi_stream i" "to_start f = oi_start i" "to_encoding f = oi_encoding i" "to_length f = oi_length i"
    using f(1) by (metis terminalOutput.select_convs)+
  have e: "oi_encoding i = m ! 2" by (subst n(3)) simp
  show "length (to_data f) = to_length f" "to_length f \<noteq> 0" "to_length f \<le> MaxTerminalOutputBytes" "to_start f + to_length f < u64_size"
    "to_stream f \<noteq> 0" "to_stream f < u32_size" "to_encoding f = m ! 2"
    using f(2) fs n(4-8) e by simp_all
  show "EncodeTerminalOutput f = Inr m" if raw: "m ! 2 = CHR 0x00"
  proof -
    have d: "to_data f = drop 19 m" using f(3) e raw by simp
    have "be_put 4 (oi_stream i) = slice m 3 7" "be_put 8 (oi_start i) = slice m 7 15" "be_put 4 (oi_length i) = slice m 15 19"
      using n(1) be_field(1)[of 3 4 m] be_field(1)[of 7 8 m] be_field(1)[of 15 4 m] by (subst n(3), simp)+
    then have "output_bytes f = m" using layout19[of m] n(1) fs e raw d by (simp add: output_bytes_def)
    moreover have "output_ok f" unfolding output_ok_def using fs e raw n(1,4-8) f(2) d by auto
    ultimately show ?thesis using EncodeTerminalOutput_ok by metis
  qed
qed

lemma EncodeTerminalOutput_raw:
  assumes "EncodeTerminalOutput f = Inr m" and "to_encoding f = CHR 0x00" and "to_length f = length (to_data f)"
    and "to_stream f < u32_size" and "to_start f < u64_size"
  shows "DecodeTerminalOutput hdr dec m = Inr f"
proof -
  have v: "\<not> MaxTerminalOutputBytes < length (to_data f)" "to_data f \<noteq> []" "to_stream f \<noteq> 0" "to_channel f = CHR 0x01 \<or> to_channel f = CHR 0x02"
    "\<not> u64_sub u64_max (to_start f) < to_length f"
    using assms(1-3) by (auto simp: EncodeTerminalOutput_def Let_def split: if_splits)
  have ok: "output_ok f" using v assms(2-5) room[OF assms(5)] by (auto simp: output_ok_def not_less)
  have m: "m = output_bytes f" using EncodeTerminalOutput_ok[OF ok] assms(1) by simp
  have i: "InspectTerminalOutput hdr m =
     Inr \<lparr>oi_encoding = to_encoding f, oi_stream = to_stream f, oi_start = to_start f, oi_length = to_length f\<rparr>"
    unfolding m by (rule InspectTerminalOutput_bytes[OF ok]) (simp add: assms(2))
  show ?thesis using i output_fields(4,9)[OF ok] assms(2,3) by (simp add: DecodeTerminalOutput_def m)
qed

lemma DecodeTerminalOutput_compressed:
  assumes "output_ok f" and "to_encoding f = CHR 0x01" and "one_frame hdr (to_data f) (to_length f)" and "dec (to_data f) = Some d"
    and "length d = to_length f"
  shows "DecodeTerminalOutput hdr dec (output_bytes f) = Inr (f\<lparr>to_data := d\<rparr>)"
  using InspectTerminalOutput_bytes[of f hdr] assms output_fields(4,9)[OF assms(1)]
  by (simp add: DecodeTerminalOutput_def zstdDecode_def)

lemma adaptive:
  assumes "zstd_ok enc hdr dec" and "output_ok (f\<lparr>to_encoding := CHR 0x00, to_length := length (to_data f)\<rparr>)" and "enc (to_data f) \<noteq> None"
  shows "\<exists>m e. EncodeTerminalOutputAdaptive enc f = Inr m \<and> length m \<le> 19 + length (to_data f) \<and>
     DecodeTerminalOutput hdr dec m = Inr (f\<lparr>to_encoding := e, to_length := length (to_data f)\<rparr>)"
proof -
  let ?f = "f\<lparr>to_encoding := CHR 0x00, to_length := length (to_data f)\<rparr>"
  have small: "length (to_data f) mod u32_size = length (to_data f)"
    using assms(2) by (simp add: output_ok_def MaxTerminalOutputBytes_def MaxBinaryFrame_def)
  obtain c where c: "enc (to_data f) = Some c" using assms(3) by auto
  have z: "one_frame hdr c (length (to_data f))" "dec c = Some (to_data f)"
    using assms(1,2) c unfolding zstd_ok_def output_ok_def by auto
  show ?thesis
  proof (cases "1024 \<le> length (to_data f) \<and> saves c (to_data f)")
    case True
    let ?g = "?f\<lparr>to_encoding := CHR 0x01, to_data := c\<rparr>"
    have "c \<noteq> []" "length c \<le> length (to_data f)" using one_frame_nonempty[OF z(1)] True by (auto simp: saves_def)
    then have ok: "output_ok ?g" using assms(2) by (auto simp: output_ok_def)
    have "EncodeTerminalOutputAdaptive enc f = Inr (output_bytes ?g)"
      using True c small EncodeTerminalOutput_ok[OF ok] by (simp add: EncodeTerminalOutputAdaptive_def Let_def)
    moreover have "DecodeTerminalOutput hdr dec (output_bytes ?g) = Inr (f\<lparr>to_encoding := CHR 0x01, to_length := length (to_data f)\<rparr>)"
      using DecodeTerminalOutput_compressed[OF ok, of hdr dec "to_data f"] z by simp
    moreover have "length (output_bytes ?g) \<le> 19 + length (to_data f)" using True by (simp add: output_bytes_def saves_def)
    ultimately show ?thesis by blast
  next
    case False
    have "EncodeTerminalOutputAdaptive enc f = Inr (output_bytes ?f)"
      using False c small EncodeTerminalOutput_ok[OF assms(2)] by (auto simp: EncodeTerminalOutputAdaptive_def Let_def)
    moreover have "DecodeTerminalOutput hdr dec (output_bytes ?f) = Inr ?f"
      using assms(2) EncodeTerminalOutput_raw[OF EncodeTerminalOutput_ok[OF assms(2)]] by (simp add: output_ok_def)
    moreover have "length (output_bytes ?f) \<le> 19 + length (to_data f)" by (simp add: output_bytes_def)
    ultimately show ?thesis by blast
  qed
qed

section \<open>A run-length compressor\<close>

text \<open>Frames of one block, run-length coded for a constant input and raw otherwise.\<close>

definition put_block :: "nat \<Rightarrow> bytes" where
  "put_block v = [char_of v, char_of (v div 256), char_of (v div 65536)]"

definition ex_enc :: "bytes \<Rightarrow> bytes option" where
  "ex_enc d = Some (if d = replicate (length d) (d ! 0) then put_block (8 * length d + 3) @ [d ! 0] else put_block (8 * length d + 1) @ d)"

definition ex_hdr :: "bytes \<Rightarrow> zstdHeader option" where
  "ex_hdr c = Some \<lparr>zh_size = 0, zh_skippable = False, zh_dictionary = 0, zh_hasFCS = True, zh_contentSize = block_header c 0 div 8,
     zh_single = True, zh_window = 0, zh_checksum = False\<rparr>"

definition ex_dec :: "bytes \<Rightarrow> bytes option" where
  "ex_dec c = Some (if block_header c 0 div 2 mod 4 = 1 then replicate (block_header c 0 div 8) (c ! 3) else drop 3 c)"

lemma three_bytes:
  assumes "(v :: nat) < 16777216"
  shows "v mod 256 + 256 * (v div 256 mod 256) + 65536 * (v div 65536 mod 256) = v"
proof -
  have "v div 65536 = v div 256 div 256" by (simp add: div_mult2_eq[symmetric])
  moreover have "v div 65536 mod 256 = v div 65536" using assms by simp
  moreover have "256 * (v div 256) + v mod 256 = v" by simp
  moreover have "256 * (v div 256 div 256) + v div 256 mod 256 = v div 256" by simp
  ultimately show ?thesis by linarith
qed

lemma block_header_put: "v < 16777216 \<Longrightarrow> block_header (put_block v @ r) 0 = v"
  unfolding block_header_def put_block_def append_Cons add_0 nth_Cons_0 One_nat_def nth_Cons_Suc numeral_2_eq_2 of_char_of
  by (rule three_bytes)

lemma block_tag: "(8 * n + 3) div 2 mod 4 = (1 :: nat)" "(8 * n + 1) div 2 mod 4 = (0 :: nat)" "(8 * n + 3) div 8 = n" "(8 * n + 1) div 8 = n"
  by presburger+

lemma ex_zstd: "zstd_ok ex_enc ex_hdr ex_dec"
proof -
  have "one_frame ex_hdr c (length d) \<and> ex_dec c = Some d" if d: "d \<noteq> []" "length d \<le> MaxTerminalOutputBytes" and c: "ex_enc d = Some c" for d c
  proof -
    have l: "8 * length d + 3 < 16777216" using d(2) by (simp add: MaxTerminalOutputBytes_def MaxBinaryFrame_def)
    show ?thesis
    proof (cases "d = replicate (length d) (d ! 0)")
      case True
      have e: "c = put_block (8 * length d + 3) @ [d ! 0]" using c True by (simp add: ex_enc_def)
      have h: "block_header c 0 = 8 * length d + 3" unfolding e by (rule block_header_put[OF l])
      have k: "(8 * length d + 3) div 8 = length d" "(8 * length d + 3) div 2 mod 4 = 1" "odd (8 * length d + 3)" by (simp_all add: block_tag)
      have "length c = 4" "c ! 3 = d ! 0" unfolding e by (simp_all add: put_block_def)
      then show ?thesis using k True
        by (simp add: one_frame_def ex_hdr_def header_ok_def zstdFrameSize_def zstd_blocks.simps[of c] h ex_dec_def Let_def)
    next
      case False
      have e: "c = put_block (8 * length d + 1) @ d" using c False by (simp add: ex_enc_def)
      have h: "block_header c 0 = 8 * length d + 1" unfolding e by (rule block_header_put) (use l in simp)
      have k: "(8 * length d + 1) div 8 = length d" "(8 * length d + 1) div 2 mod 4 = 0" "odd (8 * length d + 1)" by (simp_all add: block_tag)
      have "length c = 3 + length d" "drop 3 c = d" unfolding e by (simp_all add: put_block_def)
      then show ?thesis using k
        by (simp add: one_frame_def ex_hdr_def header_ok_def zstdFrameSize_def zstd_blocks.simps[of c] h ex_dec_def Let_def)
    qed
  qed
  then show ?thesis by (auto simp: zstd_ok_def)
qed

section \<open>Properties\<close>

text \<open>
  C23. The messages a client or host accepts are exactly those the other side can send: a message
  decodes to an input, an acknowledgement, a resize or an end of input precisely when it is the
  encoding of that frame, with every field within its width.
\<close>

theorem terminal_messages:
  "(DecodeTerminalInput m = Inr f \<longleftrightarrow> ti_stream f < u32_size \<and> ti_sequence f < u64_size \<and> EncodeTerminalInput f = Inr m) \<and>
   (DecodeTerminalACK m = Inr a \<longleftrightarrow> ta_stream a < u32_size \<and> ta_next a < u64_size \<and> EncodeTerminalACK a = Inr m) \<and>
   (DecodeTerminalResize m = Inr r \<longleftrightarrow>
      tr_stream r < u32_size \<and> tr_columns r < 2 ^ 16 \<and> tr_rows r < 2 ^ 16 \<and> tr_sequence r < u64_size \<and> EncodeTerminalResize r = Inr m) \<and>
   (DecodeTerminalEOF m = Inr e \<longleftrightarrow> te_stream e < u32_size \<and> te_sequence e < u64_size \<and> EncodeTerminalEOF e = Inr m)"
  by (intro conjI input_roundtrip ack_roundtrip resize_roundtrip eof_roundtrip)



text \<open>
  C19. Whatever a peer sends and whatever the decompressor returns, decoded output has exactly the
  announced length, that length is bounded by the frame size, and the offsets it occupies do not
  wrap around; a raw message is the encoding of what it decodes to.
\<close>

theorem decoded_output_bounded:
  assumes "DecodeTerminalOutput hdr dec m = Inr f"
  shows "length (to_data f) = to_length f \<and> 0 < to_length f \<and> to_length f \<le> MaxTerminalOutputBytes \<and>
     to_start f + to_length f < u64_size \<and> (to_encoding f = CHR 0x00 \<longrightarrow> EncodeTerminalOutput f = Inr m)"
  using DecodeTerminalOutput_facts[OF assms] by auto

theorem decoded_output_bounded_witness:
  "DecodeTerminalOutput ex_hdr ex_dec (CHR 0x02 # CHR 0x01 # CHR 0x00 # be_put 4 1 @ be_put 8 9 @ be_put 4 2 @ ''hi'') =
     Inr \<lparr>to_channel = CHR 0x01, to_stream = 1, to_start = 9, to_encoding = CHR 0x00, to_length = 2, to_data = ''hi''\<rparr> \<and>
   (2::nat) \<le> MaxTerminalOutputBytes"
proof -
  let ?f = "\<lparr>to_channel = CHR 0x01, to_stream = 1, to_start = 9, to_encoding = CHR 0x00, to_length = 2, to_data = ''hi''\<rparr>"
  have "EncodeTerminalOutput ?f = Inr (output_bytes ?f)"
    by (rule EncodeTerminalOutput_ok) (simp add: output_ok_def MaxTerminalOutputBytes_def MaxBinaryFrame_def u64_size_def)
  then have d: "DecodeTerminalOutput ex_hdr ex_dec (output_bytes ?f) = Inr ?f"
    by (rule EncodeTerminalOutput_raw) (simp_all add: u64_size_def)
  show ?thesis using d decoded_output_bounded[OF d] by (simp add: output_bytes_def)
qed

end
