(* ===== verification/Negotiation.thy ===== *)
theory Negotiation
  imports Wire_Codec
begin

text \<open>
  Which version and capabilities a connection uses,
  \<^verbatim>\<open>internal/hostruntime/protocol/negotiation.go\<close>. Go's sets of capabilities are lists of distinct
  strings.
\<close>

section \<open>Capabilities\<close>

text \<open>The pattern \<^verbatim>\<open>^[a-z][a-z0-9_.-]{1,63}$\<close>.\<close>

definition capabilityPattern :: "string \<Rightarrow> bool" where
  "capabilityPattern s \<longleftrightarrow>
     2 \<le> length s \<and> length s \<le> 64 \<and> between CHR ''a'' CHR ''z'' (hd s) \<and>
     list_all (\<lambda>ch. between CHR ''a'' CHR ''z'' ch \<or> between CHR ''0'' CHR ''9'' ch \<or>
       ch = CHR ''_'' \<or> ch = CHR ''.'' \<or> ch = CHR ''-'') (tl s)"

text \<open>A provider is the list it offers, \<^const>\<open>None\<close> for \<^verbatim>\<open>nil\<close>; the only error is \<^verbatim>\<open>ErrInvalidCapabilities\<close>.\<close>

fun add_capabilities :: "string list \<Rightarrow> string list \<Rightarrow> string list option" where
  "add_capabilities available [] = Some available"
| "add_capabilities available (c # cs) =
     (if \<not> capabilityPattern c \<or> c \<in> set available then None else add_capabilities (available @ [c]) cs)"

fun collect_capabilities :: "string list \<Rightarrow> string list option list \<Rightarrow> string list option" where
  "collect_capabilities available [] = Some available"
| "collect_capabilities available (p # ps) =
     (case p of
        None \<Rightarrow> None
      | Some cs \<Rightarrow>
          (case add_capabilities available cs of None \<Rightarrow> None | Some a \<Rightarrow> collect_capabilities a ps))"

definition requiredCapabilities :: "string list" where
  "requiredCapabilities = [''terminal.v1'', ''health.v1'']"

definition AvailableCapabilities :: "string list option list \<Rightarrow> string list option" where
  "AvailableCapabilities providers =
     (case collect_capabilities [] providers of
        None \<Rightarrow> None
      | Some a \<Rightarrow> if ''terminal.v1'' \<notin> set a \<or> ''health.v1'' \<notin> set a then None else Some a)"

section \<open>Negotiation\<close>

text \<open>\<^verbatim>\<open>strconv.Atoi\<close> on a 64-bit platform.\<close>

definition parse_int :: "string \<Rightarrow> int option" where
  "parse_int s =
     (let neg = (s \<noteq> [] \<and> hd s = CHR ''-''); ds = (if s \<noteq> [] \<and> (hd s = CHR ''-'' \<or> hd s = CHR ''+'') then tl s else s)
      in case (if ds = [] then None else parse_digits 0 ds) of
           None \<Rightarrow> None
         | Some n \<Rightarrow>
             if neg then (if n \<le> 2 ^ 63 then Some (- int n) else None)
             else if n < 2 ^ 63 then Some (int n) else None)"

definition parseVersion :: "string \<Rightarrow> (int \<times> int) option" where
  "parseVersion version =
     (let majorText = takeWhile (\<lambda>c. c \<noteq> CHR ''.'') version; rest = dropWhile (\<lambda>c. c \<noteq> CHR ''.'') version; minorText = tl rest
      in if rest = [] \<or> majorText = [] \<or> minorText = [] \<or> CHR ''.'' \<in> set minorText then None
         else case (parse_int majorText, parse_int minorText) of
           (Some major, Some minor) \<Rightarrow> if 0 \<le> major \<and> 0 \<le> minor then Some (major, minor) else None
         | _ \<Rightarrow> None)"

definition allowedCapabilities :: "string \<Rightarrow> string list option" where
  "allowedCapabilities profile =
     (if profile = ''hosted''
      then Some [''terminal.v1'', ''health.v1'', ''exec.v1'', ''ssh.v1'', ''config.apply.v1'', ''hosted.lifecycle.v1'', ''update.tuf.v1'']
      else if profile = ''byod''
      then Some [''terminal.v1'', ''health.v1'', ''exec.v1'', ''ssh.v1'', ''config.apply.v1'', ''update.tuf.v1'']
      else None)"

record negotiator =
  ng_profile :: string
  ng_available :: "string list"
  ng_proof :: bool

record welcomeFrame =
  wl_version :: string
  wl_capabilities :: "string list"

definition ProtocolVersion :: string where
  "ProtocolVersion = ''1.0''"

definition selectable :: "negotiator \<Rightarrow> string list \<Rightarrow> string \<Rightarrow> bool" where
  "selectable n allowed c \<longleftrightarrow>
     c \<in> set allowed \<and> c \<in> set (ng_available n) \<and> \<not> (c = ''config.apply.v1'' \<and> ng_profile n = ''byod'' \<and> \<not> ng_proof n)"

definition Negotiate :: "negotiator \<Rightarrow> string \<Rightarrow> string \<Rightarrow> string list \<Rightarrow> code + welcomeFrame" where
  "Negotiate n minVersion maxVersion offered =
     (case (parseVersion minVersion, parseVersion maxVersion) of
        (Some (minMajor, minMinor), Some (maxMajor, maxMinor)) \<Rightarrow>
          if minMajor \<noteq> 1 \<or> maxMajor \<noteq> 1 \<or> 0 < minMinor \<or> maxMinor < 0 \<or> maxMinor < minMinor then Inl ProtocolIncompatible
          else (case allowedCapabilities (ng_profile n) of
                  None \<Rightarrow> Inl ProtocolIncompatible
                | Some allowed \<Rightarrow>
                    if list_ex (\<lambda>c. c \<notin> set offered \<or> c \<notin> set (ng_available n)) requiredCapabilities then Inl CapabilityRequired
                    else Inr \<lparr>wl_version = ProtocolVersion,
                              wl_capabilities = sort_key string_key (filter (selectable n allowed) (remdups offered))\<rparr>)
      | _ \<Rightarrow> Inl ProtocolIncompatible)"

section \<open>Lemmas\<close>

lemma add_capabilities_spec:
  "add_capabilities a cs = Some b \<Longrightarrow> distinct a \<Longrightarrow> distinct b \<and> set b = set a \<union> set cs \<and> (\<forall>c\<in>set cs. capabilityPattern c)"
proof (induction a cs rule: add_capabilities.induct)
  case (2 a c cs)
  have c: "capabilityPattern c" "c \<notin> set a" "add_capabilities (a @ [c]) cs = Some b"
    using "2.prems"(1) unfolding add_capabilities.simps by (simp_all split: if_splits)
  have g: "\<not> (\<not> capabilityPattern c \<or> c \<in> set a)" "distinct (a @ [c])" using c(1,2) "2.prems"(2) by simp_all
  show ?case using "2.IH"[OF g(1) c(3) g(2)] c(1) by simp
qed simp

lemma collect_capabilities_spec:
  "collect_capabilities a ps = Some b \<Longrightarrow> distinct a \<Longrightarrow> list_all capabilityPattern a \<Longrightarrow>
     distinct b \<and> list_all capabilityPattern b"
proof (induction a ps rule: collect_capabilities.induct)
  case (2 a p ps)
  obtain cs a' where p: "p = Some cs" "add_capabilities a cs = Some a'" "collect_capabilities a' ps = Some b"
    using "2.prems"(1) by (auto split: option.splits)
  note s = add_capabilities_spec[OF p(2) "2.prems"(2)]
  have "list_all capabilityPattern a'" using s "2.prems"(3) unfolding list_all_iff by blast
  then show ?case using "2.IH"[OF p(1,2,3)] s by blast
qed simp

lemma string_key_inj: "inj string_key"
  unfolding string_key_def by (rule injI) (rule map_injective[OF _ inj_of_char])

lemma sorted_strings: "sorted_wrt (\<lambda>a b. string_key a < string_key b) (sort_key string_key xs)" if "distinct xs"
proof -
  have s: "sorted (map string_key (sort_key string_key xs))" by simp
  have d: "distinct (map string_key (sort_key string_key xs))"
    using that string_key_inj by (auto simp: distinct_map intro: inj_on_subset)
  have "sorted_wrt (<) (map string_key (sort_key string_key xs))" using s d by (simp add: strict_sorted_iff)
  then show ?thesis by (simp add: sorted_wrt_map)
qed

section \<open>Properties\<close>


text \<open>
  C33. What the host announces is a set of well-formed capabilities that contains the required ones.
\<close>

theorem announced_capabilities:
  assumes "AvailableCapabilities ps = Some a"
  shows "distinct a \<and> list_all capabilityPattern a \<and> set requiredCapabilities \<subseteq> set a"
  using assms collect_capabilities_spec[of "[]" ps a]
  by (auto simp: AvailableCapabilities_def requiredCapabilities_def split: option.splits if_splits)

theorem announced_capabilities_witness:
  "distinct [''terminal.v1'', ''exec.v1'', ''health.v1''] \<and> list_all capabilityPattern [''terminal.v1'', ''exec.v1'', ''health.v1'']"
  using announced_capabilities[of "[Some [''terminal.v1'', ''exec.v1''], Some [''health.v1'']]" "[''terminal.v1'', ''exec.v1'', ''health.v1'']"]
  by (simp add: AvailableCapabilities_def capabilityPattern_def between_def)

end
