(* ===== verification/Resumable_Conn.thy ===== *)
theory Resumable_Conn
  imports Wire_Codec
begin

text \<open>
  One end of a resumable stream, \<^verbatim>\<open>internal/peertransport/resumablestream/conn.go\<close>. Each function is
  one critical section of the source: what a goroutine does while it holds the lock of the
  connection. A carrier is named by its link; \<open>cn_carriers\<close> holds the carrier objects that the code
  points to. What remains to be done outside the lock (frames to write, links to close) is part of
  the result. Logging and the event channel are left out, and deadlines only let a blocked
  call give up.
\<close>

section \<open>Frames\<close>

datatype kind = Data | Ack | FIN | Reset | FINAck | Commit | CommitAck | Confirm | Discard | DiscardAck

definition kinds :: "(byte \<times> kind) list" where
  "kinds =
     [(CHR 0x01, Data), (CHR 0x02, Ack), (CHR 0x03, FIN), (CHR 0x04, Reset), (CHR 0x05, FINAck), (CHR 0x06, Commit),
      (CHR 0x07, CommitAck), (CHR 0x08, Confirm), (CHR 0x09, Discard), (CHR 0x0A, DiscardAck)]"

fun kind_byte :: "kind \<Rightarrow> byte" where
  "kind_byte Data = CHR 0x01"
| "kind_byte Ack = CHR 0x02"
| "kind_byte FIN = CHR 0x03"
| "kind_byte Reset = CHR 0x04"
| "kind_byte FINAck = CHR 0x05"
| "kind_byte Commit = CHR 0x06"
| "kind_byte CommitAck = CHR 0x07"
| "kind_byte Confirm = CHR 0x08"
| "kind_byte Discard = CHR 0x09"
| "kind_byte DiscardAck = CHR 0x0A"

record frame =
  fr_kind :: kind
  fr_seq :: nat
  fr_payload :: bytes

definition maximumFrame :: nat where
  "maximumFrame = 32 * 1024"

definition frame_header :: "frame \<Rightarrow> bytes" where
  "frame_header f = kind_byte (fr_kind f) # be_put 8 (fr_seq f) @ be_put 4 (length (fr_payload f))"

definition writeFrame :: "writer \<Rightarrow> frame \<Rightarrow> wire_error option \<times> bytes" where
  "writeFrame w f =
     (case writeAll w 0 (frame_header f) of
        (Some e, out, _) \<Rightarrow> (Some e, out)
      | (None, out, k) \<Rightarrow>
          if fr_payload f = [] then (None, out)
          else (case writeAll w k (fr_payload f) of (e, out', _) \<Rightarrow> (e, out @ out')))"

definition readFrame :: "bytes \<Rightarrow> wire_error + frame \<times> bytes" where
  "readFrame bs =
     (case read_full 13 bs of
        Inl e \<Rightarrow> Inl e
      | Inr (h, r1) \<Rightarrow>
          (let n = be_get (slice h 9 13)
           in case map_of kinds (h ! 0) of
                None \<Rightarrow> Inl ErrProtocol
              | Some k \<Rightarrow>
                  if maximumFrame < n \<or> k \<noteq> Data \<and> n \<noteq> 0 then Inl ErrProtocol
                  else (case read_full n r1 of
                          Inl e \<Rightarrow> Inl e
                        | Inr (payload, r2) \<Rightarrow> Inr (\<lparr>fr_kind = k, fr_seq = be_get (slice h 1 9), fr_payload = payload\<rparr>, r2))))"

section \<open>Identity\<close>

record streamIdentity =
  si_principal :: string
  si_operation :: string
  si_consumer :: string
  si_stream :: string

definition identity_bytes :: "streamIdentity \<Rightarrow> bytes" where
  "identity_bytes i =
     ''paperboat-resumable-stream-v2'' @ [CHR 0x00] @
     concat (map (\<lambda>v. be_put 4 (length v) @ v) [si_principal i, si_operation i, si_consumer i, si_stream i])"

definition digest :: "(bytes \<Rightarrow> bytes) \<Rightarrow> streamIdentity \<Rightarrow> bytes option" where
  "digest sha i =
     (if si_principal i = [] \<or> si_operation i = [] \<or> si_consumer i = [] \<or> si_stream i = [] then None
      else Some (sha (identity_bytes i)))"

section \<open>State\<close>

datatype role = RoleUnspecified | RoleInitiator | RoleResponder

datatype carrierState = Provisional | Prepared | Committing | Active | Retained | Superseded | Failed

text \<open>A link is one network connection; it carries at most one carrier at each end.\<close>

type_synonym link = nat

record carrier =
  ca_id :: bytes
  ca_epoch :: nat
  ca_state :: carrierState

text \<open>
  \<open>ErrProtocolViolation\<close> carries the stage that \<^verbatim>\<open>failFrameProtocol\<close> records; \<open>ErrRefused\<close> is the bare
  \<^verbatim>\<open>ErrProtocol\<close> that a transition of the coordinator returns.
\<close>

datatype conn_error =
    ErrInvalid | ErrProtocolViolation string | ErrRefused | ErrClosed | ErrLink | ErrExpired | ErrCause | ErrReason | ErrRandomID

text \<open>
  The channels that the coordinator waits on have capacity one. A channel is its position in
  \<open>cn_channels\<close>, whose entry is the value it holds; the two tables give the channel that is
  registered for a carrier.
\<close>

type_synonym channel = nat

record conn =
  cn_window :: nat
  cn_role :: role
  cn_identity :: bytes
  cn_carriers :: "(link \<times> carrier) list"
  cn_active :: "link option"
  cn_prepared :: "link option"
  cn_retained :: "link option"
  cn_nextEpoch :: nat
  cn_committed :: nat
  cn_channels :: "conn_error option option list"
  cn_commitWait :: "(bytes \<times> channel) list"
  cn_discardWait :: "(bytes \<times> channel) list"
  cn_detached :: bool
  cn_detachedSeq :: nat
  cn_sendBase :: nat
  cn_sendNext :: nat
  cn_send :: bytes
  cn_localFIN :: bool
  cn_finSent :: bytes
  cn_finAcked :: bool
  cn_recvNext :: nat
  cn_recvBase :: nat
  cn_recv :: bytes
  cn_ackCarrier :: bytes
  cn_ackOffset :: nat
  cn_remoteFIN :: bool
  cn_remoteFINAt :: nat
  cn_closed :: bool
  cn_terminal :: "conn_error option"

definition zeroCarrier :: bytes where
  "zeroCarrier = replicate 16 (CHR 0x00)"

definition New_conn :: "nat \<Rightarrow> role \<Rightarrow> bytes option \<Rightarrow> conn_error + conn" where
  "New_conn window role identity =
     (case identity of
        None \<Rightarrow> Inl ErrInvalid
      | Some d \<Rightarrow>
          if window < maximumFrame \<or> 64 * 1024 * 1024 < window \<or> role \<noteq> RoleInitiator \<and> role \<noteq> RoleResponder then Inl ErrInvalid
          else Inr \<lparr>cn_window = window, cn_role = role, cn_identity = d, cn_carriers = [], cn_active = None, cn_prepared = None,
                    cn_retained = None, cn_nextEpoch = 0, cn_committed = 0, cn_channels = [], cn_commitWait = [], cn_discardWait = [],
                    cn_detached = False, cn_detachedSeq = 0, cn_sendBase = 0, cn_sendNext = 0, cn_send = [],
                    cn_localFIN = False, cn_finSent = zeroCarrier, cn_finAcked = False, cn_recvNext = 0, cn_recvBase = 0,
                    cn_recv = [], cn_ackCarrier = zeroCarrier, cn_ackOffset = 0, cn_remoteFIN = False, cn_remoteFINAt = 0,
                    cn_closed = False, cn_terminal = None\<rparr>)"

text \<open>The carrier object of a link; every use is of a link that has one.\<close>

definition carrier_of :: "link \<Rightarrow> conn \<Rightarrow> carrier" where
  "carrier_of l c =
     (case map_of (cn_carriers c) l of Some x \<Rightarrow> x | None \<Rightarrow> \<lparr>ca_id = zeroCarrier, ca_epoch = 0, ca_state = Failed\<rparr>)"

abbreviation state_of :: "link \<Rightarrow> conn \<Rightarrow> carrierState" where
  "state_of l c \<equiv> ca_state (carrier_of l c)"

definition set_state :: "link \<Rightarrow> carrierState \<Rightarrow> conn \<Rightarrow> conn" where
  "set_state l st c = c\<lparr>cn_carriers := AList.update l ((carrier_of l c)\<lparr>ca_state := st\<rparr>) (cn_carriers c)\<rparr>"

definition new_carrier :: "link \<Rightarrow> bytes \<Rightarrow> nat \<Rightarrow> carrierState \<Rightarrow> conn \<Rightarrow> conn" where
  "new_carrier l i epoch st c = c\<lparr>cn_carriers := AList.update l \<lparr>ca_id = i, ca_epoch = epoch, ca_state = st\<rparr> (cn_carriers c)\<rparr>"

abbreviation stopped :: "conn \<Rightarrow> bool" where
  "stopped c \<equiv> cn_closed c \<or> cn_terminal c \<noteq> None"

definition stop_error :: "conn \<Rightarrow> conn_error" where
  "stop_error c = (case cn_terminal c of Some e \<Rightarrow> e | None \<Rightarrow> ErrClosed)"

text \<open>\<^verbatim>\<open>make(chan error, 1)\<close>, the non-blocking send, and the receive.\<close>

definition make_channel :: "conn \<Rightarrow> channel \<times> conn" where
  "make_channel c = (length (cn_channels c), c\<lparr>cn_channels := cn_channels c @ [None]\<rparr>)"

definition offer :: "channel option \<Rightarrow> conn_error option \<Rightarrow> conn \<Rightarrow> conn" where
  "offer k r c =
     (case k of
        None \<Rightarrow> c
      | Some j \<Rightarrow> if cn_channels c ! j = None then c\<lparr>cn_channels := (cn_channels c)[j := Some r]\<rparr> else c)"

definition receive :: "channel \<Rightarrow> conn \<Rightarrow> (conn_error option \<times> conn) option" where
  "receive j c =
     (case cn_channels c ! j of None \<Rightarrow> None | Some r \<Rightarrow> Some (r, c\<lparr>cn_channels := (cn_channels c)[j := None]\<rparr>))"

definition discardAcked :: "nat \<Rightarrow> conn \<Rightarrow> conn" where
  "discardAcked offset c =
     (if offset \<le> cn_sendBase c then c
      else c\<lparr>cn_send := drop (u64_sub offset (cn_sendBase c)) (cn_send c), cn_sendBase := offset\<rparr>)"

section \<open>The application\<close>

datatype read_result = Got bytes | ReadEOF | ReadError conn_error | ReadBlocked

definition conn_Read :: "nat \<Rightarrow> conn \<Rightarrow> read_result \<times> conn" where
  "conn_Read n c =
     (if n = 0 then (Got [], c)
      else if cn_recv c \<noteq> []
      then (let k = min n (length (cn_recv c))
            in (Got (take k (cn_recv c)), c\<lparr>cn_recv := drop k (cn_recv c), cn_recvBase := u64_add (cn_recvBase c) k\<rparr>))
      else if cn_remoteFIN c \<and> cn_remoteFINAt c \<le> cn_recvNext c then (ReadEOF, c)
      else if stopped c then (ReadError (stop_error c), c)
      else (ReadBlocked, c))"

text \<open>One round of the loop of \<^verbatim>\<open>Write\<close>: how many bytes it took, or why it took none.\<close>

datatype write_result = Took nat | WriteError conn_error | WriteBlocked

definition conn_Write :: "bytes \<Rightarrow> conn \<Rightarrow> write_result \<times> conn" where
  "conn_Write data c =
     (if data = [] then (Took 0, c)
      else if cn_localFIN c \<or> stopped c then (WriteError (stop_error c), c)
      else if length (cn_send c) < cn_window c
      then (let n = min (cn_window c - length (cn_send c)) (length data)
            in (Took n, c\<lparr>cn_send := cn_send c @ take n data, cn_sendNext := u64_add (cn_sendNext c) n\<rparr>))
      else (WriteBlocked, c))"

definition CloseWrite :: "conn \<Rightarrow> conn_error option \<times> conn" where
  "CloseWrite c = (if stopped c then (Some ErrClosed, c) else (None, c\<lparr>cn_localFIN := True\<rparr>))"

text \<open>The waits: \<^const>\<open>None\<close> while there is nothing to return yet.\<close>

definition WaitAcknowledged :: "conn \<Rightarrow> conn_error option option" where
  "WaitAcknowledged c = (if cn_send c = [] then Some None else if stopped c then Some (Some (stop_error c)) else None)"

definition WaitWriteClosed :: "conn \<Rightarrow> conn_error option option" where
  "WaitWriteClosed c =
     (if cn_localFIN c \<and> cn_send c = [] \<and> cn_finAcked c then Some None
      else if stopped c then Some (Some (stop_error c)) else None)"

section \<open>Failure\<close>

definition detachAll :: "conn \<Rightarrow> link list \<times> conn" where
  "detachAll c =
     (List.map_filter id [cn_active c, cn_prepared c, cn_retained c], c\<lparr>cn_active := None, cn_prepared := None, cn_retained := None\<rparr>)"

definition failTerminal :: "conn_error \<Rightarrow> conn \<Rightarrow> link list \<times> conn" where
  "failTerminal e c = detachAll (if cn_terminal c = None then c\<lparr>cn_terminal := Some e\<rparr> else c)"

definition Abort :: "bool \<Rightarrow> conn \<Rightarrow> link list \<times> conn" where
  "Abort reason c = failTerminal (if reason then ErrReason else ErrClosed) c"

text \<open>\<^verbatim>\<open>Close\<close>: whether it ends gracefully, without a reset, and the links it closes.\<close>

definition conn_Close :: "conn \<Rightarrow> (bool \<times> link list) option \<times> conn" where
  "conn_Close c =
     (if cn_closed c then (None, c)
      else let (ls, c') = detachAll (c\<lparr>cn_closed := True\<rparr>);
               graceful = (cn_localFIN c \<and> cn_send c = [] \<and> cn_finAcked c \<or> cn_remoteFIN c \<and> cn_remoteFINAt c \<le> cn_recvNext c)
           in (Some (graceful, ls), c'))"

definition watchContext :: "conn \<Rightarrow> link list \<times> conn" where
  "watchContext c = detachAll (if \<not> stopped c then c\<lparr>cn_terminal := Some ErrCause\<rparr> else c)"

text \<open>
  \<^verbatim>\<open>failCarrier\<close>: whether the carrier was in use, so that its link is closed, and, when it was the
  active one, the number under which the stream is now detached.
\<close>

definition failCarrier :: "link \<Rightarrow> conn_error \<Rightarrow> conn \<Rightarrow> bool \<times> nat option \<times> conn" where
  "failCarrier l e c =
     (let act = (cn_active c = Some l); prep = (cn_prepared c = Some l); ret = (cn_retained c = Some l); i = ca_id (carrier_of l c)
      in if \<not> act \<and> \<not> prep \<and> \<not> ret then (False, None, c)
         else let c1 = (if act then c\<lparr>cn_active := None, cn_detached := True,
                                      cn_detachedSeq := (if cn_detached c then cn_detachedSeq c else u64_add (cn_detachedSeq c) 1)\<rparr> else c);
                  c2 = (if prep then c1\<lparr>cn_prepared := None\<rparr> else c1);
                  c3 = (if ret then c2\<lparr>cn_retained := None\<rparr> else c2);
                  c4 = set_state l Failed c3;
                  c5 = offer (map_of (cn_commitWait c4) i) (Some e) (c4\<lparr>cn_commitWait := AList.delete i (cn_commitWait c4)\<rparr>);
                  c6 = offer (map_of (cn_discardWait c5) i) (Some e) (c5\<lparr>cn_discardWait := AList.delete i (cn_discardWait c5)\<rparr>)
              in (True, if act then Some (cn_detachedSeq c6) else None, c6))"

text \<open>The check of \<^verbatim>\<open>expireDetached\<close>; the failure it leads to takes the lock again.\<close>

definition expireDetached :: "nat \<Rightarrow> conn \<Rightarrow> bool" where
  "expireDetached seq c \<longleftrightarrow> cn_detached c \<and> cn_detachedSeq c = seq \<and> cn_active c = None \<and> \<not> stopped c"

section \<open>Carriers at the initiator\<close>

definition helloPrepare :: byte where
  "helloPrepare = CHR 0x01"

definition helloReady :: byte where
  "helloReady = CHR 0x02"

definition randomCarrierID :: "bytes option \<Rightarrow> conn_error + bytes" where
  "randomCarrierID r = (case r of None \<Rightarrow> Inl ErrRandomID | Some i \<Rightarrow> if i = zeroCarrier then Inl ErrRandomID else Inr i)"

text \<open>The two critical sections of \<^verbatim>\<open>PrepareCarrier\<close>: the request, and what it does with the reply.\<close>

definition prepare_request :: "bytes option \<Rightarrow> conn \<Rightarrow> conn_error + helloV2" where
  "prepare_request r c =
     (if stopped c \<or> cn_prepared c \<noteq> None \<or> cn_nextEpoch c = u64_max then Inl ErrRefused
      else case randomCarrierID r of
             Inl e \<Rightarrow> Inl e
           | Inr i \<Rightarrow> Inr \<lparr>hl_kind = helloPrepare, hl_digest = cn_identity c, hl_carrier = i, hl_epoch = u64_add (cn_nextEpoch c) 1,
                           hl_committed = cn_committed c, hl_ack = cn_recvBase c, hl_fin = cn_remoteFIN c, hl_finOffset = cn_remoteFINAt c\<rparr>)"

definition reply_matches :: "helloV2 \<Rightarrow> helloV2 \<Rightarrow> conn \<Rightarrow> bool" where
  "reply_matches request ready c \<longleftrightarrow>
     hl_kind ready = helloReady \<and> hl_digest ready = cn_identity c \<and> hl_carrier ready = hl_carrier request \<and> hl_epoch ready = hl_epoch request"

definition prepare_ready :: "link \<Rightarrow> helloV2 \<Rightarrow> helloV2 \<Rightarrow> conn \<Rightarrow> conn option" where
  "prepare_ready l request ready c =
     (if cn_sendNext c < hl_ack ready \<or> stopped c \<or> cn_prepared c \<noteq> None then None
      else Some ((new_carrier l (hl_carrier request) (hl_epoch request) Prepared (discardAcked (hl_ack ready) c))
                   \<lparr>cn_nextEpoch := hl_epoch request, cn_prepared := Some l, cn_detached := (cn_active c = None)\<rparr>))"

text \<open>\<^verbatim>\<open>PromoteCarrier\<close>: the carrier to commit and the channel to wait on, then what it finds after the wait.\<close>

definition promote_begin :: "bytes \<Rightarrow> nat \<Rightarrow> conn \<Rightarrow> (link \<times> channel \<times> conn) option" where
  "promote_begin i epoch c =
     (case cn_prepared c of
        None \<Rightarrow> None
      | Some l \<Rightarrow>
          let x = carrier_of l c
          in if ca_id x \<noteq> i \<or> ca_epoch x \<noteq> epoch \<or> ca_state x \<noteq> Prepared \<and> ca_state x \<noteq> Committing then None
             else let c1 = set_state l Committing c
                  in case map_of (cn_commitWait c1) i of
                       Some j \<Rightarrow> Some (l, j, c1)
                     | None \<Rightarrow> let (j, c2) = make_channel c1 in Some (l, j, c2\<lparr>cn_commitWait := AList.update i j (cn_commitWait c2)\<rparr>))"

definition promote_finish :: "link \<Rightarrow> conn \<Rightarrow> bool \<times> conn" where
  "promote_finish l c =
     (let x = carrier_of l c
      in (cn_active c = Some l \<and> ca_state x = Active \<and> cn_committed c = ca_epoch x,
          c\<lparr>cn_commitWait := AList.delete (ca_id x) (cn_commitWait c)\<rparr>))"

text \<open>\<^verbatim>\<open>confirmCarrier\<close> after the confirmation is written: the link that it retires.\<close>

definition confirm_written :: "link \<Rightarrow> conn \<Rightarrow> link option \<times> conn" where
  "confirm_written l c = (if cn_active c = Some l then (cn_retained c, c\<lparr>cn_retained := None\<rparr>) else (None, c))"

definition drop_begin :: "bytes \<Rightarrow> conn \<Rightarrow> (link \<times> channel \<times> conn) option" where
  "drop_begin i c =
     (case cn_prepared c of
        None \<Rightarrow> None
      | Some l \<Rightarrow>
          if ca_id (carrier_of l c) \<noteq> i \<or> state_of l c = Committing then None
          else let (j, c1) = make_channel c in Some (l, j, c1\<lparr>cn_discardWait := AList.update i j (cn_discardWait c1)\<rparr>))"

section \<open>Carriers at the responder\<close>

text \<open>
  \<^verbatim>\<open>AcceptCarrier\<close>: the decision on a request (the carrier it supersedes and the reply), and what
  follows the write of the reply.
\<close>

definition request_valid :: "helloV2 \<Rightarrow> conn \<Rightarrow> bool" where
  "request_valid request c \<longleftrightarrow> hl_kind request = helloPrepare \<and> hl_digest request = cn_identity c"

definition accept_request :: "link \<Rightarrow> helloV2 \<Rightarrow> conn \<Rightarrow> (link option \<times> helloV2 \<times> conn) option" where
  "accept_request l request c =
     (if stopped c \<or> hl_committed request \<noteq> cn_committed c \<or> hl_epoch request \<le> cn_committed c \<or>
         hl_epoch request \<le> cn_nextEpoch c \<or> cn_sendNext c < hl_ack request then None
      else case (case cn_prepared c of
                   None \<Rightarrow> Some (None, c)
                 | Some old \<Rightarrow>
                     if state_of old c = Committing \<or> hl_epoch request \<le> ca_epoch (carrier_of old c) then None
                     else if state_of old c \<noteq> Prepared \<and> state_of old c \<noteq> Provisional then None
                     else Some (Some old, (set_state old Superseded c)\<lparr>cn_prepared := None\<rparr>)) of
             None \<Rightarrow> None
           | Some (old, c1) \<Rightarrow>
               Some (old,
                     \<lparr>hl_kind = helloReady, hl_digest = cn_identity c, hl_carrier = hl_carrier request, hl_epoch = hl_epoch request,
                      hl_committed = cn_committed c, hl_ack = cn_recvBase c, hl_fin = cn_remoteFIN c, hl_finOffset = cn_remoteFINAt c\<rparr>,
                     (new_carrier l (hl_carrier request) (hl_epoch request) Provisional (discardAcked (hl_ack request) c1))
                       \<lparr>cn_nextEpoch := hl_epoch request, cn_prepared := Some l\<rparr>))"

definition accept_failed :: "link \<Rightarrow> conn \<Rightarrow> conn" where
  "accept_failed l c =
     (if cn_prepared c = Some l \<and> state_of l c = Provisional then (set_state l Failed c)\<lparr>cn_prepared := None\<rparr> else c)"

definition accept_written :: "link \<Rightarrow> conn \<Rightarrow> conn option" where
  "accept_written l c =
     (if cn_prepared c \<noteq> Some l \<or> state_of l c \<noteq> Provisional then None else Some (set_state l Prepared c))"

section \<open>Reading frames\<close>

datatype disposition = Reject | Accept | IgnoreLate

definition applicationDisposition :: "link \<Rightarrow> conn \<Rightarrow> disposition" where
  "applicationDisposition l c =
     (let st = state_of l c
      in if cn_active c = Some l \<and> st = Active \<or> cn_retained c = Some l \<and> st = Retained then Accept
         else if st = Retained \<or> st = Superseded \<or> st = Failed \<or> st = Active \<and> cn_active c \<noteq> Some l then IgnoreLate
         else Reject)"

text \<open>
  What the read loop does once it has handled a frame: read on, close its carrier and return
  (\<open>Retire\<close>), return (\<open>Return\<close>), report a violation, end the stream after a reset, acknowledge a FIN
  from a goroutine of its own, answer a commit (and then start the writer when the carrier has
  become active), answer a discard, or close the carrier that a confirmation retires.
\<close>

datatype reaction =
    ReadOn | Retire | Return | Violation string | ResetByPeer | AcknowledgeFIN nat | AnswerCommit bool | AnswerDiscard | CloseOld link

definition superseded :: "link \<Rightarrow> conn \<Rightarrow> bool" where
  "superseded l c \<longleftrightarrow> state_of l c = Superseded \<or> state_of l c = Failed"

definition application_kind :: "kind \<Rightarrow> bool" where
  "application_kind k \<longleftrightarrow> k = Data \<or> k = Ack \<or> k = FIN \<or> k = FINAck"

text \<open>What a frame of the application gets before the lock is taken again: \<^const>\<open>None\<close> when it is accepted.\<close>

definition dispose :: "link \<Rightarrow> kind \<Rightarrow> conn \<Rightarrow> reaction option" where
  "dispose l k c =
     (case applicationDisposition l c of
        Accept \<Rightarrow> None
      | IgnoreLate \<Rightarrow> Some ReadOn
      | Reject \<Rightarrow>
          Some (case k of
                  Data \<Rightarrow> Violation ''data_carrier_not_application''
                | Ack \<Rightarrow> ReadOn
                | FIN \<Rightarrow> Violation ''fin_carrier_not_application''
                | _ \<Rightarrow> Violation ''fin_ack_carrier_not_application''))"

definition on_Data :: "nat \<Rightarrow> bytes \<Rightarrow> conn \<Rightarrow> reaction \<times> conn" where
  "on_Data sequence payload c =
     (if cn_recvNext c < sequence then (Violation ''data_sequence_gap'', c)
      else let final = u64_add sequence (length payload)
           in if cn_recvNext c < final
              then (let start = u64_sub (cn_recvNext c) sequence
                    in if cn_window c + start < length (cn_recv c) + length payload then (Violation ''data_window_exceeded'', c)
                       else (ReadOn, c\<lparr>cn_recv := cn_recv c @ drop start payload, cn_recvNext := final\<rparr>))
              else (ReadOn, c))"

definition on_Ack :: "nat \<Rightarrow> conn \<Rightarrow> reaction \<times> conn" where
  "on_Ack sequence c =
     (if cn_sendNext c < sequence then (Violation ''ack_beyond_send_next'', c) else (ReadOn, discardAcked sequence c))"

definition on_FIN :: "nat \<Rightarrow> conn \<Rightarrow> reaction \<times> conn" where
  "on_FIN sequence c =
     (if sequence < cn_recvNext c \<or> cn_remoteFIN c \<and> sequence = cn_remoteFINAt c then (ReadOn, c)
      else if cn_recvNext c < sequence \<or> cn_remoteFIN c then (Violation ''fin_sequence_mismatch'', c)
      else (AcknowledgeFIN sequence, c\<lparr>cn_remoteFIN := True, cn_remoteFINAt := sequence\<rparr>))"

definition on_FINAck :: "nat \<Rightarrow> conn \<Rightarrow> reaction \<times> conn" where
  "on_FINAck sequence c =
     (if \<not> cn_localFIN c \<or> sequence \<noteq> cn_sendNext c then (Violation ''fin_ack_state_mismatch'', c)
      else (ReadOn, c\<lparr>cn_finAcked := True\<rparr>))"

definition on_Reset :: "conn \<Rightarrow> reaction \<times> conn" where
  "on_Reset c = (if cn_remoteFIN c \<and> cn_remoteFINAt c \<le> cn_recvNext c then (Return, c) else (ResetByPeer, c))"

text \<open>The exchange of carriers that \<^verbatim>\<open>COMMIT\<close> and \<^verbatim>\<open>COMMIT_ACK\<close> share.\<close>

definition activate :: "link \<Rightarrow> conn \<Rightarrow> conn" where
  "activate l c =
     (let c1 = (case cn_active c of None \<Rightarrow> c | Some old \<Rightarrow> set_state old Retained c)
      in (set_state l Active c1)
           \<lparr>cn_retained := cn_active c, cn_active := Some l, cn_prepared := None, cn_committed := ca_epoch (carrier_of l c), cn_detached := False\<rparr>)"

definition on_Commit :: "link \<Rightarrow> frame \<Rightarrow> conn \<Rightarrow> reaction \<times> conn" where
  "on_Commit l f c =
     (let x = carrier_of l c
      in if cn_role c \<noteq> RoleResponder \<or> fr_seq f \<noteq> ca_epoch x \<or> fr_payload f \<noteq> [] then (Violation ''commit_shape_or_role'', c)
         else if superseded l c then (Retire, c)
         else if cn_active c = Some l \<and> cn_committed c = ca_epoch x then (AnswerCommit False, c)
         else if cn_prepared c \<noteq> Some l \<or> ca_state x \<noteq> Prepared \<and> ca_state x \<noteq> Committing
         then (Violation ''commit_carrier_not_prepared'', c)
         else (AnswerCommit True, activate l c))"

definition on_CommitAck :: "link \<Rightarrow> frame \<Rightarrow> conn \<Rightarrow> reaction \<times> conn" where
  "on_CommitAck l f c =
     (let x = carrier_of l c
      in if cn_role c \<noteq> RoleInitiator \<or> fr_seq f \<noteq> ca_epoch x \<or> fr_payload f \<noteq> [] then (Violation ''commit_ack_shape_or_role'', c)
         else if cn_prepared c \<noteq> Some l \<or> ca_state x \<noteq> Committing then (Violation ''commit_ack_carrier_not_committing'', c)
         else (ReadOn, offer (map_of (cn_commitWait c) (ca_id x)) None (activate l c)))"

definition on_Confirm :: "link \<Rightarrow> frame \<Rightarrow> conn \<Rightarrow> reaction \<times> conn" where
  "on_Confirm l f c =
     (if cn_role c \<noteq> RoleResponder \<or> fr_seq f \<noteq> ca_epoch (carrier_of l c) \<or> fr_payload f \<noteq> [] then (Violation ''confirm_shape_or_role'', c)
      else if superseded l c then (Retire, c)
      else case cn_retained c of
             None \<Rightarrow> (ReadOn, c)
           | Some old \<Rightarrow> (CloseOld old, c\<lparr>cn_retained := None\<rparr>))"

definition on_Discard :: "link \<Rightarrow> frame \<Rightarrow> conn \<Rightarrow> reaction \<times> conn" where
  "on_Discard l f c =
     (if cn_role c \<noteq> RoleResponder \<or> fr_seq f \<noteq> ca_epoch (carrier_of l c) \<or> fr_payload f \<noteq> [] then (Violation ''discard_shape_or_role'', c)
      else if superseded l c then (Retire, c)
      else if cn_prepared c \<noteq> Some l \<or> state_of l c \<noteq> Prepared then (Violation ''discard_carrier_not_prepared'', c)
      else (AnswerDiscard, c\<lparr>cn_prepared := None\<rparr>))"

definition on_DiscardAck :: "link \<Rightarrow> frame \<Rightarrow> conn \<Rightarrow> reaction \<times> conn" where
  "on_DiscardAck l f c =
     (let i = ca_id (carrier_of l c)
      in if cn_role c \<noteq> RoleInitiator \<or> fr_seq f \<noteq> ca_epoch (carrier_of l c) \<or> fr_payload f \<noteq> [] then (Violation ''discard_ack_shape_or_role'', c)
         else if cn_prepared c \<noteq> Some l \<or> state_of l c \<noteq> Prepared then (Violation ''discard_ack_carrier_not_prepared'', c)
         else (ReadOn, offer (map_of (cn_discardWait c) i) None (c\<lparr>cn_prepared := None, cn_discardWait := AList.delete i (cn_discardWait c)\<rparr>)))"

definition on_frame :: "link \<Rightarrow> frame \<Rightarrow> conn \<Rightarrow> reaction \<times> conn" where
  "on_frame l f c =
     (case fr_kind f of
        Data \<Rightarrow> on_Data (fr_seq f) (fr_payload f) c
      | Ack \<Rightarrow> on_Ack (fr_seq f) c
      | FIN \<Rightarrow> on_FIN (fr_seq f) c
      | FINAck \<Rightarrow> on_FINAck (fr_seq f) c
      | Reset \<Rightarrow> on_Reset c
      | Commit \<Rightarrow> on_Commit l f c
      | CommitAck \<Rightarrow> on_CommitAck l f c
      | Confirm \<Rightarrow> on_Confirm l f c
      | Discard \<Rightarrow> on_Discard l f c
      | DiscardAck \<Rightarrow> on_DiscardAck l f c)"

section \<open>Writing frames\<close>

abbreviation control :: "kind \<Rightarrow> link \<Rightarrow> conn \<Rightarrow> frame" where
  "control k l c \<equiv> \<lparr>fr_kind = k, fr_seq = ca_epoch (carrier_of l c), fr_payload = []\<rparr>"

text \<open>One round of \<^verbatim>\<open>writeActive\<close>: what it writes, and the offset it goes on from.\<close>

datatype loop_step = LoopExit | SendData frame nat | SendFIN frame nat | LoopWait nat

definition writeActive :: "link \<Rightarrow> nat \<Rightarrow> conn \<Rightarrow> loop_step" where
  "writeActive l offset c =
     (if cn_active c \<noteq> Some l \<or> stopped c then LoopExit
      else let off = max offset (cn_sendBase c)
           in if off < cn_sendNext c
              then (let start = u64_sub off (cn_sendBase c);
                        n = min maximumFrame (length (cn_send c) - start)
                    in SendData \<lparr>fr_kind = Data, fr_seq = off, fr_payload = slice (cn_send c) start (start + n)\<rparr> (u64_add off n))
              else if cn_localFIN c \<and> \<not> cn_finAcked c \<and> cn_finSent c \<noteq> ca_id (carrier_of l c)
              then SendFIN \<lparr>fr_kind = FIN, fr_seq = cn_sendNext c, fr_payload = []\<rparr> off
              else LoopWait off)"

definition fin_written :: "link \<Rightarrow> conn \<Rightarrow> conn" where
  "fin_written l c = (if cn_active c = Some l then c\<lparr>cn_finSent := ca_id (carrier_of l c)\<rparr> else c)"

text \<open>\<^verbatim>\<open>writeAcknowledgements\<close>: the acknowledgement that is due, and what it records once it is written.\<close>

definition ack_due :: "conn \<Rightarrow> (link \<times> frame) option" where
  "ack_due c =
     (case cn_active c of
        None \<Rightarrow> None
      | Some l \<Rightarrow>
          if cn_ackCarrier c = ca_id (carrier_of l c) \<and> cn_recvBase c \<le> cn_ackOffset c then None
          else Some (l, \<lparr>fr_kind = Ack, fr_seq = cn_recvBase c, fr_payload = []\<rparr>))"

definition ack_written :: "link \<Rightarrow> nat \<Rightarrow> conn \<Rightarrow> conn" where
  "ack_written l offset c =
     (if cn_active c = Some l
      then c\<lparr>cn_ackCarrier := ca_id (carrier_of l c), cn_ackOffset := max offset (cn_ackOffset c)\<rparr>
      else c)"

end
