(* ===== verification/Resumable_System.thy ===== *)
theory Resumable_System
  imports Resumable_Conn
begin

text \<open>
  Both ends of a resumable stream, the goroutines of each end, and the links between them, as an
  executable transition system. A step is one critical section or one network call of one
  goroutine of \<^verbatim>\<open>internal/peertransport/resumablestream/conn.go\<close>, so every interleaving of the
  goroutines is a sequence of steps.

  At each end there is the goroutine that holds \<open>transitionMu\<close> (the coordinator: a call of
  \<^verbatim>\<open>PrepareCarrier\<close>, \<^verbatim>\<open>PromoteCarrier\<close>, \<^verbatim>\<open>DropPrepared\<close> or \<^verbatim>\<open>AcceptCarrier\<close>; a call that still waits for
  the mutex has done nothing yet), one read loop for each link, and any number of writers.

  A link delivers in each direction the messages that were written to it, in order, until it
  fails: a write may fail at any time, with or without its message arriving, and then nothing
  more gets through in that direction; a read may fail at any time. What the network does
  is an argument of the step.
\<close>

section \<open>State\<close>

datatype side = Initiator | Responder

fun other :: "side \<Rightarrow> side" where
  "other Initiator = Responder"
| "other Responder = Initiator"

lemma other_other [simp]: "other (other a) = a"
  by (cases a) simp_all

lemma other_neq [simp]: "other a \<noteq> a" "a \<noteq> other a"
  by (cases a; simp)+

lemma side_cases: "b = a \<or> b = other a"
  by (cases a; cases b) simp_all

datatype msg = MHello helloV2 | MFrame frame

text \<open>What happens to a network call or a wait: it works, it fails (before or after the message has arrived), or the caller gives up.\<close>

datatype env = Works | Breaks | BreaksLate | GivesUp

datatype coordinator =
    Idle
  | HelloWrite link helloV2
  | HelloRead link helloV2
  | HelloReply link helloV2 helloV2
  | ReaderStart link
  | WriteCommit link channel
  | PromoteWait link channel
  | PromoteEnd link
  | WriteDiscard link channel
  | DropWait link channel
  | CoordinatorFails link
  | AcceptRead link
  | AcceptDecide link helloV2
  | AcceptWrite link helloV2 "link option"
  | AcceptFailed link "link option"
  | AcceptDone link "link option"

datatype reader =
    Unused
  | Attaching
  | Reading
  | Checking frame
  | Disposing frame
  | Applying frame
  | Answering bool
  | AnsweringDiscard
  | Violating string
  | Ending
  | ReadFails
  | Stopped

datatype goroutine =
    WriteLoop link nat
  | WriteData link frame nat
  | WriteFIN link frame nat
  | MarkFIN link nat
  | Acks
  | WriteAck link frame
  | MarkAck link nat
  | WriteFINAck link frame
  | FailCarrier link bool
  | WriteConfirm link
  | MarkConfirm link
  | Expire nat
  | Terminate conn_error
  | WriteReset link
  | CloseLink link

text \<open>
  The last four fields are ghosts: what each application has written and read, whether it has
  read the end of the stream, and whether a goroutine has panicked.
\<close>

record sys =
  sy_conn :: "side \<Rightarrow> conn"
  sy_coordinator :: "side \<Rightarrow> coordinator"
  sy_reader :: "side \<Rightarrow> link \<Rightarrow> reader"
  sy_go :: "side \<Rightarrow> goroutine list"
  sy_queue :: "side \<Rightarrow> link \<Rightarrow> msg list"
  sy_broken :: "side \<Rightarrow> link \<Rightarrow> bool"
  sy_shut :: "side \<Rightarrow> link \<Rightarrow> bool"
  sy_written :: "side \<Rightarrow> bytes"
  sy_read :: "side \<Rightarrow> bytes"
  sy_eof :: "side \<Rightarrow> bool"
  sy_panic :: bool

definition set_conn :: "side \<Rightarrow> conn \<Rightarrow> sys \<Rightarrow> sys" where
  "set_conn a c s = s\<lparr>sy_conn := (sy_conn s)(a := c)\<rparr>"

definition set_coordinator :: "side \<Rightarrow> coordinator \<Rightarrow> sys \<Rightarrow> sys" where
  "set_coordinator a p s = s\<lparr>sy_coordinator := (sy_coordinator s)(a := p)\<rparr>"

definition set_reader :: "side \<Rightarrow> link \<Rightarrow> reader \<Rightarrow> sys \<Rightarrow> sys" where
  "set_reader a l r s = s\<lparr>sy_reader := (sy_reader s)(a := (sy_reader s a)(l := r))\<rparr>"

definition spawn :: "side \<Rightarrow> goroutine list \<Rightarrow> sys \<Rightarrow> sys" where
  "spawn a gs s = s\<lparr>sy_go := (sy_go s)(a := sy_go s a @ gs)\<rparr>"

definition set_queue :: "side \<Rightarrow> link \<Rightarrow> msg list \<Rightarrow> sys \<Rightarrow> sys" where
  "set_queue a l q s = s\<lparr>sy_queue := (sy_queue s)(a := (sy_queue s a)(l := q))\<rparr>"

definition break_link :: "side \<Rightarrow> link \<Rightarrow> sys \<Rightarrow> sys" where
  "break_link a l s = s\<lparr>sy_broken := (sy_broken s)(a := (sy_broken s a)(l := True))\<rparr>"

definition shut :: "side \<Rightarrow> link \<Rightarrow> sys \<Rightarrow> sys" where
  "shut a l s = s\<lparr>sy_shut := (sy_shut s)(a := (sy_shut s a)(l := True))\<rparr>"

section \<open>The network\<close>

definition send_msg :: "side \<Rightarrow> link \<Rightarrow> msg \<Rightarrow> env \<Rightarrow> sys \<Rightarrow> bool \<times> sys" where
  "send_msg a l m e s =
     (if sy_shut s a l \<or> sy_broken s a l then (False, s)
      else let arrived = set_queue (other a) l (sy_queue s (other a) l @ [m]) s
           in case e of
                Works \<Rightarrow> (True, arrived)
              | BreaksLate \<Rightarrow> (False, break_link a l arrived)
              | _ \<Rightarrow> (False, break_link a l s))"

datatype read_outcome = Failed_read | Blocked | Read_msg msg

definition read_msg :: "side \<Rightarrow> link \<Rightarrow> env \<Rightarrow> sys \<Rightarrow> read_outcome \<times> sys" where
  "read_msg a l e s =
     (if sy_shut s a l \<or> e \<noteq> Works then (Failed_read, s)
      else case sy_queue s a l of
             [] \<Rightarrow> (Blocked, s)
           | m # q \<Rightarrow> (Read_msg m, set_queue a l q s))"

section \<open>The coordinator\<close>

text \<open>An exit of \<^verbatim>\<open>PrepareCarrier\<close> or \<^verbatim>\<open>AcceptCarrier\<close> with an error: the link is closed.\<close>

definition abandon :: "side \<Rightarrow> link \<Rightarrow> sys \<Rightarrow> sys" where
  "abandon a l s = set_coordinator a Idle (set_reader a l Stopped (shut a l s))"

definition close_old :: "link option \<Rightarrow> goroutine list" where
  "close_old old = (case old of None \<Rightarrow> [] | Some l \<Rightarrow> [CloseLink l])"

text \<open>\<^verbatim>\<open>failCarrier\<close> with the goroutine it starts; the link is closed when the carrier was in use.\<close>

definition fail_carrier :: "side \<Rightarrow> link \<Rightarrow> sys \<Rightarrow> sys" where
  "fail_carrier a l s =
     (case failCarrier l ErrLink (sy_conn s a) of
        (used, det, c) \<Rightarrow>
          let s1 = set_conn a c s; s2 = (if used then shut a l s1 else s1)
          in (case det of None \<Rightarrow> s2 | Some q \<Rightarrow> spawn a [Expire q] s2))"

definition prepare_step :: "side \<Rightarrow> env \<Rightarrow> sys \<Rightarrow> sys" where
  "prepare_step a e s =
     (case sy_coordinator s a of
        HelloWrite l h \<Rightarrow>
          (case send_msg a l (MHello h) e s of
             (True, s1) \<Rightarrow> set_coordinator a (HelloRead l h) s1
           | (False, s1) \<Rightarrow> abandon a l s1)
      | HelloRead l h \<Rightarrow>
          (case read_msg a l e s of
             (Blocked, s1) \<Rightarrow> s1
           | (Read_msg (MHello h'), s1) \<Rightarrow> set_coordinator a (HelloReply l h h') s1
           | (_, s1) \<Rightarrow> abandon a l s1)
      | HelloReply l h h' \<Rightarrow>
          if \<not> reply_matches h h' (sy_conn s a) then abandon a l s
          else (case prepare_ready l h h' (sy_conn s a) of
                  None \<Rightarrow> abandon a l s
                | Some c \<Rightarrow> set_coordinator a (ReaderStart l) (set_conn a c s))
      | ReaderStart l \<Rightarrow>
          (case cn_prepared (sy_conn s a) of
             None \<Rightarrow> set_coordinator a Idle (set_reader a l Stopped (s\<lparr>sy_panic := True\<rparr>))
           | Some l' \<Rightarrow> set_coordinator a Idle (set_reader a l' Reading (set_reader a l Stopped s)))
      | _ \<Rightarrow> s)"

definition promote_step :: "side \<Rightarrow> env \<Rightarrow> sys \<Rightarrow> sys" where
  "promote_step a e s =
     (case sy_coordinator s a of
        WriteCommit l j \<Rightarrow>
          (case send_msg a l (MFrame (control Commit l (sy_conn s a))) e s of
             (True, s1) \<Rightarrow> set_coordinator a (PromoteWait l j) s1
           | (False, s1) \<Rightarrow> set_coordinator a (CoordinatorFails l) s1)
      | PromoteWait l j \<Rightarrow>
          if e = GivesUp then set_coordinator a Idle s
          else (case receive j (sy_conn s a) of
                  None \<Rightarrow> s
                | Some (None, c) \<Rightarrow> set_coordinator a (PromoteEnd l) (set_conn a c s)
                | Some (Some _, c) \<Rightarrow> set_coordinator a Idle (set_conn a c s))
      | PromoteEnd l \<Rightarrow>
          (case promote_finish l (sy_conn s a) of
             (True, c) \<Rightarrow> spawn a [WriteConfirm l] (set_coordinator a Idle (set_conn a c s))
           | (False, c) \<Rightarrow> set_coordinator a Idle (set_conn a c s))
      | _ \<Rightarrow> s)"

definition drop_step :: "side \<Rightarrow> env \<Rightarrow> sys \<Rightarrow> sys" where
  "drop_step a e s =
     (case sy_coordinator s a of
        WriteDiscard l j \<Rightarrow>
          (case send_msg a l (MFrame (control Discard l (sy_conn s a))) e s of
             (True, s1) \<Rightarrow> set_coordinator a (DropWait l j) s1
           | (False, s1) \<Rightarrow> set_coordinator a (CoordinatorFails l) s1)
      | DropWait l j \<Rightarrow>
          if e = GivesUp then set_coordinator a Idle s
          else (case receive j (sy_conn s a) of
                  None \<Rightarrow> s
                | Some (None, c) \<Rightarrow> set_coordinator a Idle (shut a l (set_conn a c s))
                | Some (Some _, c) \<Rightarrow> set_coordinator a Idle (set_conn a c s))
      | CoordinatorFails l \<Rightarrow> set_coordinator a Idle (fail_carrier a l s)
      | _ \<Rightarrow> s)"

definition accept_step :: "side \<Rightarrow> env \<Rightarrow> sys \<Rightarrow> sys" where
  "accept_step a e s =
     (case sy_coordinator s a of
        AcceptRead l \<Rightarrow>
          (case read_msg a l e s of
             (Blocked, s1) \<Rightarrow> s1
           | (Read_msg (MHello h), s1) \<Rightarrow>
               if request_valid h (sy_conn s a) then set_coordinator a (AcceptDecide l h) s1 else abandon a l s1
           | (_, s1) \<Rightarrow> abandon a l s1)
      | AcceptDecide l h \<Rightarrow>
          (case accept_request l h (sy_conn s a) of
             None \<Rightarrow> abandon a l s
           | Some (old, h', c) \<Rightarrow> set_coordinator a (AcceptWrite l h' old) (set_conn a c s))
      | AcceptWrite l h old \<Rightarrow>
          (case send_msg a l (MHello h) e s of
             (True, s1) \<Rightarrow> set_coordinator a (AcceptDone l old) s1
           | (False, s1) \<Rightarrow> set_coordinator a (AcceptFailed l old) s1)
      | AcceptFailed l old \<Rightarrow> spawn a (close_old old) (abandon a l (set_conn a (accept_failed l (sy_conn s a)) s))
      | AcceptDone l old \<Rightarrow>
          (case accept_written l (sy_conn s a) of
             None \<Rightarrow> spawn a (close_old old) (abandon a l s)
           | Some c \<Rightarrow> spawn a (close_old old) (set_coordinator a Idle (set_reader a l Reading (set_conn a c s))))
      | _ \<Rightarrow> s)"

definition coordinator_step :: "side \<Rightarrow> env \<Rightarrow> sys \<Rightarrow> sys" where
  "coordinator_step a e s =
     (case sy_coordinator s a of
        HelloWrite _ _ \<Rightarrow> prepare_step a e s
      | HelloRead _ _ \<Rightarrow> prepare_step a e s
      | HelloReply _ _ _ \<Rightarrow> prepare_step a e s
      | ReaderStart _ \<Rightarrow> prepare_step a e s
      | WriteCommit _ _ \<Rightarrow> promote_step a e s
      | PromoteWait _ _ \<Rightarrow> promote_step a e s
      | PromoteEnd _ \<Rightarrow> promote_step a e s
      | WriteDiscard _ _ \<Rightarrow> drop_step a e s
      | DropWait _ _ \<Rightarrow> drop_step a e s
      | CoordinatorFails _ \<Rightarrow> drop_step a e s
      | Idle \<Rightarrow> s
      | _ \<Rightarrow> accept_step a e s)"

section \<open>The read loops\<close>

text \<open>At the responder a commit, a confirmation and a discard wait for the transition lock, as does \<^verbatim>\<open>failCarrier\<close>.\<close>

definition needs_transition :: "link \<Rightarrow> frame \<Rightarrow> conn \<Rightarrow> bool" where
  "needs_transition l f c \<longleftrightarrow>
     (fr_kind f = Commit \<or> fr_kind f = Confirm \<or> fr_kind f = Discard) \<and>
     cn_role c = RoleResponder \<and> fr_seq f = ca_epoch (carrier_of l c) \<and> fr_payload f = []"

definition terminate :: "side \<Rightarrow> conn_error \<Rightarrow> sys \<Rightarrow> sys" where
  "terminate a e s = (case failTerminal e (sy_conn s a) of (ls, c) \<Rightarrow> spawn a (map CloseLink ls) (set_conn a c s))"

definition react :: "side \<Rightarrow> link \<Rightarrow> reaction \<Rightarrow> sys \<Rightarrow> sys" where
  "react a l r s =
     (case r of
        ReadOn \<Rightarrow> set_reader a l Reading s
      | Retire \<Rightarrow> set_reader a l Stopped (shut a l s)
      | Return \<Rightarrow> set_reader a l Stopped s
      | Violation st \<Rightarrow> set_reader a l (Violating st) s
      | ResetByPeer \<Rightarrow> set_reader a l Ending s
      | AcknowledgeFIN n \<Rightarrow>
          spawn a [WriteFINAck l \<lparr>fr_kind = FINAck, fr_seq = n, fr_payload = []\<rparr>] (set_reader a l Reading s)
      | AnswerCommit new \<Rightarrow> set_reader a l (Answering new) s
      | AnswerDiscard \<Rightarrow> set_reader a l AnsweringDiscard s
      | CloseOld old \<Rightarrow> spawn a [CloseLink old] (set_reader a l Reading s))"

definition reader_step :: "side \<Rightarrow> link \<Rightarrow> env \<Rightarrow> sys \<Rightarrow> sys" where
  "reader_step a l e s =
     (let c = sy_conn s a
      in case sy_reader s a l of
           Reading \<Rightarrow>
             (case read_msg a l e s of
                (Blocked, s1) \<Rightarrow> s1
              | (Read_msg (MFrame f), s1) \<Rightarrow> set_reader a l (Checking f) s1
              | (_, s1) \<Rightarrow> set_reader a l ReadFails s1)
         | Checking f \<Rightarrow>
             if superseded l c then set_reader a l Stopped (shut a l s)
             else set_reader a l (if application_kind (fr_kind f) then Disposing f else Applying f) s
         | Disposing f \<Rightarrow>
             (case dispose l (fr_kind f) c of None \<Rightarrow> set_reader a l (Applying f) s | Some r \<Rightarrow> react a l r s)
         | Applying f \<Rightarrow>
             if needs_transition l f c \<and> sy_coordinator s a \<noteq> Idle then s
             else (case on_frame l f c of (r, c') \<Rightarrow> react a l r (set_conn a c' s))
         | Answering new \<Rightarrow>
             (case send_msg a l (MFrame (control CommitAck l c)) e s of
                (True, s1) \<Rightarrow> spawn a (if new then [WriteLoop l 0] else []) (set_reader a l Reading s1)
              | (False, s1) \<Rightarrow> set_reader a l ReadFails s1)
         | AnsweringDiscard \<Rightarrow>
             (case send_msg a l (MFrame (control DiscardAck l c)) e s of
                (_, s1) \<Rightarrow> set_reader a l Stopped (shut a l s1))
         | Violating st \<Rightarrow> set_reader a l Stopped (terminate a (ErrProtocolViolation st) s)
         | Ending \<Rightarrow> set_reader a l Stopped (terminate a ErrClosed s)
         | ReadFails \<Rightarrow>
             if cn_role c = RoleResponder \<and> sy_coordinator s a \<noteq> Idle then s
             else set_reader a l Stopped (fail_carrier a l s)
         | _ \<Rightarrow> s)"

section \<open>The writers\<close>

text \<open>A step of a goroutine: what it goes on as, and the new state.\<close>

definition go_step :: "side \<Rightarrow> env \<Rightarrow> goroutine \<Rightarrow> sys \<Rightarrow> goroutine list \<times> sys" where
  "go_step a e g s =
     (let c = sy_conn s a
      in case g of
           WriteLoop l off \<Rightarrow>
             (case writeActive l off c of
                LoopExit \<Rightarrow> ([], s)
              | SendData f off' \<Rightarrow> ([WriteData l f off'], s)
              | SendFIN f off' \<Rightarrow> ([WriteFIN l f off'], s)
              | LoopWait off' \<Rightarrow> (if e = GivesUp then [] else [WriteLoop l off'], s))
         | WriteData l f off \<Rightarrow>
             (case send_msg a l (MFrame f) e s of
                (ok, s1) \<Rightarrow> ([if ok then WriteLoop l off else FailCarrier l False], s1))
         | WriteFIN l f off \<Rightarrow>
             (case send_msg a l (MFrame f) e s of
                (ok, s1) \<Rightarrow> ([if ok then MarkFIN l off else FailCarrier l False], s1))
         | MarkFIN l off \<Rightarrow> ([WriteLoop l off], set_conn a (fin_written l c) s)
         | Acks \<Rightarrow>
             (case ack_due c of
                None \<Rightarrow> (if e = GivesUp then [] else [Acks], s)
              | Some (l, f) \<Rightarrow> ([WriteAck l f], s))
         | WriteAck l f \<Rightarrow>
             (case send_msg a l (MFrame f) e s of
                (ok, s1) \<Rightarrow> ([if ok then MarkAck l (fr_seq f) else FailCarrier l True], s1))
         | MarkAck l off \<Rightarrow> ([Acks], set_conn a (ack_written l off c) s)
         | WriteFINAck l f \<Rightarrow>
             (case send_msg a l (MFrame f) e s of
                (ok, s1) \<Rightarrow> (if ok then [] else [FailCarrier l False], s1))
         | FailCarrier l resume \<Rightarrow>
             if cn_role c = RoleResponder \<and> sy_coordinator s a \<noteq> Idle then ([g], s)
             else (if resume then [Acks] else [], fail_carrier a l s)
         | WriteConfirm l \<Rightarrow>
             (case send_msg a l (MFrame (control Confirm l c)) e s of
                (ok, s1) \<Rightarrow> ([if ok then MarkConfirm l else WriteLoop l 0], s1))
         | MarkConfirm l \<Rightarrow>
             (case confirm_written l c of
                (old, c') \<Rightarrow> (close_old old @ [WriteLoop l 0], set_conn a c' s))
         | Expire q \<Rightarrow> (if expireDetached q c then [Terminate ErrExpired] else [], s)
         | Terminate err \<Rightarrow> ([], terminate a err s)
         | WriteReset l \<Rightarrow>
             (case send_msg a l (MFrame \<lparr>fr_kind = Reset, fr_seq = 0, fr_payload = []\<rparr>) e s of
                (_, s1) \<Rightarrow> ([CloseLink l], s1))
         | CloseLink l \<Rightarrow> ([], shut a l s))"

definition goroutine_step :: "side \<Rightarrow> nat \<Rightarrow> env \<Rightarrow> sys \<Rightarrow> sys" where
  "goroutine_step a i e s =
     (if i < length (sy_go s a)
      then (case go_step a e (sy_go s a ! i) s of
              (gs, s1) \<Rightarrow> s1\<lparr>sy_go := (sy_go s1)(a := take i (sy_go s1 a) @ gs @ drop (Suc i) (sy_go s1 a))\<rparr>)
      else s)"

section \<open>Calls\<close>

datatype op =
    Coordinate side env
  | ReadStep side link env
  | GoStep side nat env
  | CallRead side nat
  | CallWrite side bytes
  | CallCloseWrite side
  | CallClose side
  | CallAbort side bool
  | ContextDone side
  | CallPrepare link "bytes option"
  | CallPromote bytes nat
  | CallDrop bytes
  | CallAccept link

text \<open>
  A link is handed to each end once. \<^verbatim>\<open>PrepareCarrier\<close> closes it when the stream cannot take a
  new carrier.
\<close>

definition call_prepare :: "link \<Rightarrow> bytes option \<Rightarrow> sys \<Rightarrow> sys" where
  "call_prepare l r s =
     (if sy_coordinator s Initiator \<noteq> Idle \<or> sy_reader s Initiator l \<noteq> Unused then s
      else case prepare_request r (sy_conn s Initiator) of
             Inl _ \<Rightarrow> set_reader Initiator l Stopped (shut Initiator l s)
           | Inr h \<Rightarrow> set_coordinator Initiator (HelloWrite l h) (set_reader Initiator l Attaching s))"

definition call_accept :: "link \<Rightarrow> sys \<Rightarrow> sys" where
  "call_accept l s =
     (if sy_coordinator s Responder \<noteq> Idle \<or> sy_reader s Responder l \<noteq> Unused then s
      else set_coordinator Responder (AcceptRead l) (set_reader Responder l Attaching s))"

definition call_promote :: "bytes \<Rightarrow> nat \<Rightarrow> sys \<Rightarrow> sys" where
  "call_promote i epoch s =
     (if sy_coordinator s Initiator \<noteq> Idle \<or> i = zeroCarrier \<or> epoch = 0 then s
      else case promote_begin i epoch (sy_conn s Initiator) of
             None \<Rightarrow> s
           | Some (l, j, c) \<Rightarrow> set_coordinator Initiator (WriteCommit l j) (set_conn Initiator c s))"

definition call_drop :: "bytes \<Rightarrow> sys \<Rightarrow> sys" where
  "call_drop i s =
     (if sy_coordinator s Initiator \<noteq> Idle \<or> i = zeroCarrier then s
      else case drop_begin i (sy_conn s Initiator) of
             None \<Rightarrow> s
           | Some (l, j, c) \<Rightarrow> set_coordinator Initiator (WriteDiscard l j) (set_conn Initiator c s))"

definition call_read :: "side \<Rightarrow> nat \<Rightarrow> sys \<Rightarrow> sys" where
  "call_read a n s =
     (case conn_Read n (sy_conn s a) of
        (Got bs, c) \<Rightarrow> (set_conn a c s)\<lparr>sy_read := (sy_read s)(a := sy_read s a @ bs)\<rparr>
      | (ReadEOF, c) \<Rightarrow> (set_conn a c s)\<lparr>sy_eof := (sy_eof s)(a := True)\<rparr>
      | (_, c) \<Rightarrow> set_conn a c s)"

definition call_write :: "side \<Rightarrow> bytes \<Rightarrow> sys \<Rightarrow> sys" where
  "call_write a data s =
     (case conn_Write data (sy_conn s a) of
        (Took n, c) \<Rightarrow> (set_conn a c s)\<lparr>sy_written := (sy_written s)(a := sy_written s a @ take n data)\<rparr>
      | (_, c) \<Rightarrow> set_conn a c s)"

definition call_close :: "side \<Rightarrow> sys \<Rightarrow> sys" where
  "call_close a s =
     (case conn_Close (sy_conn s a) of
        (None, c) \<Rightarrow> set_conn a c s
      | (Some (graceful, ls), c) \<Rightarrow> spawn a (map (if graceful then CloseLink else WriteReset) ls) (set_conn a c s))"

fun sys_exec :: "op \<Rightarrow> sys \<Rightarrow> sys" where
  "sys_exec (Coordinate a e) s = coordinator_step a e s"
| "sys_exec (ReadStep a l e) s = reader_step a l e s"
| "sys_exec (GoStep a i e) s = goroutine_step a i e s"
| "sys_exec (CallRead a n) s = call_read a n s"
| "sys_exec (CallWrite a data) s = call_write a data s"
| "sys_exec (CallCloseWrite a) s = set_conn a (snd (CloseWrite (sy_conn s a))) s"
| "sys_exec (CallClose a) s = call_close a s"
| "sys_exec (CallAbort a reason) s =
     (case Abort reason (sy_conn s a) of (ls, c) \<Rightarrow> spawn a (map CloseLink ls) (set_conn a c s))"
| "sys_exec (ContextDone a) s =
     (case watchContext (sy_conn s a) of (ls, c) \<Rightarrow> spawn a (map WriteReset ls) (set_conn a c s))"
| "sys_exec (CallPrepare l r) s = call_prepare l r s"
| "sys_exec (CallPromote i epoch) s = call_promote i epoch s"
| "sys_exec (CallDrop i) s = call_drop i s"
| "sys_exec (CallAccept l) s = call_accept l s"

text \<open>\<^verbatim>\<open>New\<close> at both ends: each starts the goroutine that writes acknowledgements.\<close>

definition new_sys :: "conn \<Rightarrow> conn \<Rightarrow> sys" where
  "new_sys ci cr =
     \<lparr>sy_conn = (\<lambda>a. case a of Initiator \<Rightarrow> ci | Responder \<Rightarrow> cr), sy_coordinator = (\<lambda>_. Idle), sy_reader = (\<lambda>_ _. Unused),
      sy_go = (\<lambda>_. [Acks]), sy_queue = (\<lambda>_ _. []), sy_broken = (\<lambda>_ _. False), sy_shut = (\<lambda>_ _. False),
      sy_written = (\<lambda>_. []), sy_read = (\<lambda>_. []), sy_eof = (\<lambda>_. False), sy_panic = False\<rparr>"

end
