(* ===== verification/Resumable_Flow.thy ===== *)
theory Resumable_Flow
  imports Resumable_System
begin

text \<open>
  What one direction of a resumable stream keeps: the relation between the bytes the sending
  application has written, the two ends of the connection and the bytes the receiving
  application has read; which frames an end may have in flight; and how the operations of
  one end change them. The operations of the coordinator leave all of it alone.
\<close>

section \<open>The flow of one direction\<close>

text \<open>\<open>W\<close> is written at end \<open>x\<close>, \<open>R\<close> is read at end \<open>y\<close>.\<close>

definition flow :: "bytes \<Rightarrow> conn \<Rightarrow> conn \<Rightarrow> bytes \<Rightarrow> bool \<Rightarrow> bool" where
  "flow W x y R eof \<longleftrightarrow>
     cn_sendNext x = length W \<and> cn_send x = drop (cn_sendBase x) W \<and> length (cn_send x) \<le> cn_window x \<and> cn_window x \<le> cn_window y \<and>
     cn_sendBase x \<le> cn_recvBase y \<and> cn_recvBase y \<le> cn_recvNext y \<and> cn_recvNext y \<le> length W \<and>
     cn_recv y = slice W (cn_recvBase y) (cn_recvNext y) \<and> R = take (cn_recvBase y) W \<and>
     (cn_remoteFIN y \<longrightarrow> cn_localFIN x \<and> cn_remoteFINAt y = length W \<and> cn_recvNext y = length W) \<and>
     (cn_finAcked x \<longrightarrow> cn_remoteFIN y) \<and> (eof \<longrightarrow> cn_remoteFIN y \<and> cn_recvBase y = length W)"

text \<open>What may be in flight from an end that has written \<open>W\<close>.\<close>

definition frame_valid :: "bytes \<Rightarrow> conn \<Rightarrow> frame \<Rightarrow> bool" where
  "frame_valid W x f \<longleftrightarrow>
     (case fr_kind f of
        Data \<Rightarrow> fr_payload f = slice W (fr_seq f) (fr_seq f + length (fr_payload f)) \<and> fr_seq f + length (fr_payload f) \<le> length W
      | Ack \<Rightarrow> fr_seq f \<le> cn_recvBase x
      | FIN \<Rightarrow> cn_localFIN x \<and> fr_seq f = length W
      | FINAck \<Rightarrow> cn_remoteFIN x \<and> fr_seq f = cn_remoteFINAt x
      | _ \<Rightarrow> True)"

definition msg_valid :: "bytes \<Rightarrow> conn \<Rightarrow> msg \<Rightarrow> bool" where
  "msg_valid W x m \<longleftrightarrow> (case m of MHello h \<Rightarrow> hl_ack h \<le> cn_recvBase x | MFrame f \<Rightarrow> frame_valid W x f)"

text \<open>How an end may change: messages stay valid.\<close>

definition grows :: "bytes \<Rightarrow> conn \<Rightarrow> bytes \<Rightarrow> conn \<Rightarrow> bool" where
  "grows W x W' x' \<longleftrightarrow>
     prefix W W' \<and> (cn_localFIN x \<longrightarrow> W' = W \<and> cn_localFIN x') \<and> cn_recvBase x \<le> cn_recvBase x' \<and>
     (cn_remoteFIN x \<longrightarrow> cn_remoteFIN x' \<and> cn_remoteFINAt x' = cn_remoteFINAt x)"

lemma frame_valid_grows: "grows W x W' x' \<Longrightarrow> frame_valid W x f \<Longrightarrow> frame_valid W' x' f"
proof (cases "fr_kind f")
  case Data
  assume g: "grows W x W' x'" and v: "frame_valid W x f"
  then obtain Z where Z: "W' = W @ Z" by (auto simp: grows_def prefix_def)
  from v Data have l: "fr_seq f + length (fr_payload f) \<le> length W"
    and p: "fr_payload f = slice W (fr_seq f) (fr_seq f + length (fr_payload f))" by (simp_all add: frame_valid_def)
  have "slice W' (fr_seq f) (fr_seq f + length (fr_payload f)) = slice W (fr_seq f) (fr_seq f + length (fr_payload f))"
    unfolding Z by (rule slice_append_left[OF l])
  with p l Data Z show ?thesis by (simp add: frame_valid_def)
qed (auto simp: frame_valid_def grows_def)

lemma msg_valid_grows: "grows W x W' x' \<Longrightarrow> msg_valid W x m \<Longrightarrow> msg_valid W' x' m"
  by (cases m) (auto simp: msg_valid_def frame_valid_grows grows_def)

lemma grows_refl [simp]: "grows W x W x"
  by (simp add: grows_def)

section \<open>Operations that leave the flow alone\<close>

definition data_of :: "conn \<Rightarrow> nat \<times> nat \<times> nat \<times> bytes \<times> bool \<times> bool \<times> nat \<times> nat \<times> bytes \<times> bool \<times> nat" where
  "data_of c =
     (cn_window c, cn_sendBase c, cn_sendNext c, cn_send c, cn_localFIN c, cn_finAcked c, cn_recvNext c, cn_recvBase c, cn_recv c,
      cn_remoteFIN c, cn_remoteFINAt c)"

named_theorems data_same \<open>operations that leave the data of the stream alone\<close>

lemma data_ofD:
  assumes "data_of c' = data_of c"
  shows "cn_window c' = cn_window c" "cn_sendBase c' = cn_sendBase c" "cn_sendNext c' = cn_sendNext c" "cn_send c' = cn_send c"
    "cn_localFIN c' = cn_localFIN c" "cn_finAcked c' = cn_finAcked c" "cn_recvNext c' = cn_recvNext c" "cn_recvBase c' = cn_recvBase c"
    "cn_recv c' = cn_recv c" "cn_remoteFIN c' = cn_remoteFIN c" "cn_remoteFINAt c' = cn_remoteFINAt c"
  using assms by (simp_all add: data_of_def)

lemma flow_data:
  assumes x: "data_of x' = data_of x" and y: "data_of y' = data_of y"
  shows "flow W x' y' R eof = flow W x y R eof"
  unfolding flow_def data_ofD[OF x] data_ofD[OF y] ..

lemma grows_data:
  assumes "data_of x' = data_of x"
  shows "grows W x W x'"
  by (simp add: grows_def data_ofD[OF assms])

lemma data_update [data_same]:
  "data_of (c\<lparr>cn_carriers := a1\<rparr>) = data_of c" "data_of (c\<lparr>cn_active := a2\<rparr>) = data_of c" "data_of (c\<lparr>cn_prepared := a3\<rparr>) = data_of c"
  "data_of (c\<lparr>cn_retained := a4\<rparr>) = data_of c" "data_of (c\<lparr>cn_nextEpoch := a5\<rparr>) = data_of c" "data_of (c\<lparr>cn_committed := a6\<rparr>) = data_of c"
  "data_of (c\<lparr>cn_channels := a7\<rparr>) = data_of c" "data_of (c\<lparr>cn_commitWait := a8\<rparr>) = data_of c" "data_of (c\<lparr>cn_discardWait := a9\<rparr>) = data_of c"
  "data_of (c\<lparr>cn_detached := b1\<rparr>) = data_of c" "data_of (c\<lparr>cn_detachedSeq := b2\<rparr>) = data_of c" "data_of (c\<lparr>cn_finSent := b3\<rparr>) = data_of c"
  "data_of (c\<lparr>cn_ackCarrier := b4\<rparr>) = data_of c" "data_of (c\<lparr>cn_ackOffset := b5\<rparr>) = data_of c" "data_of (c\<lparr>cn_closed := b6\<rparr>) = data_of c"
  "data_of (c\<lparr>cn_terminal := b7\<rparr>) = data_of c"
  by (simp_all add: data_of_def)

lemma set_state_data [data_same]: "data_of (set_state l st c) = data_of c"
  by (simp add: set_state_def data_same)

lemma new_carrier_data [data_same]: "data_of (new_carrier l i n st c) = data_of c"
  by (simp add: new_carrier_def data_same)

lemma offer_data [data_same]: "data_of (offer k r c) = data_of c"
  by (simp add: offer_def data_same split: option.split)

lemma receive_data: "receive j c = Some (r, c') \<Longrightarrow> data_of c' = data_of c"
  by (auto simp: receive_def data_same split: option.splits)

lemma activate_data [data_same]: "data_of (activate l c) = data_of c"
  by (simp add: activate_def Let_def data_same split: option.split)

lemma failCarrier_data [data_same]: "data_of (snd (snd (failCarrier l e c))) = data_of c"
  by (simp add: failCarrier_def Let_def data_same)

lemma detachAll_data [data_same]: "data_of (snd (detachAll c)) = data_of c"
  by (simp add: detachAll_def data_same)

lemma failTerminal_data [data_same]: "data_of (snd (failTerminal e c)) = data_of c"
  by (simp add: failTerminal_def data_same)

lemma Abort_data [data_same]: "data_of (snd (Abort r c)) = data_of c"
  by (simp add: Abort_def data_same)

lemma watchContext_data [data_same]: "data_of (snd (watchContext c)) = data_of c"
  by (simp add: watchContext_def data_same)

lemma conn_Close_data [data_same]: "data_of (snd (conn_Close c)) = data_of c"
  by (simp add: conn_Close_def Let_def data_same split: prod.split) (metis data_same(15) detachAll_data snd_conv)

lemma promote_begin_data: "promote_begin i n c = Some (l, j, c') \<Longrightarrow> data_of c' = data_of c"
  by (auto simp: promote_begin_def Let_def make_channel_def data_same split: option.splits if_splits)

lemma promote_finish_data [data_same]: "data_of (snd (promote_finish l c)) = data_of c"
  by (simp add: promote_finish_def Let_def data_same)

lemma drop_begin_data: "drop_begin i c = Some (l, j, c') \<Longrightarrow> data_of c' = data_of c"
  by (auto simp: drop_begin_def Let_def make_channel_def data_same split: option.splits if_splits)

lemma confirm_written_data [data_same]: "data_of (snd (confirm_written l c)) = data_of c"
  by (simp add: confirm_written_def data_same)

lemma fin_written_data [data_same]: "data_of (fin_written l c) = data_of c"
  by (simp add: fin_written_def data_same)

lemma ack_written_data [data_same]: "data_of (ack_written l n c) = data_of c"
  by (simp add: ack_written_def data_same)

lemma accept_failed_data [data_same]: "data_of (accept_failed l c) = data_of c"
  by (simp add: accept_failed_def data_same)

lemma accept_written_data: "accept_written l c = Some c' \<Longrightarrow> data_of c' = data_of c"
  by (auto simp: accept_written_def data_same split: if_splits)

section \<open>The carriers of one end\<close>

text \<open>The state of a carrier says which pointer of the connection is at it.\<close>

definition coherent :: "conn \<Rightarrow> bool" where
  "coherent c \<longleftrightarrow>
     (\<forall>l. cn_active c = Some l \<longrightarrow> state_of l c = Active) \<and>
     (\<forall>l. cn_prepared c = Some l \<longrightarrow> state_of l c = Provisional \<or> state_of l c = Prepared \<or> state_of l c = Committing) \<and>
     (\<forall>l. cn_retained c = Some l \<longrightarrow> state_of l c = Retained)"

definition points :: "conn \<Rightarrow> link \<Rightarrow> bool" where
  "points c l \<longleftrightarrow> cn_active c = Some l \<or> cn_prepared c = Some l \<or> cn_retained c = Some l"

text \<open>An operation that takes up no new carrier and leaves the flow alone.\<close>

definition narrows :: "conn \<Rightarrow> conn \<Rightarrow> bool" where
  "narrows c c' \<longleftrightarrow>
     data_of c' = data_of c \<and> (coherent c \<longrightarrow> coherent c') \<and> (\<forall>l. points c' l \<longrightarrow> points c l) \<and>
     (cn_prepared c' = None \<or> cn_prepared c' = cn_prepared c) \<and> cn_role c' = cn_role c"

lemma carrier_of_update [simp]:
  "carrier_of l (c\<lparr>cn_active := a2\<rparr>) = carrier_of l c" "carrier_of l (c\<lparr>cn_prepared := a3\<rparr>) = carrier_of l c"
  "carrier_of l (c\<lparr>cn_retained := a4\<rparr>) = carrier_of l c" "carrier_of l (c\<lparr>cn_nextEpoch := a5\<rparr>) = carrier_of l c"
  "carrier_of l (c\<lparr>cn_committed := a6\<rparr>) = carrier_of l c" "carrier_of l (c\<lparr>cn_channels := a7\<rparr>) = carrier_of l c"
  "carrier_of l (c\<lparr>cn_commitWait := a8\<rparr>) = carrier_of l c" "carrier_of l (c\<lparr>cn_discardWait := a9\<rparr>) = carrier_of l c"
  "carrier_of l (c\<lparr>cn_detached := b1\<rparr>) = carrier_of l c" "carrier_of l (c\<lparr>cn_detachedSeq := b2\<rparr>) = carrier_of l c"
  "carrier_of l (c\<lparr>cn_finSent := b3\<rparr>) = carrier_of l c" "carrier_of l (c\<lparr>cn_ackCarrier := b4\<rparr>) = carrier_of l c"
  "carrier_of l (c\<lparr>cn_ackOffset := b5\<rparr>) = carrier_of l c" "carrier_of l (c\<lparr>cn_closed := b6\<rparr>) = carrier_of l c"
  "carrier_of l (c\<lparr>cn_terminal := b7\<rparr>) = carrier_of l c"
  by (simp_all add: carrier_of_def)

lemma carrier_of_data [simp]:
  "carrier_of l (c\<lparr>cn_sendBase := d1\<rparr>) = carrier_of l c" "carrier_of l (c\<lparr>cn_sendNext := d2\<rparr>) = carrier_of l c"
  "carrier_of l (c\<lparr>cn_send := d3\<rparr>) = carrier_of l c" "carrier_of l (c\<lparr>cn_localFIN := d4\<rparr>) = carrier_of l c"
  "carrier_of l (c\<lparr>cn_finAcked := d5\<rparr>) = carrier_of l c" "carrier_of l (c\<lparr>cn_recvNext := d6\<rparr>) = carrier_of l c"
  "carrier_of l (c\<lparr>cn_recvBase := d7\<rparr>) = carrier_of l c" "carrier_of l (c\<lparr>cn_recv := d8\<rparr>) = carrier_of l c"
  "carrier_of l (c\<lparr>cn_remoteFIN := d9\<rparr>) = carrier_of l c" "carrier_of l (c\<lparr>cn_remoteFINAt := d10\<rparr>) = carrier_of l c"
  by (simp_all add: carrier_of_def)

lemma carrier_set_state [simp]:
  "carrier_of l' (set_state l st c) = (if l' = l then (carrier_of l c)\<lparr>ca_state := st\<rparr> else carrier_of l' c)"
  by (simp add: set_state_def carrier_of_def update_conv')

lemma carrier_new_carrier [simp]:
  "carrier_of l' (new_carrier l i n st c) = (if l' = l then \<lparr>ca_id = i, ca_epoch = n, ca_state = st\<rparr> else carrier_of l' c)"
  by (simp add: new_carrier_def carrier_of_def update_conv')

lemma set_state_simps [simp]:
  "cn_active (set_state l st c) = cn_active c" "cn_prepared (set_state l st c) = cn_prepared c"
  "cn_retained (set_state l st c) = cn_retained c" "cn_role (set_state l st c) = cn_role c"
  "cn_terminal (set_state l st c) = cn_terminal c" "cn_closed (set_state l st c) = cn_closed c"
  "cn_commitWait (set_state l st c) = cn_commitWait c" "cn_discardWait (set_state l st c) = cn_discardWait c"
  "cn_channels (set_state l st c) = cn_channels c" "cn_committed (set_state l st c) = cn_committed c"
  "cn_nextEpoch (set_state l st c) = cn_nextEpoch c" "cn_detachedSeq (set_state l st c) = cn_detachedSeq c"
  "cn_detached (set_state l st c) = cn_detached c"
  by (simp_all add: set_state_def)

lemma new_carrier_simps [simp]:
  "cn_active (new_carrier l i n st c) = cn_active c" "cn_prepared (new_carrier l i n st c) = cn_prepared c"
  "cn_retained (new_carrier l i n st c) = cn_retained c" "cn_role (new_carrier l i n st c) = cn_role c"
  "cn_terminal (new_carrier l i n st c) = cn_terminal c"
  by (simp_all add: new_carrier_def)

lemma offer_simps [simp]:
  "cn_active (offer k r c) = cn_active c" "cn_prepared (offer k r c) = cn_prepared c" "cn_retained (offer k r c) = cn_retained c"
  "cn_role (offer k r c) = cn_role c" "cn_terminal (offer k r c) = cn_terminal c" "carrier_of l (offer k r c) = carrier_of l c"
  "cn_detachedSeq (offer k r c) = cn_detachedSeq c" "cn_discardWait (offer k r c) = cn_discardWait c"
  by (simp_all add: offer_def split: option.split)

lemma narrows_same:
  assumes "data_of c' = data_of c" and "\<And>l. carrier_of l c' = carrier_of l c" and "cn_active c' = cn_active c"
    and "cn_prepared c' = cn_prepared c" and "cn_retained c' = cn_retained c" and "cn_role c' = cn_role c"
  shows "narrows c c'"
  using assms by (simp add: narrows_def coherent_def points_def)

lemma narrows_refl [simp]: "narrows c c"
  by (rule narrows_same) simp_all

lemma receive_narrows: "receive j c = Some (r, c') \<Longrightarrow> narrows c c' \<and> cn_terminal c' = cn_terminal c"
  by (auto simp: receive_def data_same split: option.splits intro!: narrows_same)

lemma failCarrier_narrows:
  "narrows c (snd (snd (failCarrier l e c)))" "cn_terminal (snd (snd (failCarrier l e c))) = cn_terminal c"
proof -
  define c' where "c' = snd (snd (failCarrier l e c))"
  have d: "data_of c' = data_of c" unfolding c'_def by (rule failCarrier_data)
  show "cn_terminal (snd (snd (failCarrier l e c))) = cn_terminal c"
    by (simp add: failCarrier_def Let_def)
  show "narrows c (snd (snd (failCarrier l e c)))"
  proof (cases "points c l")
    case False
    then have "snd (snd (failCarrier l e c)) = c" by (simp add: failCarrier_def points_def Let_def)
    then show ?thesis by simp
  next
    case True
    have f: "cn_active c' = (if cn_active c = Some l then None else cn_active c)"
      "cn_prepared c' = (if cn_prepared c = Some l then None else cn_prepared c)"
      "cn_retained c' = (if cn_retained c = Some l then None else cn_retained c)" "cn_role c' = cn_role c"
      "\<And>m. m \<noteq> l \<Longrightarrow> carrier_of m c' = carrier_of m c"
      unfolding c'_def using True by (simp_all add: failCarrier_def Let_def points_def)
    have "coherent c \<Longrightarrow> coherent c'"
      unfolding coherent_def f(1-3) using f(5) by (metis option.distinct(1) option.inject)
    with d f(1-4) show ?thesis unfolding c'_def[symmetric] by (auto simp: narrows_def points_def split: if_splits)
  qed
qed

lemma narrows_pointers:
  assumes "data_of c' = data_of c" and "\<And>l. carrier_of l c' = carrier_of l c" and "cn_active c' = None \<or> cn_active c' = cn_active c"
    and "cn_prepared c' = None \<or> cn_prepared c' = cn_prepared c" and "cn_retained c' = None \<or> cn_retained c' = cn_retained c"
    and "cn_role c' = cn_role c"
  shows "narrows c c'"
proof -
  have "coherent c \<Longrightarrow> coherent c'" unfolding coherent_def assms(2) using assms(3-5) by (metis option.distinct(1))
  moreover have "points c' l \<Longrightarrow> points c l" for l unfolding points_def using assms(3-5) by (metis option.distinct(1))
  ultimately show ?thesis using assms(1,4,6) by (simp add: narrows_def)
qed

lemma detachAll_narrows: "narrows c (snd (detachAll c))"
  by (rule narrows_pointers) (simp_all add: detachAll_def data_same)

lemma failTerminal_narrows: "narrows c (snd (failTerminal e c))"
  by (rule narrows_pointers) (simp_all add: failTerminal_def detachAll_def data_same)

lemma failTerminal_terminal: "cn_terminal (snd (failTerminal e c)) = Some (case cn_terminal c of None \<Rightarrow> e | Some e' \<Rightarrow> e')"
  by (simp add: failTerminal_def detachAll_def split: option.split)

lemma watchContext_narrows: "narrows c (snd (watchContext c))"
  by (rule narrows_pointers) (simp_all add: watchContext_def detachAll_def data_same)

lemma watchContext_terminal: "cn_terminal (snd (watchContext c)) = cn_terminal c \<or> cn_terminal (snd (watchContext c)) = Some ErrCause"
  by (simp add: watchContext_def detachAll_def)

lemma conn_Close_narrows: "narrows c (snd (conn_Close c))" "cn_terminal (snd (conn_Close c)) = cn_terminal c"
proof -
  show "narrows c (snd (conn_Close c))"
    by (rule narrows_pointers) (simp_all add: conn_Close_data, simp_all add: conn_Close_def detachAll_def Let_def)
qed (simp add: conn_Close_def detachAll_def Let_def)

lemma set_state_narrows:
  assumes "cn_active c \<noteq> Some l" "cn_retained c \<noteq> Some l" and "cn_prepared c = Some l \<Longrightarrow> st = Provisional \<or> st = Prepared \<or> st = Committing"
  shows "narrows c (set_state l st c)"
  using assms unfolding narrows_def by (auto simp: coherent_def points_def data_same)

lemma coherent_prepared:
  assumes "coherent c" and "cn_prepared c = Some l"
  shows "cn_active c \<noteq> Some l" "cn_retained c \<noteq> Some l"
  using assms by (auto simp: coherent_def)

lemma narrows_trans: "narrows c c' \<Longrightarrow> narrows c' c'' \<Longrightarrow> narrows c c''"
  unfolding narrows_def by auto

lemma promote_begin_narrows:
  assumes "promote_begin i n c = Some (l, j, c')" and "coherent c"
  shows "narrows c c'" "cn_terminal c' = cn_terminal c" "cn_prepared c = Some l"
proof -
  show p: "cn_prepared c = Some l"
    using assms(1) by (auto simp: promote_begin_def Let_def split: option.splits if_splits prod.splits)
  have a: "narrows c (set_state l Committing c)" using coherent_prepared[OF assms(2) p] by (intro set_state_narrows) simp_all
  have "narrows (set_state l Committing c) c'" "cn_terminal c' = cn_terminal c"
    using assms(1) by (auto simp: promote_begin_def p Let_def make_channel_def data_same split: option.splits if_splits intro!: narrows_same)
  with a show "narrows c c'" "cn_terminal c' = cn_terminal c" by (auto intro: narrows_trans)
qed

lemma drop_begin_narrows:
  assumes "drop_begin i c = Some (l, j, c')"
  shows "narrows c c'" "cn_terminal c' = cn_terminal c"
  using assms by (auto simp: drop_begin_def Let_def make_channel_def data_same split: option.splits if_splits intro!: narrows_same)

lemma promote_finish_narrows:
  "narrows c (snd (promote_finish l c))" "cn_terminal (snd (promote_finish l c)) = cn_terminal c"
  by (auto simp: promote_finish_def Let_def data_same intro!: narrows_same)

lemma confirm_written_narrows:
  "narrows c (snd (confirm_written l c))" "cn_terminal (snd (confirm_written l c)) = cn_terminal c"
  by (auto simp: confirm_written_def data_same intro!: narrows_pointers)

lemma fin_written_narrows: "narrows c (fin_written l c)" "cn_terminal (fin_written l c) = cn_terminal c"
  by (auto simp: fin_written_def data_same intro!: narrows_same)

lemma ack_written_narrows: "narrows c (ack_written l n c)" "cn_terminal (ack_written l n c) = cn_terminal c"
  by (auto simp: ack_written_def data_same intro!: narrows_same)

lemma accept_failed_narrows: "narrows c (accept_failed l c)" "cn_terminal (accept_failed l c) = cn_terminal c"
proof -
  show "narrows c (accept_failed l c)"
  proof (cases "cn_prepared c = Some l \<and> state_of l c = Provisional")
    case True
    then show ?thesis
      by (auto simp: accept_failed_def narrows_def data_same points_def coherent_def)
  qed (auto simp: accept_failed_def)
qed (simp add: accept_failed_def)

lemma accept_written_narrows:
  assumes "accept_written l c = Some c'" and "coherent c"
  shows "narrows c c'" "cn_terminal c' = cn_terminal c" "cn_prepared c = Some l"
proof -
  show p: "cn_prepared c = Some l" and "cn_terminal c' = cn_terminal c"
    using assms(1) by (auto simp: accept_written_def split: if_splits)
  have "c' = set_state l Prepared c" using assms(1) by (auto simp: accept_written_def split: if_splits)
  then show "narrows c c'" using coherent_prepared[OF assms(2) p] by (simp add: set_state_narrows)
qed

lemma activate_narrows:
  assumes "coherent c" and "cn_prepared c = Some l"
  shows "narrows c (activate l c)" "cn_terminal (activate l c) = cn_terminal c"
proof -
  show "cn_terminal (activate l c) = cn_terminal c" by (simp add: activate_def Let_def split: option.split)
  define c' where "c' = activate l c"
  have f: "cn_active c' = Some l" "cn_prepared c' = None" "cn_retained c' = cn_active c" "cn_role c' = cn_role c"
    "state_of l c' = Active" "\<And>old. cn_active c = Some old \<Longrightarrow> old \<noteq> l \<Longrightarrow> state_of old c' = Retained"
    unfolding c'_def by (auto simp: activate_def Let_def split: option.splits)
  have "coherent c'" unfolding coherent_def f(1-3) using f(5,6) coherent_prepared(1)[OF assms] by auto
  then show "narrows c (activate l c)"
    unfolding c'_def[symmetric] narrows_def using f assms(2) by (simp add: points_def c'_def data_same)
qed

end
