(* ===== verification/Resumable_Data.thy ===== *)
theory Resumable_Data
  imports Resumable_Flow
begin

text \<open>
  The operations of a resumable stream that move data, on the flow of a direction: what arrives,
  what is acknowledged, and what the applications write and read.
\<close>

section \<open>Operations on the data\<close>

definition steady :: "conn \<Rightarrow> conn \<Rightarrow> bool" where
  "steady c c' \<longleftrightarrow>
     cn_carriers c' = cn_carriers c \<and> cn_active c' = cn_active c \<and> cn_prepared c' = cn_prepared c \<and> cn_retained c' = cn_retained c \<and>
     cn_role c' = cn_role c \<and> cn_terminal c' = cn_terminal c"

definition same_sender :: "conn \<Rightarrow> conn \<Rightarrow> bool" where
  "same_sender c c' \<longleftrightarrow>
     cn_window c' = cn_window c \<and> cn_sendBase c' = cn_sendBase c \<and> cn_sendNext c' = cn_sendNext c \<and> cn_send c' = cn_send c \<and>
     cn_localFIN c' = cn_localFIN c \<and> cn_finAcked c' = cn_finAcked c"

definition same_receiver :: "conn \<Rightarrow> conn \<Rightarrow> bool" where
  "same_receiver c c' \<longleftrightarrow>
     cn_window c' = cn_window c \<and> cn_recvNext c' = cn_recvNext c \<and> cn_recvBase c' = cn_recvBase c \<and> cn_recv c' = cn_recv c \<and>
     cn_remoteFIN c' = cn_remoteFIN c \<and> cn_remoteFINAt c' = cn_remoteFINAt c"

lemma flow_sender: "same_sender x x' \<Longrightarrow> flow W x' y R eof = flow W x y R eof"
  by (simp add: flow_def same_sender_def)

lemma flow_receiver: "same_receiver y y' \<Longrightarrow> flow W x y' R eof = flow W x y R eof"
  by (simp add: flow_def same_receiver_def)

lemma steady_coherent:
  assumes "steady c c'"
  shows "coherent c' = coherent c" "points c' = points c" "cn_terminal c' = cn_terminal c"
  using assms by (simp_all add: steady_def coherent_def points_def carrier_of_def fun_eq_iff)

text \<open>Data that starts no later than what is expected next is taken up exactly.\<close>

lemma on_Data_flow:
  assumes fl: "flow W x y R eof" and W: "length W < u64_size" and p: "payload = slice W n (n + length payload)"
    and pl: "n + length payload \<le> length W" and n: "n \<le> cn_recvNext y"
  obtains y' where "on_Data n payload y = (ReadOn, y')" "flow W x y' R eof" "n + length payload \<le> cn_recvNext y'"
    "cn_recvNext y \<le> cn_recvNext y'" "steady y y'" "same_sender y y'" "cn_recvBase y' = cn_recvBase y"
    "cn_remoteFIN y' = cn_remoteFIN y" "cn_remoteFINAt y' = cn_remoteFINAt y"
proof (cases "cn_recvNext y < n + length payload")
  case False
  have "u64_add n (length payload) = n + length payload" using W pl by (simp add: u64)
  then have "on_Data n payload y = (ReadOn, y)" using False n by (simp add: on_Data_def)
  with that fl False show thesis by (simp add: steady_def same_sender_def)
next
  case True
  let ?m = "n + length payload" and ?k = "cn_recvNext y - n"
  have e: "u64_add n (length payload) = ?m" "u64_sub (cn_recvNext y) n = ?k"
    using W pl n fl by (simp_all add: u64 flow_def)
  have f: "cn_sendBase x \<le> cn_recvBase y" "cn_recvBase y \<le> cn_recvNext y" "cn_recvNext y \<le> length W"
    "cn_recv y = slice W (cn_recvBase y) (cn_recvNext y)" "length W - cn_sendBase x \<le> cn_window y"
    using fl by (auto simp: flow_def)
  have w: "\<not> cn_window y + ?k < length (cn_recv y) + length payload" unfolding f(4) length_slice using f pl n True by linarith
  define y' where "y' = y\<lparr>cn_recv := cn_recv y @ drop ?k payload, cn_recvNext := ?m\<rparr>"
  have "drop ?k payload = slice W (cn_recvNext y) ?m" by (subst p, subst drop_slice) (use n in simp)
  then have r: "cn_recv y' = slice W (cn_recvBase y) ?m"
    unfolding y'_def using f True by (simp add: slice_join)
  have fin: "\<not> cn_remoteFIN y" using fl True pl by (auto simp: flow_def)
  have "on_Data n payload y = (ReadOn, y')"
    using n True w by (simp add: on_Data_def e Let_def y'_def)
  moreover have "flow W x y' R eof"
    using fl True pl fin unfolding flow_def r by (auto simp: y'_def)
  ultimately show thesis using that True by (simp add: y'_def steady_def same_sender_def)
qed

lemma discardAcked_flow:
  assumes fl: "flow W x y R eof" and W: "length W < u64_size" and n: "n \<le> cn_recvBase y"
  shows "flow W (discardAcked n x) y R eof" "same_receiver x (discardAcked n x)" "steady x (discardAcked n x)"
    "cn_localFIN (discardAcked n x) = cn_localFIN x"
proof -
  have "n < u64_size" using fl W n by (auto simp: flow_def)
  then have "cn_sendBase x \<le> n \<Longrightarrow> u64_sub n (cn_sendBase x) = n - cn_sendBase x" by (simp add: u64)
  then show "flow W (discardAcked n x) y R eof"
    using fl n by (auto simp: flow_def discardAcked_def)
qed (simp_all add: discardAcked_def same_receiver_def steady_def)

lemma on_FIN_flow:
  assumes fl: "flow W x y R eof" and l: "cn_localFIN x" and n: "n = length W" "n \<le> cn_recvNext y"
  obtains y' r where "on_FIN n y = (r, y')" "flow W x y' R eof" "r = ReadOn \<or> r = AcknowledgeFIN (cn_remoteFINAt y') \<and> cn_remoteFIN y'"
    "cn_recvNext y' = cn_recvNext y" "steady y y'" "same_sender y y'" "cn_recvBase y' = cn_recvBase y"
    "cn_remoteFIN y \<longrightarrow> cn_remoteFIN y' \<and> cn_remoteFINAt y' = cn_remoteFINAt y"
proof (cases "cn_remoteFIN y")
  case True
  then have "cn_remoteFINAt y = n" using fl n by (simp add: flow_def)
  then have "on_FIN n y = (ReadOn, y)" using True by (simp add: on_FIN_def)
  with that fl show thesis by (simp add: steady_def same_sender_def)
next
  case False
  have e: "cn_recvNext y = n" using fl n by (simp add: flow_def)
  define y' where "y' = y\<lparr>cn_remoteFIN := True, cn_remoteFINAt := n\<rparr>"
  have "on_FIN n y = (AcknowledgeFIN n, y')" using False e by (simp add: on_FIN_def y'_def)
  moreover have "flow W x y' R eof" using fl l n e by (auto simp: flow_def y'_def)
  ultimately show thesis using that False by (simp add: y'_def steady_def same_sender_def)
qed

lemma on_FINAck_flow:
  assumes fl: "flow W x y R eof" and f: "cn_remoteFIN y" "n = cn_remoteFINAt y"
  shows "on_FINAck n x = (ReadOn, x\<lparr>cn_finAcked := True\<rparr>)" "flow W (x\<lparr>cn_finAcked := True\<rparr>) y R eof"
  using assms by (auto simp: on_FINAck_def flow_def)

section \<open>The application\<close>

definition after_read :: "nat \<Rightarrow> conn \<Rightarrow> conn" where
  "after_read k y = y\<lparr>cn_recv := drop k (cn_recv y), cn_recvBase := u64_add (cn_recvBase y) k\<rparr>"

lemma conn_Read_cases:
  assumes "conn_Read n y = (res, y')"
  obtains (empty) "res = Got []" "y' = y"
    | (got) k where "cn_recv y \<noteq> []" "k = min n (length (cn_recv y))" "res = Got (take k (cn_recv y))" "y' = after_read k y"
    | (eof) "cn_recv y = []" "cn_remoteFIN y" "res = ReadEOF" "y' = y"
    | (stop) "\<exists>e. res = ReadError e" "y' = y" | (blocked) "res = ReadBlocked" "y' = y"
proof -
  consider "n = 0" | "n \<noteq> 0" "cn_recv y \<noteq> []" | "n \<noteq> 0" "cn_recv y = []" "cn_remoteFIN y \<and> cn_remoteFINAt y \<le> cn_recvNext y"
    | "n \<noteq> 0" "cn_recv y = []" "\<not> (cn_remoteFIN y \<and> cn_remoteFINAt y \<le> cn_recvNext y)" "stopped y"
    | "n \<noteq> 0" "cn_recv y = []" "\<not> (cn_remoteFIN y \<and> cn_remoteFINAt y \<le> cn_recvNext y)" "\<not> stopped y"
    by blast
  then show thesis
  proof cases
    case 1 then show ?thesis using assms by (intro empty) (simp_all add: conn_Read_def)
  next
    case 2 then show ?thesis using assms
      by (intro got[of "min n (length (cn_recv y))"]) (simp_all add: conn_Read_def Let_def after_read_def)
  next
    case 3 then show ?thesis using assms by (intro eof) (simp_all add: conn_Read_def)
  next
    case 4 then show ?thesis using assms by (intro stop) (simp_all only: conn_Read_def if_False if_True simp_thms prod.inject, blast+)
  next
    case 5 then show ?thesis using assms by (intro blocked) (simp_all only: conn_Read_def if_False if_True simp_thms prod.inject)
  qed
qed

lemma after_read_flow:
  assumes fl: "flow W x y R eof" and W: "length W < u64_size" and k: "k \<le> length (cn_recv y)" and ne: "cn_recv y \<noteq> []"
  shows "flow W x (after_read k y) (R @ take k (cn_recv y)) eof" "cn_recvBase (after_read k y) = cn_recvBase y + k"
proof -
  have f: "cn_recvBase y \<le> cn_recvNext y" "cn_recvNext y \<le> length W"
    "cn_recv y = slice W (cn_recvBase y) (cn_recvNext y)" "R = take (cn_recvBase y) W"
    using fl by (simp_all add: flow_def)
  have len: "length (cn_recv y) = cn_recvNext y - cn_recvBase y" unfolding f(3) length_slice using f(1,2) by simp
  have a: "u64_add (cn_recvBase y) k = cn_recvBase y + k" using W f len k by (simp add: u64)
  then show "cn_recvBase (after_read k y) = cn_recvBase y + k" by (simp add: after_read_def)
  have eof: "\<not> eof"
  proof
    assume eof
    then have "cn_recvBase y = length W" using fl by (simp add: flow_def)
    then show False using len f(2) ne by simp
  qed
  have "take k (cn_recv y) = slice W (cn_recvBase y) (cn_recvBase y + k)" unfolding f(3) by (rule take_slice) (use len k in simp)
  then have r: "R @ take k (cn_recv y) = take (cn_recvBase y + k) W" unfolding f(4) by (simp add: slice_def take_add)
  have d: "drop k (cn_recv y) = slice W (cn_recvBase y + k) (cn_recvNext y)" unfolding f(3) by (rule drop_slice)
  show "flow W x (after_read k y) (R @ take k (cn_recv y)) eof"
    unfolding r after_read_def a d using fl f(1) len k eof unfolding flow_def by auto
qed

lemma conn_Read_flow:
  assumes fl: "flow W x y R eof" and W: "length W < u64_size" and r: "conn_Read n y = (res, y')"
  shows "res = Got bs \<Longrightarrow> flow W x y' (R @ bs) eof" "res = ReadEOF \<Longrightarrow> flow W x y' R True"
    "cn_recvBase y \<le> cn_recvBase y'"
proof -
  show "res = Got bs \<Longrightarrow> flow W x y' (R @ bs) eof"
    using r by (rule conn_Read_cases) (use fl after_read_flow(1)[OF fl W] in auto)
  show "cn_recvBase y \<le> cn_recvBase y'"
    using r by (rule conn_Read_cases) (use after_read_flow(2)[OF fl W] in auto)
  show "res = ReadEOF \<Longrightarrow> flow W x y' R True"
    using r
  proof (rule conn_Read_cases)
    assume e: "cn_recv y = []" "cn_remoteFIN y" "y' = y"
    have "length (cn_recv y) = cn_recvNext y - cn_recvBase y" using fl unfolding flow_def by auto
    then have "cn_recvBase y = length W" using fl e(1,2) by (simp add: flow_def)
    then show ?thesis using fl e(2,3) by (auto simp: flow_def)
  qed auto
qed

lemma conn_Read_same:
  assumes "conn_Read n y = (res, y')"
  shows "same_sender y y'" "steady y y'" "cn_recvNext y' = cn_recvNext y" "cn_remoteFIN y' = cn_remoteFIN y"
    "cn_remoteFINAt y' = cn_remoteFINAt y"
  using assms by (rule conn_Read_cases; simp add: after_read_def same_sender_def steady_def)+

definition after_write :: "bytes \<Rightarrow> conn \<Rightarrow> conn" where
  "after_write bs x = x\<lparr>cn_send := cn_send x @ bs, cn_sendNext := u64_add (cn_sendNext x) (length bs)\<rparr>"

lemma conn_Write_cases:
  assumes "conn_Write data x = (res, x')"
  obtains (empty) "data = []" "res = Took 0" "x' = x"
    | (took) n where "\<not> cn_localFIN x" "n = min (cn_window x - length (cn_send x)) (length data)" "length (cn_send x) < cn_window x"
        "res = Took n" "x' = after_write (take n data) x"
    | (refused) "\<forall>n. res \<noteq> Took n" "x' = x"
proof -
  consider "data = []" | "data \<noteq> []" "cn_localFIN x \<or> stopped x"
    | "data \<noteq> []" "\<not> (cn_localFIN x \<or> stopped x)" "length (cn_send x) < cn_window x"
    | "data \<noteq> []" "\<not> (cn_localFIN x \<or> stopped x)" "\<not> length (cn_send x) < cn_window x"
    by blast
  then show thesis
  proof cases
    case 1 then show ?thesis using assms by (intro empty) (simp_all add: conn_Write_def)
  next
    case 2
    then have "conn_Write data x = (WriteError (stop_error x), x)" unfolding conn_Write_def by simp
    with assms have "res = WriteError (stop_error x) \<and> x' = x" by (metis prod.inject)
    then show ?thesis by (intro refused) auto
  next
    case 3
    let ?n = "min (cn_window x - length (cn_send x)) (length data)"
    have "res = Took ?n \<and> x' = after_write (take ?n data) x"
      using assms 3 by (simp only: conn_Write_def if_False if_True simp_thms prod.inject Let_def after_write_def length_take) simp
    then show ?thesis using 3 by (intro took[of ?n]) simp_all
  next
    case 4
    then have "res = WriteBlocked \<and> x' = x" using assms by (simp only: conn_Write_def if_False if_True simp_thms prod.inject)
    then show ?thesis by (intro refused) auto
  qed
qed

lemma after_write_flow:
  assumes fl: "flow W x y R eof" and "\<not> cn_localFIN x" and l: "length (W @ bs) < u64_size" and w: "length (cn_send x) + length bs \<le> cn_window x"
  shows "flow (W @ bs) (after_write bs x) y R eof"
proof -
  have f: "cn_recvBase y \<le> cn_recvNext y" "cn_recvNext y \<le> length W" "cn_sendBase x \<le> length W" "\<not> cn_remoteFIN y"
    using fl assms(2) by (auto simp: flow_def)
  have u: "u64_add (cn_sendNext x) (length bs) = length W + length bs" using fl l by (simp add: flow_def u64)
  have "slice (W @ bs) (cn_recvBase y) (cn_recvNext y) = slice W (cn_recvBase y) (cn_recvNext y)"
    using f by (simp add: slice_append_left)
  with fl f u w show ?thesis unfolding flow_def after_write_def by simp
qed

lemma conn_Write_flow:
  assumes fl: "flow W x y R eof" and r: "conn_Write data x = (Took n, x')" and l: "length (W @ take n data) < u64_size"
  shows "flow (W @ take n data) x' y R eof" "cn_localFIN x \<Longrightarrow> take n data = []"
proof -
  show "flow (W @ take n data) x' y R eof" using r
  proof (rule conn_Write_cases)
    fix m assume m: "\<not> cn_localFIN x" "m = min (cn_window x - length (cn_send x)) (length data)" "length (cn_send x) < cn_window x"
      "Took n = Took m" "x' = after_write (take m data) x"
    then show ?thesis using after_write_flow[OF fl m(1), of "take m data"] l by simp
  qed (use fl in auto)
  show "cn_localFIN x \<Longrightarrow> take n data = []" using r by (rule conn_Write_cases) auto
qed

lemma conn_Write_same:
  assumes "conn_Write data x = (res, x')"
  shows "same_receiver x x'" "steady x x'" "cn_localFIN x' = cn_localFIN x" "(\<forall>n. res \<noteq> Took n) \<Longrightarrow> x' = x"
  using assms by (rule conn_Write_cases; simp add: after_write_def same_receiver_def steady_def)+

lemma CloseWrite_flow:
  assumes fl: "flow W x y R eof"
  shows "flow W (snd (CloseWrite x)) y R eof" "same_receiver x (snd (CloseWrite x))" "steady x (snd (CloseWrite x))"
    "cn_localFIN x \<Longrightarrow> cn_localFIN (snd (CloseWrite x))"
  using fl by (auto simp: CloseWrite_def flow_def same_receiver_def steady_def)

end
