(* ===== verification/Resumable_Safety.thy ===== *)
theory Resumable_Safety
  imports Resumable_Data
begin

text \<open>
  The invariant of a resumable stream under every interleaving of its goroutines and every
  failure of its links. Everything in flight is valid for the end that sent it, and on every link
  that the receiving end still listens to, the data frames on their way follow on from what
  the receiver has: that is why a replacement carrier never shows the receiver a gap.
\<close>

section \<open>What is on its way\<close>

fun held :: "reader \<Rightarrow> frame list" where
  "held (Checking f) = [f]"
| "held (Disposing f) = [f]"
| "held (Applying f) = [f]"
| "held _ = []"

fun frames :: "msg list \<Rightarrow> frame list" where
  "frames [] = []"
| "frames (MFrame f # ms) = f # frames ms"
| "frames (MHello h # ms) = frames ms"

lemma frames_append [simp]: "frames (ms @ ns) = frames ms @ frames ns"
  by (induction ms rule: frames.induct) simp_all

lemma frames_set: "f \<in> set (frames ms) \<Longrightarrow> MFrame f \<in> set ms"
  by (induction ms rule: frames.induct) auto

text \<open>Whether the read loop of a link may still take up a frame of the application.\<close>

fun listens :: "reader \<Rightarrow> bool \<Rightarrow> bool" where
  "listens Unused p = True"
| "listens Attaching p = True"
| "listens Reading p = p"
| "listens (Checking f) p = p"
| "listens (Disposing f) p = p"
| "listens (Applying f) p = p"
| "listens (Answering b) p = p"
| "listens _ p = False"

lemma listens_mono: "listens r p \<Longrightarrow> (p \<Longrightarrow> p') \<Longrightarrow> listens r p'"
  by (cases r) simp_all

fun reaches :: "nat \<Rightarrow> frame list \<Rightarrow> nat" where
  "reaches p [] = p"
| "reaches p (f # fs) = reaches (if fr_kind f = Data then max p (fr_seq f + length (fr_payload f)) else p) fs"

fun chained :: "nat \<Rightarrow> frame list \<Rightarrow> bool" where
  "chained p [] = True"
| "chained p (f # fs) \<longleftrightarrow>
     (fr_kind f = Data \<or> fr_kind f = FIN \<longrightarrow> fr_seq f \<le> p) \<and>
     chained (if fr_kind f = Data then max p (fr_seq f + length (fr_payload f)) else p) fs"

lemma reaches_mono: "p \<le> q \<Longrightarrow> reaches p fs \<le> reaches q fs"
  by (induction fs arbitrary: p q) (simp_all add: max.coboundedI1 max.mono)

lemma reaches_ge: "p \<le> reaches p fs"
proof (induction fs arbitrary: p)
  case (Cons f fs)
  have "p \<le> (if fr_kind f = Data then max p (fr_seq f + length (fr_payload f)) else p)" by simp
  also have "\<dots> \<le> reaches \<dots> fs" by (rule Cons)
  finally show ?case by simp
qed simp

lemma reaches_append: "reaches p (fs @ gs) = reaches (reaches p fs) gs"
  by (induction fs arbitrary: p) simp_all

lemma chained_mono: "chained p fs \<Longrightarrow> p \<le> q \<Longrightarrow> chained q fs"
proof (induction fs arbitrary: p q)
  case (Cons f fs)
  let ?e = "\<lambda>p. if fr_kind f = Data then max p (fr_seq f + length (fr_payload f)) else p"
  have "chained (?e p) fs" "?e p \<le> ?e q" using Cons.prems by auto
  then have "chained (?e q) fs" by (rule Cons.IH)
  with Cons.prems show ?case by auto
qed simp

lemma chained_append: "chained p (fs @ gs) \<longleftrightarrow> chained p fs \<and> chained (reaches p fs) gs"
  by (induction fs arbitrary: p) simp_all

text \<open>The writer of a link goes on from at most what the frames before it reach.\<close>

fun loop_ok :: "link \<Rightarrow> nat \<Rightarrow> goroutine \<Rightarrow> bool" where
  "loop_ok l n (WriteLoop l' off) \<longleftrightarrow> (l' = l \<longrightarrow> off \<le> n)"
| "loop_ok l n (WriteData l' f off) \<longleftrightarrow> (l' = l \<longrightarrow> fr_seq f \<le> n \<and> off = fr_seq f + length (fr_payload f))"
| "loop_ok l n (WriteFIN l' f off) \<longleftrightarrow> (l' = l \<longrightarrow> fr_seq f \<le> n \<and> off \<le> n)"
| "loop_ok l n (MarkFIN l' off) \<longleftrightarrow> (l' = l \<longrightarrow> off \<le> n)"
| "loop_ok l n _ \<longleftrightarrow> True"

lemma loop_ok_mono: "loop_ok l n g \<Longrightarrow> n \<le> m \<Longrightarrow> loop_ok l m g"
  by (cases g) auto

definition linked :: "frame list \<Rightarrow> reader \<Rightarrow> conn \<Rightarrow> goroutine list \<Rightarrow> link \<Rightarrow> bool" where
  "linked q r y gs l \<longleftrightarrow>
     (listens r (points y l) \<longrightarrow>
        chained (cn_recvNext y) (held r @ q) \<and> (\<forall>g\<in>set gs. loop_ok l (reaches (cn_recvNext y) (held r @ q)) g))"

section \<open>The invariant\<close>

fun go_valid :: "bytes \<Rightarrow> conn \<Rightarrow> goroutine \<Rightarrow> bool" where
  "go_valid W x (WriteData l f off) \<longleftrightarrow> fr_kind f = Data \<and> frame_valid W x f"
| "go_valid W x (WriteFIN l f off) \<longleftrightarrow> fr_kind f = FIN \<and> frame_valid W x f"
| "go_valid W x (WriteAck l f) \<longleftrightarrow> fr_kind f = Ack \<and> frame_valid W x f"
| "go_valid W x (WriteFINAck l f) \<longleftrightarrow> fr_kind f = FINAck \<and> frame_valid W x f"
| "go_valid W x (Terminate e) \<longleftrightarrow> e = ErrExpired"
| "go_valid W x _ \<longleftrightarrow> True"

text \<open>The coordinator of end \<open>x\<close>, with the read loops of that end and the other end \<open>y\<close>.\<close>

fun coord_ok :: "coordinator \<Rightarrow> (link \<Rightarrow> reader) \<Rightarrow> conn \<Rightarrow> conn \<Rightarrow> bool" where
  "coord_ok (HelloWrite l h) rd x y \<longleftrightarrow> rd l = Attaching \<and> \<not> points x l \<and> hl_ack h \<le> cn_recvBase x"
| "coord_ok (HelloRead l h) rd x y \<longleftrightarrow> rd l = Attaching \<and> \<not> points x l"
| "coord_ok (HelloReply l h h') rd x y \<longleftrightarrow> rd l = Attaching \<and> \<not> points x l \<and> hl_ack h' \<le> cn_recvBase y"
| "coord_ok (ReaderStart l) rd x y \<longleftrightarrow> rd l = Attaching \<and> (cn_prepared x = None \<or> cn_prepared x = Some l)"
| "coord_ok (AcceptRead l) rd x y \<longleftrightarrow> rd l = Attaching \<and> \<not> points x l"
| "coord_ok (AcceptDecide l h) rd x y \<longleftrightarrow> rd l = Attaching \<and> \<not> points x l \<and> hl_ack h \<le> cn_recvBase y"
| "coord_ok (AcceptWrite l h old) rd x y \<longleftrightarrow> rd l = Attaching \<and> hl_ack h \<le> cn_recvBase x"
| "coord_ok (AcceptFailed l old) rd x y \<longleftrightarrow> rd l = Attaching"
| "coord_ok (AcceptDone l old) rd x y \<longleftrightarrow> rd l = Attaching"
| "coord_ok _ rd x y \<longleftrightarrow> True"

text \<open>The stages of \<^verbatim>\<open>readCarrier\<close> at which the data of the stream itself would be at fault.\<close>

definition data_stages :: "string list" where
  "data_stages = [''data_sequence_gap'', ''data_window_exceeded'', ''ack_beyond_send_next'', ''fin_sequence_mismatch'', ''fin_ack_state_mismatch'']"

definition blameless :: "conn \<Rightarrow> bool" where
  "blameless c \<longleftrightarrow> (\<forall>st. cn_terminal c = Some (ErrProtocolViolation st) \<longrightarrow> st \<notin> set data_stages)"

fun reader_ok :: "conn \<Rightarrow> link \<Rightarrow> reader \<Rightarrow> bool" where
  "reader_ok y l Unused \<longleftrightarrow> \<not> points y l"
| "reader_ok y l (Applying f) \<longleftrightarrow> (fr_kind f = Data \<or> fr_kind f = FIN \<longrightarrow> fr_seq f \<le> cn_recvNext y)"
| "reader_ok y l (Violating st) \<longleftrightarrow> st \<notin> set data_stages"
| "reader_ok y l _ \<longleftrightarrow> True"

definition end_ok :: "side \<Rightarrow> sys \<Rightarrow> bool" where
  "end_ok a s \<longleftrightarrow>
     (let b = other a; W = sy_written s a; x = sy_conn s a; y = sy_conn s b
      in flow W x y (sy_read s b) (sy_eof s b) \<and> coherent x \<and> blameless x \<and>
         coord_ok (sy_coordinator s a) (sy_reader s a) x y \<and>
         (\<forall>g\<in>set (sy_go s a). go_valid W x g) \<and>
         (\<forall>l. (\<forall>m\<in>set (sy_queue s b l). msg_valid W x m) \<and> (\<forall>f\<in>set (held (sy_reader s b l)). frame_valid W x f) \<and>
              linked (frames (sy_queue s b l)) (sy_reader s b l) y (sy_go s a) l \<and> reader_ok x l (sy_reader s a l)))"

definition stream_inv :: "sys \<Rightarrow> bool" where
  "stream_inv s \<longleftrightarrow> end_ok Initiator s \<and> end_ok Responder s"

lemma stream_inv_end: "stream_inv s \<longleftrightarrow> end_ok a s \<and> end_ok (other a) s"
  by (cases a) (auto simp: stream_inv_def)

lemma end_okD:
  assumes "end_ok a s"
  shows "flow (sy_written s a) (sy_conn s a) (sy_conn s (other a)) (sy_read s (other a)) (sy_eof s (other a))"
    "coherent (sy_conn s a)" "blameless (sy_conn s a)"
    "coord_ok (sy_coordinator s a) (sy_reader s a) (sy_conn s a) (sy_conn s (other a))"
    "g \<in> set (sy_go s a) \<Longrightarrow> go_valid (sy_written s a) (sy_conn s a) g"
    "m \<in> set (sy_queue s (other a) l) \<Longrightarrow> msg_valid (sy_written s a) (sy_conn s a) m"
    "f \<in> set (held (sy_reader s (other a) l)) \<Longrightarrow> frame_valid (sy_written s a) (sy_conn s a) f"
    "linked (frames (sy_queue s (other a) l)) (sy_reader s (other a) l) (sy_conn s (other a)) (sy_go s a) l"
    "reader_ok (sy_conn s a) l (sy_reader s a l)"
  using assms by (auto simp: end_ok_def Let_def)

section \<open>Changes that keep it\<close>

text \<open>Each step is made of a few changes of the state; these lemmas say when one of them keeps the invariant.\<close>

lemma inv_quiet [simp]:
  "stream_inv (shut a l s) = stream_inv s" "stream_inv (break_link a l s) = stream_inv s" "stream_inv (s\<lparr>sy_panic := p\<rparr>) = stream_inv s"
  by (simp_all add: stream_inv_def end_ok_def shut_def break_link_def)

lemma inv_coordinator:
  assumes "stream_inv s" and "coord_ok p (sy_reader s a) (sy_conn s a) (sy_conn s (other a))"
  shows "stream_inv (set_coordinator a p s)"
  using assms unfolding stream_inv_end[of _ a] by (simp add: end_ok_def set_coordinator_def Let_def)

definition go_ok :: "side \<Rightarrow> sys \<Rightarrow> goroutine \<Rightarrow> bool" where
  "go_ok a s g \<longleftrightarrow>
     go_valid (sy_written s a) (sy_conn s a) g \<and>
     (\<forall>l. listens (sy_reader s (other a) l) (points (sy_conn s (other a)) l) \<longrightarrow>
        loop_ok l (reaches (cn_recvNext (sy_conn s (other a))) (held (sy_reader s (other a) l) @ frames (sy_queue s (other a) l))) g)"

lemma inv_go_ok: "stream_inv s \<Longrightarrow> g \<in> set (sy_go s a) \<Longrightarrow> go_ok a s g"
  unfolding stream_inv_end[of _ a] by (auto simp: end_ok_def go_ok_def linked_def Let_def)

lemma inv_go:
  assumes "stream_inv s" and "\<forall>g\<in>set gs. go_ok a s g"
  shows "stream_inv (s\<lparr>sy_go := (sy_go s)(a := gs)\<rparr>)"
  using assms unfolding stream_inv_end[of _ a] by (auto simp: end_ok_def go_ok_def linked_def Let_def)

lemma inv_spawn:
  assumes "stream_inv s" and "\<forall>g\<in>set gs. go_ok a s g"
  shows "stream_inv (spawn a gs s)"
  unfolding spawn_def by (rule inv_go) (use assms inv_go_ok in auto)

lemma inv_reader_queue:
  assumes i: "stream_inv s" and "coord_ok (sy_coordinator s a) ((sy_reader s a)(l := r)) (sy_conn s a) (sy_conn s (other a))"
    and "reader_ok (sy_conn s a) l r" and "\<forall>f\<in>set (held r). frame_valid (sy_written s (other a)) (sy_conn s (other a)) f"
    and "linked (frames q) r (sy_conn s a) (sy_go s (other a)) l" and "set q \<subseteq> set (sy_queue s a l)"
  shows "stream_inv (set_reader a l r (set_queue a l q s))"
  using assms unfolding stream_inv_end[of _ a] by (auto simp: end_ok_def set_reader_def set_queue_def Let_def)

lemma set_queue_same [simp]: "set_queue a l (sy_queue s a l) s = s"
  by (simp add: set_queue_def)

lemma inv_reader:
  assumes i: "stream_inv s" and "coord_ok (sy_coordinator s a) ((sy_reader s a)(l := r)) (sy_conn s a) (sy_conn s (other a))"
    and "reader_ok (sy_conn s a) l r" and "\<forall>f\<in>set (held r). frame_valid (sy_written s (other a)) (sy_conn s (other a)) f"
    and "linked (frames (sy_queue s a l)) r (sy_conn s a) (sy_go s (other a)) l"
  shows "stream_inv (set_reader a l r s)"
  using inv_reader_queue[of s a l r "sy_queue s a l"] assms by simp

lemma coord_conn:
  assumes "coord_ok p rd x y" and "cn_recvBase x \<le> cn_recvBase x'" and "cn_recvBase y \<le> cn_recvBase y'"
    and "cn_prepared x' = None \<or> cn_prepared x' = cn_prepared x" and "\<And>l. points x' l \<Longrightarrow> points x l"
  shows "coord_ok p rd x' y'"
  using assms by (cases p) auto

text \<open>The connection of an end changes, together with what its application has written and read.\<close>

definition set_end :: "side \<Rightarrow> conn \<Rightarrow> bytes \<Rightarrow> bytes \<Rightarrow> bool \<Rightarrow> sys \<Rightarrow> sys" where
  "set_end a c W R eof s =
     s\<lparr>sy_conn := (sy_conn s)(a := c), sy_written := (sy_written s)(a := W), sy_read := (sy_read s)(a := R), sy_eof := (sy_eof s)(a := eof)\<rparr>"

lemma set_conn_end: "set_conn a c s = set_end a c (sy_written s a) (sy_read s a) (sy_eof s a) s"
  by (simp add: set_conn_def set_end_def)

lemma listening_mono:
  assumes "linked q r y gs l" and "points y' l \<Longrightarrow> points y l \<or> r = Attaching" and "cn_recvNext y \<le> cn_recvNext y'"
  shows "linked q r y' gs l"
proof -
  have "listens r (points y' l) \<Longrightarrow> listens r (points y l)" using assms(2) by (cases r) auto
  moreover have "chained (cn_recvNext y) (held r @ q) \<Longrightarrow> chained (cn_recvNext y') (held r @ q)"
    using assms(3) by (rule chained_mono[rotated])
  moreover have "loop_ok l (reaches (cn_recvNext y) (held r @ q)) g \<Longrightarrow> loop_ok l (reaches (cn_recvNext y') (held r @ q)) g" for g
    using loop_ok_mono reaches_mono[OF assms(3)] by blast
  ultimately show ?thesis using assms(1) unfolding linked_def by blast
qed

lemma reader_ok_mono:
  "reader_ok y l r \<Longrightarrow> cn_recvNext y \<le> cn_recvNext y' \<Longrightarrow> (points y' l \<Longrightarrow> points y l \<or> r = Attaching) \<Longrightarrow> reader_ok y' l r"
  by (cases r) auto

lemma go_valid_grows: "go_valid W x g \<Longrightarrow> grows W x W' x' \<Longrightarrow> go_valid W' x' g"
  by (cases g) (auto intro: frame_valid_grows)

lemma inv_end:
  assumes i: "stream_inv s"
    and f1: "flow W c (sy_conn s (other a)) (sy_read s (other a)) (sy_eof s (other a))"
    and f2: "flow (sy_written s (other a)) (sy_conn s (other a)) c R eof"
    and g: "grows (sy_written s a) (sy_conn s a) W c" and n: "cn_recvNext (sy_conn s a) \<le> cn_recvNext c"
    and c: "coherent c" "blameless c" "coord_ok (sy_coordinator s a) (sy_reader s a) c (sy_conn s (other a))"
    and p: "\<And>l. points c l \<Longrightarrow> points (sy_conn s a) l \<or> sy_reader s a l = Attaching"
  shows "stream_inv (set_end a c W R eof s)"
proof -
  let ?b = "other a" and ?s = "set_end a c W R eof s"
  have ea: "end_ok a s" and eb: "end_ok ?b s" using i stream_inv_end by blast+
  have "end_ok a ?s"
    unfolding end_ok_def Let_def set_end_def using f1 c end_okD(5-9)[OF ea] g n
    by (auto intro: msg_valid_grows frame_valid_grows go_valid_grows reader_ok_mono[OF _ n p])
  moreover have "end_ok ?b ?s"
  proof -
    have "cn_recvBase (sy_conn s a) \<le> cn_recvBase c" using g by (simp add: grows_def)
    then have "coord_ok (sy_coordinator s ?b) (sy_reader s ?b) (sy_conn s ?b) c"
      using coord_conn[OF end_okD(4)[OF eb]] by simp
    moreover have "linked (frames (sy_queue s a l)) (sy_reader s a l) c (sy_go s ?b) l" for l
      using listening_mono[OF _ p n] end_okD(8)[OF eb] by simp
    ultimately show ?thesis
      unfolding end_ok_def Let_def set_end_def using f2 end_okD(2,3,5-7,9)[OF eb] by simp
  qed
  ultimately show ?thesis using stream_inv_end by blast
qed

text \<open>A change of the carriers alone.\<close>

lemma inv_attach:
  assumes i: "stream_inv s" and d: "data_of c = data_of (sy_conn s a)"
    and c: "coherent c" "blameless c" "coord_ok (sy_coordinator s a) (sy_reader s a) c (sy_conn s (other a))"
    and p: "\<And>l. points c l \<Longrightarrow> points (sy_conn s a) l \<or> sy_reader s a l = Attaching"
  shows "stream_inv (set_conn a c s)"
proof -
  have ea: "end_ok a s" and eb: "end_ok (other a) s" using i stream_inv_end by blast+
  show ?thesis unfolding set_conn_end
  proof (rule inv_end[OF i _ _ _ _ c p])
    show "flow (sy_written s a) c (sy_conn s (other a)) (sy_read s (other a)) (sy_eof s (other a))"
      using end_okD(1)[OF ea] d by (simp add: flow_data[OF d refl])
    show "flow (sy_written s (other a)) (sy_conn s (other a)) c (sy_read s a) (sy_eof s a)"
      using end_okD(1)[OF eb] by (simp add: flow_data[OF refl d])
  qed (simp_all add: grows_data[OF d] data_ofD[OF d])
qed

lemma inv_conn:
  assumes i: "stream_inv s" and n: "narrows (sy_conn s a) c" and "blameless c"
  shows "stream_inv (set_conn a c s)"
proof (rule inv_attach[OF i])
  have ea: "end_ok a s" using i stream_inv_end by blast
  show d: "data_of c = data_of (sy_conn s a)" using n by (simp add: narrows_def)
  show "coherent c" using n end_okD(2)[OF ea] by (simp add: narrows_def)
  show "coord_ok (sy_coordinator s a) (sy_reader s a) c (sy_conn s (other a))"
    by (rule coord_conn[OF end_okD(4)[OF ea]]) (use n data_ofD[OF d] in \<open>auto simp: narrows_def\<close>)
qed (use n assms(3) in \<open>auto simp: narrows_def\<close>)

text \<open>A change of the data alone.\<close>

lemma inv_data:
  assumes i: "stream_inv s" and st: "steady (sy_conn s a) c"
    and "flow W c (sy_conn s (other a)) (sy_read s (other a)) (sy_eof s (other a))"
    and "flow (sy_written s (other a)) (sy_conn s (other a)) c R eof"
    and g: "grows (sy_written s a) (sy_conn s a) W c" and "cn_recvNext (sy_conn s a) \<le> cn_recvNext c"
  shows "stream_inv (set_end a c W R eof s)"
proof (rule inv_end[OF i assms(3-6)])
  have ea: "end_ok a s" using i stream_inv_end by blast
  show "coherent c" "blameless c" using end_okD(2,3)[OF ea] steady_coherent[OF st] by (simp_all add: blameless_def)
  show "coord_ok (sy_coordinator s a) (sy_reader s a) c (sy_conn s (other a))"
    by (rule coord_conn[OF end_okD(4)[OF ea]]) (use g st steady_coherent[OF st] in \<open>auto simp: grows_def steady_def\<close>)
qed (simp add: steady_coherent[OF st])

lemma inv_sender:
  assumes i: "stream_inv s" and "steady (sy_conn s a) c" and r: "same_receiver (sy_conn s a) c"
    and "flow (sy_written s a) c (sy_conn s (other a)) (sy_read s (other a)) (sy_eof s (other a))"
    and "cn_localFIN (sy_conn s a) \<Longrightarrow> cn_localFIN c"
  shows "stream_inv (set_conn a c s)"
  unfolding set_conn_end
proof (rule inv_data[OF i assms(2,4)])
  have "end_ok (other a) s" using i stream_inv_end by blast
  then show "flow (sy_written s (other a)) (sy_conn s (other a)) c (sy_read s a) (sy_eof s a)"
    using end_okD(1)[of "other a" s] by (simp add: flow_receiver[OF r])
qed (use r assms(5) in \<open>auto simp: grows_def same_receiver_def\<close>)

lemma inv_receiver:
  assumes i: "stream_inv s" and "steady (sy_conn s a) c" and sd: "same_sender (sy_conn s a) c"
    and "flow (sy_written s (other a)) (sy_conn s (other a)) c R eof" and "cn_recvBase (sy_conn s a) \<le> cn_recvBase c"
    and "cn_recvNext (sy_conn s a) \<le> cn_recvNext c"
    and "cn_remoteFIN (sy_conn s a) \<longrightarrow> cn_remoteFIN c \<and> cn_remoteFINAt c = cn_remoteFINAt (sy_conn s a)"
  shows "stream_inv (set_end a c (sy_written s a) R eof s)"
proof (rule inv_data[OF i assms(2) _ assms(4) _ assms(6)])
  have "end_ok a s" using i stream_inv_end by blast
  then show "flow (sy_written s a) c (sy_conn s (other a)) (sy_read s (other a)) (sy_eof s (other a))"
    using end_okD(1)[of a s] by (simp add: flow_sender[OF sd])
qed (use sd assms(5,7) in \<open>auto simp: grows_def same_sender_def\<close>)

section \<open>Messages\<close>

lemma inv_arrive:
  assumes i: "stream_inv s" and v: "msg_valid (sy_written s a) (sy_conn s a) m"
    and ch: "\<And>f. m = MFrame f \<Longrightarrow> fr_kind f = Data \<or> fr_kind f = FIN \<Longrightarrow>
               listens (sy_reader s (other a) l) (points (sy_conn s (other a)) l) \<Longrightarrow>
               fr_seq f \<le> reaches (cn_recvNext (sy_conn s (other a))) (held (sy_reader s (other a) l) @ frames (sy_queue s (other a) l))"
  shows "stream_inv (set_queue (other a) l (sy_queue s (other a) l @ [m]) s)"
proof -
  let ?b = "other a"
  have ea: "end_ok a s" and eb: "end_ok ?b s" using i stream_inv_end by blast+
  let ?p = "cn_recvNext (sy_conn s ?b)" and ?fs = "held (sy_reader s ?b l) @ frames (sy_queue s ?b l)"
  have c: "chained ?p (?fs @ frames [m])" if t: "listens (sy_reader s ?b l) (points (sy_conn s ?b) l)"
  proof -
    have 0: "chained ?p ?fs" using end_okD(8)[OF ea, of l] t by (simp add: linked_def)
    show ?thesis
    proof (cases m)
      case (MFrame f)
      then have "chained (reaches ?p ?fs) (frames [m])" using ch[OF MFrame _ t] by simp
      then show ?thesis using 0 chained_append[of ?p ?fs "frames [m]"] by blast
    qed (use 0 in simp)
  qed
  have "loop_ok l (reaches ?p (?fs @ frames [m])) g"
    if "g \<in> set (sy_go s a)" "listens (sy_reader s ?b l) (points (sy_conn s ?b) l)" for g
  proof -
    have "loop_ok l (reaches ?p ?fs) g" using end_okD(8)[OF ea, of l] that by (simp add: linked_def)
    then show ?thesis unfolding reaches_append by (rule loop_ok_mono) (rule reaches_ge)
  qed
  with c have "linked (frames (sy_queue s ?b l @ [m])) (sy_reader s ?b l) (sy_conn s ?b) (sy_go s a) l" by (simp add: linked_def)
  then have "end_ok a (set_queue ?b l (sy_queue s ?b l @ [m]) s)"
    unfolding end_ok_def Let_def set_queue_def using end_okD[OF ea] v by simp
  moreover have "end_ok ?b (set_queue ?b l (sy_queue s ?b l @ [m]) s)"
    using eb by (simp add: end_ok_def set_queue_def Let_def)
  ultimately show ?thesis using stream_inv_end by blast
qed

text \<open>A write leaves everything but the queue and the state of the link alone; it returns success only if its message is on its way.\<close>

lemma send_msg_same:
  assumes "send_msg a l m e s = (ok, s1)"
  shows "sy_conn s1 = sy_conn s" "sy_reader s1 = sy_reader s" "sy_go s1 = sy_go s" "sy_coordinator s1 = sy_coordinator s"
    "sy_written s1 = sy_written s" "sy_read s1 = sy_read s"
    "ok \<Longrightarrow> sy_queue s1 = (sy_queue s)(other a := (sy_queue s (other a))(l := sy_queue s (other a) l @ [m]))"
  using assms by (auto simp: send_msg_def set_queue_def break_link_def Let_def split: if_splits env.splits)

lemma inv_send:
  assumes "send_msg a l m e s = (ok, s1)" and i: "stream_inv s" and "msg_valid (sy_written s a) (sy_conn s a) m"
    and "\<And>f. m = MFrame f \<Longrightarrow> fr_kind f = Data \<or> fr_kind f = FIN \<Longrightarrow>
               listens (sy_reader s (other a) l) (points (sy_conn s (other a)) l) \<Longrightarrow>
               fr_seq f \<le> reaches (cn_recvNext (sy_conn s (other a))) (held (sy_reader s (other a) l) @ frames (sy_queue s (other a) l))"
  shows "stream_inv s1"
proof -
  have "stream_inv (set_queue (other a) l (sy_queue s (other a) l @ [m]) s)" by (rule inv_arrive) (use assms in auto)
  with assms(1) i show ?thesis by (auto simp: send_msg_def Let_def split: if_splits env.splits)
qed

lemma inv_send_control:
  assumes "send_msg a l (MFrame f) e s = (ok, s1)" and "stream_inv s" and "\<not> application_kind (fr_kind f)"
  shows "stream_inv s1"
  by (rule inv_send[OF assms(1,2)])
    (use assms(3) in \<open>auto simp: msg_valid_def frame_valid_def application_kind_def split: kind.splits\<close>)

lemma inv_send_hello:
  assumes "send_msg a l (MHello h) e s = (ok, s1)" and "stream_inv s" and "hl_ack h \<le> cn_recvBase (sy_conn s a)"
  shows "stream_inv s1"
  by (rule inv_send[OF assms(1,2)]) (use assms(3) in \<open>auto simp: msg_valid_def\<close>)

end
