(* ===== verification/Resumable_Steps.thy ===== *)
theory Resumable_Steps
  imports Resumable_Safety
begin

text \<open>
  Every step of the resumable stream keeps the invariant: the coordinator, the read loops, the
  writers and the calls of the application, one lemma each.
\<close>

section \<open>Failing and stopping\<close>

lemma inv_ends: "stream_inv s \<Longrightarrow> end_ok a s"
  using stream_inv_end[of s a] by blast

lemma go_ok_quiet [simp]:
  "go_ok a s (Expire q)" "go_ok a s (CloseLink l)" "go_ok a s (WriteReset l)" "go_ok a s (FailCarrier l b)" "go_ok a s Acks"
  "go_ok a s (MarkAck l n)" "go_ok a s (WriteConfirm l)" "go_ok a s (MarkConfirm l)" "go_ok a s (WriteLoop l 0)"
  "go_ok a s (Terminate ErrExpired)"
  by (simp_all add: go_ok_def)

lemma set_same [simp]:
  "sy_coordinator (set_conn a c s) = sy_coordinator s" "sy_reader (set_conn a c s) = sy_reader s" "sy_go (set_conn a c s) = sy_go s"
  "sy_conn (set_coordinator a p s) = sy_conn s" "sy_reader (set_coordinator a p s) = sy_reader s" "sy_go (set_coordinator a p s) = sy_go s"
  "sy_queue (set_conn a c s) = sy_queue s" "sy_queue (set_coordinator a p s) = sy_queue s" "sy_coordinator (set_reader a l r s) = sy_coordinator s"
  "sy_conn (set_reader a l r s) = sy_conn s" "sy_conn (shut a l s) = sy_conn s" "sy_coordinator (shut a l s) = sy_coordinator s"
  "sy_reader (shut a l s) = sy_reader s" "sy_written (set_conn a c s) = sy_written s" "sy_written (set_coordinator a p s) = sy_written s"
  "sy_conn (spawn a gs s) = sy_conn s" "sy_coordinator (spawn a gs s) = sy_coordinator s" "sy_reader (spawn a gs s) = sy_reader s"
  "sy_queue (shut a l s) = sy_queue s" "sy_go (shut a l s) = sy_go s" "sy_queue (spawn a gs s) = sy_queue s"
  by (simp_all add: set_conn_def set_coordinator_def set_reader_def shut_def spawn_def)

lemma sy_conn_set [simp]: "sy_conn (set_conn a c s) b = (if b = a then c else sy_conn s b)"
  by (simp add: set_conn_def)

lemma sy_coordinator_set [simp]: "sy_coordinator (set_coordinator a p s) b = (if b = a then p else sy_coordinator s b)"
  by (simp add: set_coordinator_def)

lemma sy_reader_set: "sy_reader (set_reader a l r s) = (sy_reader s)(a := (sy_reader s a)(l := r))"
  by (simp add: set_reader_def)

lemma inv_fail_carrier:
  assumes i: "stream_inv s"
  shows "stream_inv (fail_carrier a l s)"
proof -
  obtain u d c where f: "failCarrier l ErrLink (sy_conn s a) = (u, d, c)" by (metis prod_cases3)
  have "narrows (sy_conn s a) c" "cn_terminal c = cn_terminal (sy_conn s a)"
    using failCarrier_narrows[where l = l and e = ErrLink and c = "sy_conn s a"] f by simp_all
  then have "stream_inv (set_conn a c s)" using end_okD(3)[OF inv_ends[OF i, of a]] by (intro inv_conn[OF i]) (simp_all add: blameless_def)
  then have "stream_inv (if u then shut a l (set_conn a c s) else set_conn a c s)" by simp
  then show ?thesis by (cases d) (simp_all add: fail_carrier_def f Let_def inv_spawn)
qed

lemma fail_carrier_same: "sy_coordinator (fail_carrier a l s) = sy_coordinator s" "sy_reader (fail_carrier a l s) = sy_reader s"
  by (auto simp: fail_carrier_def Let_def split: prod.split option.split)

lemma inv_terminate:
  assumes i: "stream_inv s" and e: "\<And>st. e = ErrProtocolViolation st \<Longrightarrow> st \<notin> set data_stages"
  shows "stream_inv (terminate a e s)"
proof -
  obtain ls c where f: "failTerminal e (sy_conn s a) = (ls, c)" by fastforce
  have "blameless c"
    using failTerminal_terminal[of e "sy_conn s a"] f e end_okD(3)[OF inv_ends[OF i, of a]]
    by (auto simp: blameless_def split: option.splits)
  then have "stream_inv (set_conn a c s)" using failTerminal_narrows[of "sy_conn s a" e] f by (intro inv_conn[OF i]) simp_all
  then show ?thesis by (simp add: terminate_def f inv_spawn)
qed

lemma terminate_same: "sy_coordinator (terminate a e s) = sy_coordinator s" "sy_reader (terminate a e s) = sy_reader s"
  by (auto simp: terminate_def split: prod.split)

section \<open>Read loops\<close>

lemma coord_other: "coord_ok p rd x y \<Longrightarrow> rd l \<noteq> Attaching \<Longrightarrow> coord_ok p (rd(l := r)) x y"
  by (cases p) auto

lemma inv_reader_dead:
  assumes i: "stream_inv s" and "sy_reader s a l \<noteq> Attaching" and "\<And>p. \<not> listens r p" and "reader_ok (sy_conn s a) l r" and "held r = []"
  shows "stream_inv (set_reader a l r s)"
  by (rule inv_reader[OF i])
    (use assms coord_other[OF end_okD(4)[OF inv_ends[OF i, of a]]] in \<open>auto simp: linked_def\<close>)

lemma inv_reader_dead_queue:
  assumes i: "stream_inv s" and "sy_reader s a l \<noteq> Attaching" and "\<And>p. \<not> listens r p" and "reader_ok (sy_conn s a) l r" and "held r = []"
    and "set q \<subseteq> set (sy_queue s a l)"
  shows "stream_inv (set_reader a l r (set_queue a l q s))"
  by (rule inv_reader_queue[OF i])
    (use assms coord_other[OF end_okD(4)[OF inv_ends[OF i, of a]]] in \<open>auto simp: linked_def\<close>)

text \<open>The frame that a read loop holds is done with.\<close>

lemma inv_read_on:
  assumes i: "stream_inv s" and h: "held (sy_reader s a l) = [f]" "sy_reader s a l \<noteq> Attaching"
    and r: "r = Reading \<or> r = Answering b"
    and d: "points (sy_conn s a) l \<Longrightarrow> fr_kind f = Data \<Longrightarrow> fr_seq f + length (fr_payload f) \<le> cn_recvNext (sy_conn s a)"
  shows "stream_inv (set_reader a l r s)"
proof (rule inv_reader[OF i])
  let ?p = "cn_recvNext (sy_conn s a)" and ?q = "frames (sy_queue s a l)"
  have l: "linked ?q (sy_reader s a l) (sy_conn s a) (sy_go s (other a)) l"
    using end_okD(8)[OF inv_ends[OF i, of "other a"], of l] by simp
  have "listens (sy_reader s a l) p = p" for p using h by (cases "sy_reader s a l") simp_all
  moreover have "listens r p = p" "held r = []" for p using r by auto
  moreover have "reaches ?p (f # ?q) = reaches ?p ?q" "chained ?p (f # ?q) \<Longrightarrow> chained ?p ?q" if "points (sy_conn s a) l"
    using d[OF that] by (auto simp: max_absorb1 split: if_splits)
  ultimately show "linked ?q r (sy_conn s a) (sy_go s (other a)) l" using l unfolding linked_def h(1) by auto
  show "coord_ok (sy_coordinator s a) ((sy_reader s a)(l := r)) (sy_conn s a) (sy_conn s (other a))"
    using coord_other[OF end_okD(4)[OF inv_ends[OF i, of a]]] h(2) by blast
qed (use r in auto)

text \<open>The read loop takes the next frame off the link.\<close>

lemma inv_take:
  assumes i: "stream_inv s" and "sy_reader s a l = Reading" and q: "sy_queue s a l = MFrame f # q"
  shows "stream_inv (set_reader a l (Checking f) (set_queue a l q s))"
proof (rule inv_reader_queue[OF i])
  have eb: "end_ok (other a) s" by (rule inv_ends[OF i])
  show "linked (frames q) (Checking f) (sy_conn s a) (sy_go s (other a)) l"
    using end_okD(8)[OF eb, of l] assms(2) q by (simp add: linked_def)
  show "coord_ok (sy_coordinator s a) ((sy_reader s a)(l := Checking f)) (sy_conn s a) (sy_conn s (other a))"
    using coord_other[OF end_okD(4)[OF inv_ends[OF i, of a]]] assms(2) by simp
  show "\<forall>f\<in>set (held (Checking f)). frame_valid (sy_written s (other a)) (sy_conn s (other a)) f"
    using end_okD(6)[OF eb, of "MFrame f" l] q by (simp add: msg_valid_def)
qed (use q in auto)

text \<open>The read loop moves on with the frame it holds.\<close>

lemma inv_hold:
  assumes i: "stream_inv s" and r: "sy_reader s a l = Checking f \<or> sy_reader s a l = Disposing f"
    and r': "r' = Disposing f \<or> r' = Applying f" and "reader_ok (sy_conn s a) l r'"
  shows "stream_inv (set_reader a l r' s)"
proof (rule inv_reader[OF i])
  have eb: "end_ok (other a) s" by (rule inv_ends[OF i])
  show "linked (frames (sy_queue s a l)) r' (sy_conn s a) (sy_go s (other a)) l"
    using end_okD(8)[OF eb, of l] r r' by (auto simp: linked_def)
  show "coord_ok (sy_coordinator s a) ((sy_reader s a)(l := r')) (sy_conn s a) (sy_conn s (other a))"
    using coord_other[OF end_okD(4)[OF inv_ends[OF i, of a]]] r by auto
  show "\<forall>f\<in>set (held r'). frame_valid (sy_written s (other a)) (sy_conn s (other a)) f"
    using end_okD(7)[OF eb, of f l] r r' by auto
qed (use assms(4) in auto)

text \<open>What a read loop does after a frame, provided the frame is absorbed.\<close>

fun harmless :: "sys \<Rightarrow> side \<Rightarrow> reaction \<Rightarrow> bool" where
  "harmless s a (Violation st) \<longleftrightarrow> st \<notin> set data_stages"
| "harmless s a (AcknowledgeFIN n) \<longleftrightarrow> cn_remoteFIN (sy_conn s a) \<and> n = cn_remoteFINAt (sy_conn s a)"
| "harmless s a _ \<longleftrightarrow> True"

lemma inv_react:
  assumes i: "stream_inv s" and h: "held (sy_reader s a l) = [f]" and r: "harmless s a r"
    and d: "points (sy_conn s a) l \<Longrightarrow> fr_kind f = Data \<Longrightarrow> fr_seq f + length (fr_payload f) \<le> cn_recvNext (sy_conn s a)"
  shows "stream_inv (react a l r s)"
proof -
  have na: "sy_reader s a l \<noteq> Attaching" using h by auto
  have on: "stream_inv (set_reader a l Reading s)" "stream_inv (set_reader a l (Answering b) s)" for b
    using inv_read_on[OF i h na] d by blast+
  have off: "stream_inv (set_reader a l r s)" if "\<And>p. \<not> listens r p" "reader_ok (sy_conn s a) l r" "held r = []" for r
    using inv_reader_dead[OF i na that] .
  have "stream_inv (set_reader a l Stopped (shut a l s))" by (rule inv_reader_dead) (use i na in auto)
  with on off r show ?thesis
    by (cases r) (auto simp: react_def intro!: inv_spawn, simp add: go_ok_def set_reader_def frame_valid_def)
qed

lemma ignored: "coherent c \<Longrightarrow> applicationDisposition l c = IgnoreLate \<Longrightarrow> \<not> points c l"
  by (auto simp: coherent_def points_def applicationDisposition_def Let_def split: if_splits)

lemma accepted: "applicationDisposition l c = Accept \<Longrightarrow> points c l"
  by (auto simp: points_def applicationDisposition_def Let_def split: if_splits)

lemma inv_dispose:
  assumes i: "stream_inv s" and r: "sy_reader s a l = Disposing f"
  shows "stream_inv (reader_step a l e s)"
proof -
  let ?c = "sy_conn s a"
  have co: "coherent ?c" by (rule end_okD(2)[OF inv_ends[OF i]])
  have lk: "linked (frames (sy_queue s a l)) (Disposing f) ?c (sy_go s (other a)) l"
    using end_okD(8)[OF inv_ends[OF i, of "other a"], of l] r by simp
  have react: "stream_inv (react a l x s)"
    if "harmless s a x" "points ?c l \<Longrightarrow> fr_kind f \<noteq> Data" for x
    by (rule inv_react[OF i, of a l f]) (use that r in auto)
  consider (acc) "applicationDisposition l ?c = Accept" | (late) "applicationDisposition l ?c = IgnoreLate"
    | (rej) "applicationDisposition l ?c = Reject" by (cases "applicationDisposition l ?c") auto
  then show ?thesis
  proof cases
    case acc
    have "reader_ok ?c l (Applying f)" using lk accepted[OF acc] by (auto simp: linked_def)
    then have "stream_inv (set_reader a l (Applying f) s)" using r by (intro inv_hold[OF i, of a l f]) auto
    with acc r show ?thesis by (simp add: reader_step_def Let_def dispose_def)
  next
    case late
    have "stream_inv (react a l ReadOn s)" using ignored[OF co late] by (intro react) simp_all
    with late r show ?thesis by (simp add: reader_step_def Let_def dispose_def)
  next
    case rej
    have "stream_inv (set_reader a l (Violating st) s)" if "st \<notin> set data_stages" for st
      by (rule inv_reader_dead[OF i]) (use that r in auto)
    moreover have "stream_inv (react a l ReadOn s)" if "fr_kind f = Ack" using that by (intro react) simp_all
    ultimately show ?thesis using rej r
      by (auto simp: reader_step_def Let_def dispose_def react_def data_stages_def split: kind.split)
  qed
qed

text \<open>The frames of the coordinators.\<close>

lemma control_frame:
  assumes f: "\<not> application_kind (fr_kind f)" and c: "coherent c" and o: "on_frame l f c = (r, c')"
  shows "narrows c c'" "cn_terminal c' = cn_terminal c" "harmless s a r"
proof -
  have k: "fr_kind f = Reset \<or> fr_kind f = Commit \<or> fr_kind f = CommitAck \<or> fr_kind f = Confirm \<or> fr_kind f = Discard \<or> fr_kind f = DiscardAck"
    using f by (cases "fr_kind f") (auto simp: application_kind_def)
  have act: "narrows c (offer k x (activate l c)) \<and> cn_terminal (offer k x (activate l c)) = cn_terminal c"
    if "cn_prepared c = Some l" for k x
  proof -
    have "narrows (activate l c) (offer k x (activate l c))" by (rule narrows_same) (simp_all add: data_same)
    then show ?thesis using activate_narrows[OF c that] by (auto intro: narrows_trans)
  qed
  have off: "narrows c (offer k x (c\<lparr>cn_prepared := None, cn_discardWait := w\<rparr>))" for k x w
    by (rule narrows_pointers) (simp_all add: data_same)
  have ptr: "narrows c (c\<lparr>cn_prepared := None\<rparr>)" "narrows c (c\<lparr>cn_retained := None\<rparr>)"
    by (rule narrows_pointers; simp add: data_same)+
  show "narrows c c'" "cn_terminal c' = cn_terminal c"
    using k o act off ptr activate_narrows[OF c]
    by (auto simp: on_frame_def on_Reset_def on_Commit_def on_CommitAck_def on_Confirm_def on_Discard_def on_DiscardAck_def Let_def
        split: if_splits option.splits)
  show "harmless s a r"
    using k o
    by (auto simp: on_frame_def on_Reset_def on_Commit_def on_CommitAck_def on_Confirm_def on_Discard_def on_DiscardAck_def Let_def data_stages_def
        split: if_splits option.splits)
qed

text \<open>No stream gets so long that its offsets wrap.\<close>

definition short :: "sys \<Rightarrow> bool" where
  "short s \<longleftrightarrow> length (sy_written s Initiator) < u64_size \<and> length (sy_written s Responder) < u64_size"

lemma shortD: "short s \<Longrightarrow> length (sy_written s a) < u64_size"
  by (cases a) (simp_all add: short_def)

text \<open>The frames of the application: the invariant, and that the frame causes no violation.\<close>

lemma inv_on_Data:
  assumes i: "stream_inv s" and sh: "short s" and r: "sy_reader s a l = Applying f" and k: "fr_kind f = Data"
    and o: "on_frame l f (sy_conn s a) = (x, c)"
  shows "stream_inv (react a l x (set_conn a c s))"
proof -
  let ?b = "other a"
  have eb: "end_ok ?b s" by (rule inv_ends[OF i])
  have fl: "flow (sy_written s ?b) (sy_conn s ?b) (sy_conn s a) (sy_read s a) (sy_eof s a)" using end_okD(1)[OF eb] by simp
  have v: "fr_payload f = slice (sy_written s ?b) (fr_seq f) (fr_seq f + length (fr_payload f))"
    "fr_seq f + length (fr_payload f) \<le> length (sy_written s ?b)"
    using end_okD(7)[OF eb, of f l] r k by (simp_all add: frame_valid_def)
  have n: "fr_seq f \<le> cn_recvNext (sy_conn s a)" using end_okD(9)[OF inv_ends[OF i, of a], of l] r k by simp
  obtain y where y: "on_Data (fr_seq f) (fr_payload f) (sy_conn s a) = (ReadOn, y)"
    "flow (sy_written s ?b) (sy_conn s ?b) y (sy_read s a) (sy_eof s a)" "fr_seq f + length (fr_payload f) \<le> cn_recvNext y"
    "cn_recvNext (sy_conn s a) \<le> cn_recvNext y" "steady (sy_conn s a) y" "same_sender (sy_conn s a) y"
    "cn_recvBase y = cn_recvBase (sy_conn s a)" "cn_remoteFIN y = cn_remoteFIN (sy_conn s a)" "cn_remoteFINAt y = cn_remoteFINAt (sy_conn s a)"
    by (rule on_Data_flow[OF fl shortD[OF sh] v n]) blast
  have e: "x = ReadOn" "c = y" using o y(1) k by (simp_all add: on_frame_def)
  have "stream_inv (set_conn a y s)"
    unfolding set_conn_end by (rule inv_receiver[OF i y(5,6,2)]) (use y in auto)
  then show ?thesis unfolding e by (rule inv_react[where f = f]) (use r y(3) in auto)
qed

lemma inv_on_Ack:
  assumes i: "stream_inv s" and sh: "short s" and r: "sy_reader s a l = Applying f" and k: "fr_kind f = Ack"
    and o: "on_frame l f (sy_conn s a) = (x, c)"
  shows "stream_inv (react a l x (set_conn a c s))"
proof -
  let ?b = "other a"
  have fl: "flow (sy_written s a) (sy_conn s a) (sy_conn s ?b) (sy_read s ?b) (sy_eof s ?b)" by (rule end_okD(1)[OF inv_ends[OF i]])
  have n: "fr_seq f \<le> cn_recvBase (sy_conn s ?b)"
    using end_okD(7)[OF inv_ends[OF i, of ?b], of f l] r k by (simp add: frame_valid_def)
  then have "fr_seq f \<le> cn_sendNext (sy_conn s a)" using fl by (simp add: flow_def)
  then have e: "x = ReadOn" "c = discardAcked (fr_seq f) (sy_conn s a)" using o k by (simp_all add: on_frame_def on_Ack_def)
  have "stream_inv (set_conn a c s)"
    unfolding e by (rule inv_sender[OF i]) (use discardAcked_flow[OF fl shortD[OF sh] n] in auto)
  then show ?thesis unfolding e(1) by (rule inv_react[where f = f]) (use r k in auto)
qed

lemma inv_on_FIN:
  assumes i: "stream_inv s" and r: "sy_reader s a l = Applying f" and k: "fr_kind f = FIN"
    and o: "on_frame l f (sy_conn s a) = (x, c)"
  shows "stream_inv (react a l x (set_conn a c s))"
proof -
  let ?b = "other a"
  have eb: "end_ok ?b s" by (rule inv_ends[OF i])
  have fl: "flow (sy_written s ?b) (sy_conn s ?b) (sy_conn s a) (sy_read s a) (sy_eof s a)" using end_okD(1)[OF eb] by simp
  have v: "cn_localFIN (sy_conn s ?b)" "fr_seq f = length (sy_written s ?b)"
    using end_okD(7)[OF eb, of f l] r k by (simp_all add: frame_valid_def)
  have n: "fr_seq f \<le> cn_recvNext (sy_conn s a)" using end_okD(9)[OF inv_ends[OF i, of a], of l] r k by simp
  obtain y z where y: "on_FIN (fr_seq f) (sy_conn s a) = (z, y)" "flow (sy_written s ?b) (sy_conn s ?b) y (sy_read s a) (sy_eof s a)"
    "z = ReadOn \<or> z = AcknowledgeFIN (cn_remoteFINAt y) \<and> cn_remoteFIN y" "cn_recvNext y = cn_recvNext (sy_conn s a)"
    "steady (sy_conn s a) y" "same_sender (sy_conn s a) y" "cn_recvBase y = cn_recvBase (sy_conn s a)"
    "cn_remoteFIN (sy_conn s a) \<longrightarrow> cn_remoteFIN y \<and> cn_remoteFINAt y = cn_remoteFINAt (sy_conn s a)"
    by (rule on_FIN_flow[OF fl v n]) blast
  have e: "x = z" "c = y" using o y(1) k by (simp_all add: on_frame_def)
  have "stream_inv (set_conn a y s)"
    unfolding set_conn_end by (rule inv_receiver[OF i y(5,6,2)]) (use y in auto)
  then show ?thesis unfolding e by (rule inv_react[where f = f]) (use r k y(3) in auto)
qed

lemma inv_on_FINAck:
  assumes i: "stream_inv s" and r: "sy_reader s a l = Applying f" and k: "fr_kind f = FINAck"
    and o: "on_frame l f (sy_conn s a) = (x, c)"
  shows "stream_inv (react a l x (set_conn a c s))"
proof -
  let ?b = "other a" and ?c = "(sy_conn s a)\<lparr>cn_finAcked := True\<rparr>"
  have fl: "flow (sy_written s a) (sy_conn s a) (sy_conn s ?b) (sy_read s ?b) (sy_eof s ?b)" by (rule end_okD(1)[OF inv_ends[OF i]])
  have v: "cn_remoteFIN (sy_conn s ?b)" "fr_seq f = cn_remoteFINAt (sy_conn s ?b)"
    using end_okD(7)[OF inv_ends[OF i, of ?b], of f l] r k by (simp_all add: frame_valid_def)
  have e: "x = ReadOn" "c = ?c" using o k on_FINAck_flow(1)[OF fl v] by (simp_all add: on_frame_def)
  have "stream_inv (set_conn a ?c s)"
    by (rule inv_sender[OF i]) (use on_FINAck_flow(2)[OF fl v] in \<open>auto simp: steady_def same_receiver_def\<close>)
  then show ?thesis unfolding e by (rule inv_react[where f = f]) (use r k in auto)
qed

lemma inv_apply:
  assumes i: "stream_inv s" and sh: "short s" and r: "sy_reader s a l = Applying f"
    and o: "on_frame l f (sy_conn s a) = (x, c)"
  shows "stream_inv (react a l x (set_conn a c s))"
proof (cases "application_kind (fr_kind f)")
  case True
  then show ?thesis using inv_on_Data[OF i sh r _ o] inv_on_Ack[OF i sh r _ o] inv_on_FIN[OF i r _ o] inv_on_FINAck[OF i r _ o]
    by (auto simp: application_kind_def)
next
  case False
  have co: "coherent (sy_conn s a)" "blameless (sy_conn s a)" using end_okD(2,3)[OF inv_ends[OF i]] by blast+
  note cf = control_frame[OF False co(1) o]
  have "stream_inv (set_conn a c s)" by (rule inv_conn[OF i cf(1)]) (use co(2) cf(2) in \<open>simp add: blameless_def\<close>)
  then show ?thesis by (rule inv_react[where f = f]) (use r cf(3) False in \<open>auto simp: application_kind_def\<close>)
qed

lemma inv_reading:
  assumes i: "stream_inv s" and r: "sy_reader s a l = Reading"
  shows "stream_inv (reader_step a l e s)"
proof (cases "sy_shut s a l \<or> e \<noteq> Works")
  case True
  have "stream_inv (set_reader a l ReadFails s)" by (rule inv_reader_dead[OF i]) (use r in auto)
  with True r show ?thesis by (simp add: reader_step_def Let_def read_msg_def)
next
  case F: False
  show ?thesis
  proof (cases "sy_queue s a l")
    case Nil
    then show ?thesis using F i r by (simp add: reader_step_def Let_def read_msg_def)
  next
    case (Cons m q)
    have "stream_inv (set_reader a l ReadFails (set_queue a l q s))" by (rule inv_reader_dead_queue[OF i]) (use r Cons in auto)
    then show ?thesis using F r Cons inv_take[OF i r, of _ q]
      by (cases m) (simp_all add: reader_step_def Let_def read_msg_def)
  qed
qed

lemma inv_answering:
  assumes i: "stream_inv s" and r: "sy_reader s a l = Answering new"
  shows "stream_inv (reader_step a l e s)"
proof -
  let ?f = "control CommitAck l (sy_conn s a)"
  obtain ok s1 where m: "send_msg a l (MFrame ?f) e s = (ok, s1)" by fastforce
  have i1: "stream_inv s1" by (rule inv_send_control[OF m i]) (simp add: application_kind_def)
  have r1: "sy_reader s1 a l = Answering new" using send_msg_same(2)[OF m] r by simp
  have "stream_inv (set_reader a l ReadFails s1)" by (rule inv_reader_dead[OF i1]) (use r1 in auto)
  moreover have "stream_inv (set_reader a l Reading s1)"
  proof (rule inv_reader[OF i1])
    show "linked (frames (sy_queue s1 a l)) Reading (sy_conn s1 a) (sy_go s1 (other a)) l"
      using end_okD(8)[OF inv_ends[OF i1, of "other a"], of l] r1 by (simp add: linked_def)
    show "coord_ok (sy_coordinator s1 a) ((sy_reader s1 a)(l := Reading)) (sy_conn s1 a) (sy_conn s1 (other a))"
      using coord_other[OF end_okD(4)[OF inv_ends[OF i1, of a]]] r1 by simp
  qed simp_all
  ultimately show ?thesis using r m by (cases ok) (auto simp: reader_step_def Let_def intro!: inv_spawn)
qed

lemma inv_reader_step:
  assumes i: "stream_inv s" and sh: "short s"
  shows "stream_inv (reader_step a l e s)"
proof (cases "sy_reader s a l")
  case Reading then show ?thesis by (rule inv_reading[OF i])
next
  case (Disposing f) then show ?thesis by (rule inv_dispose[OF i])
next
  case (Answering new) then show ?thesis by (rule inv_answering[OF i])
next
  case (Checking f)
  have "stream_inv (set_reader a l Stopped (shut a l s))" by (rule inv_reader_dead) (use i Checking in auto)
  moreover have "stream_inv (set_reader a l (if application_kind (fr_kind f) then Disposing f else Applying f) s)"
    by (rule inv_hold[OF i, of a l f]) (use Checking in \<open>auto simp: application_kind_def\<close>)
  ultimately show ?thesis using Checking by (simp add: reader_step_def Let_def)
next
  case (Applying f)
  obtain x c where o: "on_frame l f (sy_conn s a) = (x, c)" by fastforce
  show ?thesis using inv_apply[OF i sh Applying o] i Applying o by (simp add: reader_step_def Let_def)
next
  case AnsweringDiscard
  obtain ok s1 where m: "send_msg a l (MFrame (control DiscardAck l (sy_conn s a))) e s = (ok, s1)" by fastforce
  have "stream_inv s1" by (rule inv_send_control[OF m i]) (simp add: application_kind_def)
  then have "stream_inv (set_reader a l Stopped (shut a l s1))"
    by (intro inv_reader_dead) (use AnsweringDiscard send_msg_same(2)[OF m] in auto)
  then show ?thesis using AnsweringDiscard m by (simp add: reader_step_def Let_def)
next
  case (Violating st)
  have "stream_inv (terminate a (ErrProtocolViolation st) s)"
    by (rule inv_terminate[OF i]) (use end_okD(9)[OF inv_ends[OF i, of a], of l] Violating in auto)
  then have "stream_inv (set_reader a l Stopped (terminate a (ErrProtocolViolation st) s))"
    by (rule inv_reader_dead) (use Violating in \<open>auto simp: terminate_same\<close>)
  then show ?thesis using Violating by (simp add: reader_step_def Let_def)
next
  case Ending
  have "stream_inv (terminate a ErrClosed s)" by (rule inv_terminate[OF i]) simp
  then have "stream_inv (set_reader a l Stopped (terminate a ErrClosed s))"
    by (rule inv_reader_dead) (use Ending in \<open>auto simp: terminate_same\<close>)
  then show ?thesis using Ending by (simp add: reader_step_def Let_def)
next
  case ReadFails
  have "stream_inv (set_reader a l Stopped (fail_carrier a l s))"
    by (rule inv_reader_dead[OF inv_fail_carrier[OF i]]) (use ReadFails in \<open>auto simp: fail_carrier_same\<close>)
  then show ?thesis using ReadFails i by (simp add: reader_step_def Let_def)
qed (use i in \<open>simp_all add: reader_step_def Let_def\<close>)

section \<open>Writers\<close>

text \<open>What a goroutine goes on as, and the state after its step.\<close>

definition go_result :: "side \<Rightarrow> goroutine list \<times> sys \<Rightarrow> bool" where
  "go_result a r \<longleftrightarrow> stream_inv (snd r) \<and> (\<forall>g\<in>set (fst r). go_ok a (snd r) g)"

lemma inv_goroutine_step:
  assumes i: "stream_inv s" and st: "\<And>g. g \<in> set (sy_go s a) \<Longrightarrow> go_result a (go_step a e g s)"
  shows "stream_inv (goroutine_step a n e s)"
proof (cases "n < length (sy_go s a)")
  case True
  obtain gs s1 where g: "go_step a e (sy_go s a ! n) s = (gs, s1)" by fastforce
  have r: "stream_inv s1" "\<forall>g\<in>set gs. go_ok a s1 g" using st[of "sy_go s a ! n"] True g by (simp_all add: go_result_def)
  have "\<forall>h\<in>set (take n (sy_go s1 a) @ gs @ drop (Suc n) (sy_go s1 a)). go_ok a s1 h"
    using r inv_go_ok[OF r(1)] by (auto dest: in_set_takeD in_set_dropD)
  then show ?thesis using inv_go[OF r(1)] True g by (simp add: goroutine_step_def)
qed (use i in \<open>simp add: goroutine_step_def\<close>)

text \<open>What the writer of a carrier takes up next is part of what the application has written.\<close>

lemma writeActive_cases:
  obtains (exit) "writeActive l off x = LoopExit"
  | (data) st n where "max off (cn_sendBase x) < cn_sendNext x" "st = u64_sub (max off (cn_sendBase x)) (cn_sendBase x)"
      "n = min maximumFrame (length (cn_send x) - st)"
      "writeActive l off x = SendData \<lparr>fr_kind = Data, fr_seq = max off (cn_sendBase x), fr_payload = slice (cn_send x) st (st + n)\<rparr>
         (u64_add (max off (cn_sendBase x)) n)"
  | (fin) "cn_sendNext x \<le> max off (cn_sendBase x)" "cn_localFIN x"
      "writeActive l off x = SendFIN \<lparr>fr_kind = FIN, fr_seq = cn_sendNext x, fr_payload = []\<rparr> (max off (cn_sendBase x))"
  | (wait) "writeActive l off x = LoopWait (max off (cn_sendBase x))"
proof -
  let ?e = "cn_active x \<noteq> Some l \<or> stopped x" and ?o = "max off (cn_sendBase x)"
  let ?f = "cn_localFIN x \<and> \<not> cn_finAcked x \<and> cn_finSent x \<noteq> ca_id (carrier_of l x)"
  consider ?e | "\<not> ?e" "?o < cn_sendNext x" | "\<not> ?e" "\<not> ?o < cn_sendNext x" ?f | "\<not> ?e" "\<not> ?o < cn_sendNext x" "\<not> ?f" by blast
  then show thesis
  proof cases
    case 1 show ?thesis by (rule exit) (simp only: writeActive_def 1 if_True)
  next
    case 2 show ?thesis by (rule data[OF 2(2) refl refl]) (simp only: writeActive_def 2 if_False if_True Let_def)
  next
    case 3 show ?thesis by (rule fin) (use 3(2,3) in linarith, use 3(3) in blast, simp only: writeActive_def 3 if_False if_True Let_def simp_thms)
  next
    case 4 show ?thesis by (rule wait) (simp only: writeActive_def 4 if_False Let_def)
  qed
qed

lemma writeActive_flow:
  assumes fl: "flow W x y R eof" and W: "length W < u64_size"
  shows "writeActive l off x = SendData f off' \<Longrightarrow>
           fr_kind f = Data \<and> frame_valid W x f \<and> fr_seq f = max off (cn_sendBase x) \<and> off' = fr_seq f + length (fr_payload f)"
    "writeActive l off x = SendFIN f off' \<Longrightarrow>
       fr_kind f = FIN \<and> frame_valid W x f \<and> fr_seq f \<le> max off (cn_sendBase x) \<and> off' = max off (cn_sendBase x)"
    "writeActive l off x = LoopWait off' \<Longrightarrow> off' = max off (cn_sendBase x)"
proof -
  let ?o = "max off (cn_sendBase x)"
  have f: "cn_sendNext x = length W" "cn_send x = drop (cn_sendBase x) W" using fl by (simp_all add: flow_def)
  show "writeActive l off x = LoopWait off' \<Longrightarrow> off' = ?o" by (rule writeActive_cases[of l off x]) auto
  show "writeActive l off x = SendFIN f off' \<Longrightarrow> fr_kind f = FIN \<and> frame_valid W x f \<and> fr_seq f \<le> ?o \<and> off' = ?o"
    by (rule writeActive_cases[of l off x]) (auto simp: frame_valid_def f)
  assume w: "writeActive l off x = SendData f off'"
  show "fr_kind f = Data \<and> frame_valid W x f \<and> fr_seq f = ?o \<and> off' = fr_seq f + length (fr_payload f)"
  proof (rule writeActive_cases[of l off x])
    fix st n assume a: "?o < cn_sendNext x" "st = u64_sub ?o (cn_sendBase x)" "n = min maximumFrame (length (cn_send x) - st)"
      "writeActive l off x = SendData \<lparr>fr_kind = Data, fr_seq = ?o, fr_payload = slice (cn_send x) st (st + n)\<rparr> (u64_add ?o n)"
    have st: "st = ?o - cn_sendBase x" using a(1,2) f(1) W by (simp add: u64)
    have "n \<le> length W - ?o" "?o < length W" using a(1,3) st f by simp_all
    then have n: "?o + n \<le> length W" by linarith
    have "slice (cn_send x) st (st + n) = slice W ?o (?o + n)" unfolding f(2) st by (simp add: slice_def)
    moreover have "length (slice W ?o (?o + n)) = n" using n by simp
    ultimately show ?thesis using w a(4) n W by (auto simp: frame_valid_def u64)
  qed (use w in auto)
qed

lemma go_okD:
  assumes "go_ok a s g"
  shows "go_valid (sy_written s a) (sy_conn s a) g"
    "listens (sy_reader s (other a) l) (points (sy_conn s (other a)) l) \<Longrightarrow>
       loop_ok l (reaches (cn_recvNext (sy_conn s (other a))) (held (sy_reader s (other a) l) @ frames (sy_queue s (other a) l))) g"
  using assms by (simp_all add: go_ok_def)

lemma go_loop:
  assumes i: "stream_inv s" and sh: "short s" and g: "go_ok a s (WriteLoop l off)"
  shows "go_result a (go_step a e (WriteLoop l off) s)"
proof -
  let ?b = "other a" and ?x = "sy_conn s a"
  have fl: "flow (sy_written s a) ?x (sy_conn s ?b) (sy_read s ?b) (sy_eof s ?b)" by (rule end_okD(1)[OF inv_ends[OF i]])
  note w = writeActive_flow[OF fl shortD[OF sh], of l off]
  have n: "max off (cn_sendBase ?x) \<le> reaches (cn_recvNext (sy_conn s ?b)) (held (sy_reader s ?b l) @ frames (sy_queue s ?b l))"
    if "listens (sy_reader s ?b l) (points (sy_conn s ?b) l)"
  proof -
    have "cn_sendBase ?x \<le> cn_recvNext (sy_conn s ?b)" using fl by (simp add: flow_def)
    also have "\<dots> \<le> reaches \<dots> (held (sy_reader s ?b l) @ frames (sy_queue s ?b l))" by (rule reaches_ge)
    finally show ?thesis using go_okD(2)[OF g that] by simp
  qed
  show ?thesis
  proof (cases "writeActive l off ?x")
    case (SendData f off')
    then show ?thesis using i n w(1)[OF SendData] by (simp add: go_step_def Let_def go_result_def go_ok_def)
  next
    case (SendFIN f off')
    then show ?thesis using i n w(2)[OF SendFIN] by (auto simp: go_step_def Let_def go_result_def go_ok_def intro: le_trans)
  next
    case (LoopWait off')
    then show ?thesis using i n w(3)[OF LoopWait] by (simp add: go_step_def Let_def go_result_def go_ok_def)
  qed (use i in \<open>simp add: go_step_def Let_def go_result_def\<close>)
qed

lemma go_write:
  assumes i: "stream_inv s" and m: "send_msg a l (MFrame f) e s = (ok, s1)" and v: "frame_valid (sy_written s a) (sy_conn s a) f"
    and n: "fr_kind f = Data \<or> fr_kind f = FIN \<Longrightarrow> listens (sy_reader s (other a) l) (points (sy_conn s (other a)) l) \<Longrightarrow>
              fr_seq f \<le> reaches (cn_recvNext (sy_conn s (other a))) (held (sy_reader s (other a) l) @ frames (sy_queue s (other a) l))"
  shows "stream_inv s1"
    "ok \<Longrightarrow> fr_kind f = Data \<Longrightarrow> go_ok a s1 (WriteLoop l (fr_seq f + length (fr_payload f)))"
    "ok \<Longrightarrow> go_ok a s (MarkFIN l off) \<Longrightarrow> go_ok a s1 (MarkFIN l off)"
proof -
  show "stream_inv s1" by (rule inv_send[OF m i]) (use v n in \<open>auto simp: msg_valid_def\<close>)
  show "ok \<Longrightarrow> fr_kind f = Data \<Longrightarrow> go_ok a s1 (WriteLoop l (fr_seq f + length (fr_payload f)))"
    unfolding go_ok_def send_msg_same[OF m] by (simp add: send_msg_same(7)[OF m] reaches_append)
  show "ok \<Longrightarrow> go_ok a s (MarkFIN l off) \<Longrightarrow> go_ok a s1 (MarkFIN l off)"
    unfolding go_ok_def send_msg_same(1-6)[OF m]
    by (auto simp: send_msg_same(7)[OF m] reaches_append intro: le_trans reaches_ge)
qed

lemma go_data:
  assumes i: "stream_inv s" and g: "go_ok a s (WriteData l f off)"
  shows "go_result a (go_step a e (WriteData l f off) s)"
proof -
  obtain ok s1 where m: "send_msg a l (MFrame f) e s = (ok, s1)" by fastforce
  have v: "frame_valid (sy_written s a) (sy_conn s a) f" "fr_kind f = Data" using go_okD(1)[OF g] by simp_all
  have n: "listens (sy_reader s (other a) l) (points (sy_conn s (other a)) l) \<Longrightarrow>
     fr_seq f \<le> reaches (cn_recvNext (sy_conn s (other a))) (held (sy_reader s (other a) l) @ frames (sy_queue s (other a) l)) \<and>
     off = fr_seq f + length (fr_payload f)"
    using go_okD(2)[OF g] by simp
  have "stream_inv s1" using go_write(1)[OF i m v(1)] n by blast
  moreover have "go_ok a s1 (WriteLoop l off)" if ok
  proof (cases "listens (sy_reader s (other a) l) (points (sy_conn s (other a)) l)")
    case True then show ?thesis using go_write(2)[OF i m v(1) _ that v(2)] n by simp
  next
    case False then show ?thesis unfolding go_ok_def send_msg_same(1-6)[OF m] by auto
  qed
  ultimately show ?thesis using m by (simp add: go_step_def Let_def go_result_def)
qed

lemma go_fin:
  assumes i: "stream_inv s" and g: "go_ok a s (WriteFIN l f off)"
  shows "go_result a (go_step a e (WriteFIN l f off) s)"
proof -
  obtain ok s1 where m: "send_msg a l (MFrame f) e s = (ok, s1)" by fastforce
  have v: "frame_valid (sy_written s a) (sy_conn s a) f" using go_okD(1)[OF g] by simp
  have n: "listens (sy_reader s (other a) l) (points (sy_conn s (other a)) l) \<Longrightarrow>
     fr_seq f \<le> reaches (cn_recvNext (sy_conn s (other a))) (held (sy_reader s (other a) l) @ frames (sy_queue s (other a) l))"
    using go_okD(2)[OF g] by simp
  have "go_ok a s (MarkFIN l off)" using g by (simp add: go_ok_def)
  then have "stream_inv s1" "ok \<Longrightarrow> go_ok a s1 (MarkFIN l off)" using go_write(1,3)[OF i m v] n by blast+
  then show ?thesis using m by (simp add: go_step_def Let_def go_result_def)
qed

lemma go_sends:
  assumes i: "stream_inv s" and g: "go_ok a s (WriteAck l f) \<and> h = WriteAck l f \<or> go_ok a s (WriteFINAck l f) \<and> h = WriteFINAck l f"
  shows "go_result a (go_step a e h s)"
proof -
  obtain ok s1 where m: "send_msg a l (MFrame f) e s = (ok, s1)" by fastforce
  have "frame_valid (sy_written s a) (sy_conn s a) f" "fr_kind f \<noteq> Data" "fr_kind f \<noteq> FIN" using g by (auto dest!: go_okD(1))
  then have "stream_inv s1" using go_write(1)[OF i m] by blast
  then show ?thesis using m g by (cases ok) (auto simp: go_step_def Let_def go_result_def)
qed

lemma go_writers:
  assumes i: "stream_inv s" and sh: "short s" and g: "go_ok a s g" and w: "\<forall>l off. g \<noteq> WriteLoop l off"
  shows "go_result a (go_step a e g s)"
proof (cases g)
  case (WriteData l f off) then show ?thesis using go_data[OF i] g by simp
next
  case (WriteFIN l f off) then show ?thesis using go_fin[OF i] g by simp
next
  case (WriteAck l f) then show ?thesis using go_sends[OF i] g by blast
next
  case (WriteFINAck l f) then show ?thesis using go_sends[OF i] g by blast
next
  case (WriteConfirm l)
  obtain ok s1 where m: "send_msg a l (MFrame (control Confirm l (sy_conn s a))) e s = (ok, s1)" by fastforce
  have "stream_inv s1" by (rule inv_send_control[OF m i]) (simp add: application_kind_def)
  then show ?thesis using m WriteConfirm by (simp add: go_step_def Let_def go_result_def)
next
  case (WriteReset l)
  obtain ok s1 where m: "send_msg a l (MFrame \<lparr>fr_kind = Reset, fr_seq = 0, fr_payload = []\<rparr>) e s = (ok, s1)" by fastforce
  have "stream_inv s1" by (rule inv_send_control[OF m i]) (simp add: application_kind_def)
  then show ?thesis using m WriteReset by (simp add: go_step_def Let_def go_result_def)
next
  case (MarkFIN l off)
  have "blameless (fin_written l (sy_conn s a))" using end_okD(3)[OF inv_ends[OF i, of a]] fin_written_narrows(2) by (simp add: blameless_def)
  then have i1: "stream_inv (set_conn a (fin_written l (sy_conn s a)) s)" by (rule inv_conn[OF i fin_written_narrows(1)])
  have "go_ok a (set_conn a (fin_written l (sy_conn s a)) s) (WriteLoop l off)" using g MarkFIN by (simp add: go_ok_def)
  with i1 MarkFIN show ?thesis by (simp add: go_step_def Let_def go_result_def)
next
  case (MarkAck l off)
  have "blameless (ack_written l off (sy_conn s a))" using end_okD(3)[OF inv_ends[OF i, of a]] ack_written_narrows(2) by (simp add: blameless_def)
  then have "stream_inv (set_conn a (ack_written l off (sy_conn s a)) s)" by (rule inv_conn[OF i ack_written_narrows(1)])
  with MarkAck show ?thesis by (simp add: go_step_def Let_def go_result_def)
next
  case (MarkConfirm l)
  obtain old c where c: "confirm_written l (sy_conn s a) = (old, c)" by fastforce
  have "narrows (sy_conn s a) c" "cn_terminal c = cn_terminal (sy_conn s a)" using confirm_written_narrows[where l = l and c = "sy_conn s a"] c by simp_all
  then have "stream_inv (set_conn a c s)" using end_okD(3)[OF inv_ends[OF i, of a]] by (intro inv_conn[OF i]) (simp_all add: blameless_def)
  with MarkConfirm c show ?thesis by (auto simp: go_step_def Let_def go_result_def close_old_def split: option.split)
next
  case Acks
  have "go_ok a s (WriteAck l f)" if "ack_due (sy_conn s a) = Some (l, f)" for l f
    using that by (auto simp: ack_due_def go_ok_def frame_valid_def split: option.splits if_splits)
  with Acks i show ?thesis by (auto simp: go_step_def Let_def go_result_def split: option.split)
next
  case (FailCarrier l r)
  then show ?thesis using i inv_fail_carrier[OF i, of a l] g by (simp add: go_step_def Let_def go_result_def)
next
  case (Terminate err)
  then have "err = ErrExpired" using go_okD(1)[OF g] by simp
  then have "stream_inv (terminate a err s)" by (intro inv_terminate[OF i]) simp
  then show ?thesis using Terminate by (simp add: go_step_def Let_def go_result_def)
qed (use i w in \<open>auto simp: go_step_def Let_def go_result_def\<close>)

lemma inv_go_step:
  assumes i: "stream_inv s" and sh: "short s"
  shows "stream_inv (goroutine_step a n e s)"
proof (rule inv_goroutine_step[OF i])
  fix g assume "g \<in> set (sy_go s a)"
  then have "go_ok a s g" by (rule inv_go_ok[OF i])
  then show "go_result a (go_step a e g s)"
    using go_loop[OF i sh] go_writers[OF i sh] by (cases "\<exists>l off. g = WriteLoop l off") auto
qed

section \<open>The coordinators\<close>

lemma set_swap: "set_coordinator a p (set_reader a l r s) = set_reader a l r (set_coordinator a p s)"
  by (simp add: set_coordinator_def set_reader_def)

lemma inv_idle: "stream_inv s \<Longrightarrow> stream_inv (set_coordinator a Idle s)"
  by (rule inv_coordinator) simp_all

lemma inv_settle:
  assumes i: "stream_inv s" and r: "r = Stopped \<or> r = Reading \<and> sy_reader s a l = Attaching"
  shows "stream_inv (set_coordinator a Idle (set_reader a l r s))"
  unfolding set_swap
proof (rule inv_reader[OF inv_idle[OF i]])
  have "linked (frames (sy_queue s a l)) (sy_reader s a l) (sy_conn s a) (sy_go s (other a)) l"
    using end_okD(8)[OF inv_ends[OF i, of "other a"], of l] by simp
  then show "linked (frames (sy_queue (set_coordinator a Idle s) a l)) r (sy_conn (set_coordinator a Idle s) a) (sy_go (set_coordinator a Idle s) (other a)) l"
    using r by (auto simp: linked_def)
qed (use r in auto)

lemma inv_abandon: "stream_inv s \<Longrightarrow> stream_inv (abandon a l s)"
  unfolding abandon_def by (rule inv_settle) simp_all

text \<open>Reading a hello: nothing that the read loop will see is taken away.\<close>

lemma inv_pop_hello:
  assumes i: "stream_inv s" and q: "sy_queue s a l = MHello h # q"
  shows "stream_inv (set_queue a l q s)"
proof -
  have "stream_inv (set_reader a l (sy_reader s a l) (set_queue a l q s))"
    by (rule inv_reader_queue[OF i])
      (use end_okD(4,9)[OF inv_ends[OF i, of a]] end_okD(7)[OF inv_ends[OF i, of "other a"], of _ l] end_okD(8)[OF inv_ends[OF i, of "other a"], of l] q in auto)
  then show ?thesis by (simp add: set_reader_def set_queue_def)
qed

lemma inv_abandon_queue:
  assumes i: "stream_inv s" and q: "sy_queue s a l = m # q"
  shows "stream_inv (abandon a l (set_queue a l q s))"
proof -
  have "stream_inv (set_reader a l Stopped (set_queue a l q (set_coordinator a Idle s)))"
    by (rule inv_reader_queue[OF inv_idle[OF i]]) (use q in \<open>auto simp: linked_def\<close>)
  moreover have "abandon a l (set_queue a l q s) = shut a l (set_reader a l Stopped (set_queue a l q (set_coordinator a Idle s)))"
    by (simp add: abandon_def set_coordinator_def set_reader_def set_queue_def shut_def)
  ultimately show ?thesis by simp
qed

text \<open>A read of the coordinator: a hello goes to \<open>k\<close>, anything else ends the attempt.\<close>

lemma inv_read_hello:
  assumes i: "stream_inv s"
    and k: "\<And>h q. sy_queue s a l = MHello h # q \<Longrightarrow> stream_inv (set_queue a l q s) \<Longrightarrow> stream_inv (k h (set_queue a l q s))"
  shows "stream_inv (case read_msg a l e s of
             (Blocked, s1) \<Rightarrow> s1
           | (Read_msg (MHello h'), s1) \<Rightarrow> k h' s1
           | (_, s1) \<Rightarrow> abandon a l s1)"
proof (cases "sy_shut s a l \<or> e \<noteq> Works")
  case True then show ?thesis using inv_abandon[OF i] by (simp add: read_msg_def)
next
  case F: False
  show ?thesis
  proof (cases "sy_queue s a l")
    case Nil then show ?thesis using F i by (simp add: read_msg_def)
  next
    case (Cons m q)
    then show ?thesis using F k[of _ q] inv_pop_hello[OF i, of a l _ q] inv_abandon_queue[OF i Cons]
      by (cases m) (simp_all add: read_msg_def)
  qed
qed

lemma hello_ack: "stream_inv s \<Longrightarrow> sy_queue s a l = MHello h # q \<Longrightarrow> hl_ack h \<le> cn_recvBase (sy_conn s (other a))"
  using end_okD(6)[OF inv_ends[of s "other a"], of "MHello h" l] by (simp add: msg_valid_def)

text \<open>The reply is taken up, or the request is granted: the carrier of the link is created.\<close>

lemma inv_create:
  assumes i: "stream_inv s" and sh: "short s" and n: "n \<le> cn_recvBase (sy_conn s (other a))"
    and d: "data_of c = data_of (discardAcked n (sy_conn s a))" and t: "cn_terminal c = cn_terminal (sy_conn s a)"
    and co: "coherent (sy_conn s a) \<Longrightarrow> coherent c" and r: "sy_reader s a l = Attaching"
    and p: "\<And>m. points c m \<Longrightarrow> points (sy_conn s a) m \<or> m = l"
    and k: "coord_ok k (sy_reader s a) c (sy_conn s (other a))"
  shows "stream_inv (set_coordinator a k (set_conn a c s))"
proof -
  let ?x = "sy_conn s a" and ?d = "discardAcked n (sy_conn s a)"
  have fl: "flow (sy_written s a) ?x (sy_conn s (other a)) (sy_read s (other a)) (sy_eof s (other a))"
    by (rule end_okD(1)[OF inv_ends[OF i]])
  note da = discardAcked_flow[OF fl shortD[OF sh] n]
  have 1: "stream_inv (set_conn a ?d s)" by (rule inv_sender[OF i da(3,2,1)]) (use da(4) in simp)
  then have 2: "stream_inv (set_coordinator a Idle (set_conn a ?d s))" by (rule inv_idle)
  have "stream_inv (set_conn a c (set_coordinator a Idle (set_conn a ?d s)))"
  proof (rule inv_attach[OF 2])
    show "coherent c" by (rule co) (rule end_okD(2)[OF inv_ends[OF i]])
    show "blameless c" using end_okD(3)[OF inv_ends[OF i, of a]] t by (simp add: blameless_def)
    fix m assume "points c m"
    then show "points (sy_conn (set_coordinator a Idle (set_conn a ?d s)) a) m \<or> sy_reader (set_coordinator a Idle (set_conn a ?d s)) a m = Attaching"
      using p r steady_coherent(2)[OF da(3)] by auto
  qed (simp_all add: d)
  then have "stream_inv (set_coordinator a k (set_conn a c (set_coordinator a Idle (set_conn a ?d s))))"
    by (rule inv_coordinator) (use k in simp)
  moreover have "set_coordinator a k (set_conn a c (set_coordinator a Idle (set_conn a ?d s))) = set_coordinator a k (set_conn a c s)"
    by (simp add: set_coordinator_def set_conn_def)
  ultimately show ?thesis by simp
qed

lemma inv_prepare_ready:
  assumes i: "stream_inv s" and sh: "short s" and k: "sy_coordinator s a = HelloReply l h h'"
    and c: "prepare_ready l h h' (sy_conn s a) = Some c"
  shows "stream_inv (set_coordinator a (ReaderStart l) (set_conn a c s))"
proof -
  have ko: "sy_reader s a l = Attaching" "hl_ack h' \<le> cn_recvBase (sy_conn s (other a))" "\<not> points (sy_conn s a) l"
    using end_okD(4)[OF inv_ends[OF i, of a]] k by simp_all
  define d where "d = discardAcked (hl_ack h') (sy_conn s a)"
  have st: "steady (sy_conn s a) d" by (simp add: d_def discardAcked_def steady_def)
  have cp: "cn_prepared (sy_conn s a) = None"
    "c = (new_carrier l (hl_carrier h) (hl_epoch h) Prepared d)\<lparr>cn_nextEpoch := hl_epoch h, cn_prepared := Some l, cn_detached := (cn_active (sy_conn s a) = None)\<rparr>"
    using c unfolding d_def by (auto simp: prepare_ready_def split: if_splits)
  show ?thesis
  proof (rule inv_create[OF i sh ko(2), where l = l])
    show "data_of c = data_of (discardAcked (hl_ack h') (sy_conn s a))" unfolding cp(2) d_def by (simp add: data_same)
    show "cn_terminal c = cn_terminal (sy_conn s a)" using st unfolding cp(2) by (simp add: steady_def)
    show "coherent (sy_conn s a) \<Longrightarrow> coherent c"
    proof -
      assume "coherent (sy_conn s a)"
      then have d: "coherent d" using steady_coherent[OF st] by simp
      show "coherent c" unfolding cp(2) using d ko(3) st by (auto simp: coherent_def points_def steady_def)
    qed
  qed (use ko st in \<open>auto simp: cp(2) points_def steady_def\<close>)
qed

lemma discardAcked_data: "data_of c' = data_of c \<Longrightarrow> data_of (discardAcked n c') = data_of (discardAcked n c)"
  by (simp add: discardAcked_def data_of_def)

lemma discardAcked_steady: "steady c (discardAcked n c)"
  by (simp add: discardAcked_def steady_def)

lemma accept_request_cases:
  assumes "accept_request l h c = Some (old, h', c')"
  obtains c1 where "c' = (new_carrier l (hl_carrier h) (hl_epoch h) Provisional (discardAcked (hl_ack h) c1))
                         \<lparr>cn_nextEpoch := hl_epoch h, cn_prepared := Some l\<rparr>"
    "c1 = c \<or> (\<exists>m. cn_prepared c = Some m \<and> c1 = (set_state m Superseded c)\<lparr>cn_prepared := None\<rparr>)" "hl_ack h' = cn_recvBase c"
  using assms by (auto simp: accept_request_def split: if_splits option.splits)

lemma inv_accept_request:
  assumes i: "stream_inv s" and sh: "short s" and k: "sy_coordinator s a = AcceptDecide l h"
    and c: "accept_request l h (sy_conn s a) = Some (old, h', c)"
  shows "stream_inv (set_coordinator a (AcceptWrite l h' old) (set_conn a c s))"
proof -
  let ?x = "sy_conn s a"
  have ko: "sy_reader s a l = Attaching" "hl_ack h \<le> cn_recvBase (sy_conn s (other a))" "\<not> points ?x l"
    using end_okD(4)[OF inv_ends[OF i, of a]] k by simp_all
  obtain c1 where c1: "c = (new_carrier l (hl_carrier h) (hl_epoch h) Provisional (discardAcked (hl_ack h) c1))
                         \<lparr>cn_nextEpoch := hl_epoch h, cn_prepared := Some l\<rparr>"
    "c1 = ?x \<or> (\<exists>m. cn_prepared ?x = Some m \<and> c1 = (set_state m Superseded ?x)\<lparr>cn_prepared := None\<rparr>)" "hl_ack h' = cn_recvBase ?x"
    using accept_request_cases[OF c] by blast
  have p1: "narrows ?x c1 \<and> cn_terminal c1 = cn_terminal ?x" if "coherent ?x"
    using c1(2)
  proof
    assume "\<exists>m. cn_prepared ?x = Some m \<and> c1 = (set_state m Superseded ?x)\<lparr>cn_prepared := None\<rparr>"
    then obtain m where m: "cn_prepared ?x = Some m" "c1 = (set_state m Superseded ?x)\<lparr>cn_prepared := None\<rparr>" by blast
    show ?thesis using coherent_prepared[OF that m(1)] that unfolding m(2) by (auto simp: narrows_def coherent_def points_def data_same)
  qed simp
  have co: "coherent ?x" by (rule end_okD(2)[OF inv_ends[OF i]])
  define d where "d = discardAcked (hl_ack h) c1"
  have st: "steady c1 d" unfolding d_def by (rule discardAcked_steady)
  have dd: "data_of d = data_of (discardAcked (hl_ack h) ?x)" unfolding d_def using p1[OF co] by (intro discardAcked_data) (simp add: narrows_def)
  have cd: "coherent d" "\<And>m. points d m \<Longrightarrow> points ?x m" using p1[OF co] co steady_coherent[OF st] by (auto simp: narrows_def)
  have c': "c = (new_carrier l (hl_carrier h) (hl_epoch h) Provisional d)\<lparr>cn_nextEpoch := hl_epoch h, cn_prepared := Some l\<rparr>"
    unfolding c1(1) d_def ..
  have rb: "cn_recvBase c = cn_recvBase ?x"
    using data_ofD(8)[OF dd] unfolding c' by (simp add: new_carrier_def discardAcked_def)
  show ?thesis
  proof (rule inv_create[OF i sh ko(2), where l = l])
    show "data_of c = data_of (discardAcked (hl_ack h) ?x)" unfolding c' using dd by (simp add: data_same)
    show "cn_terminal c = cn_terminal ?x" using st p1[OF co] unfolding c' by (simp add: steady_def)
    show "coherent ?x \<Longrightarrow> coherent c" unfolding c' using cd ko(3) by (auto simp: coherent_def points_def)
    show "coord_ok (AcceptWrite l h' old) (sy_reader s a) c (sy_conn s (other a))" using ko(1) c1(3) rb by simp
  qed (use ko(1) cd(2) in \<open>auto simp: c' points_def\<close>)
qed

lemma send_coord:
  assumes "send_msg a l m e s = (ok, s1)"
  shows "coord_ok p (sy_reader s1 a) (sy_conn s1 a) (sy_conn s1 (other a)) = coord_ok p (sy_reader s a) (sy_conn s a) (sy_conn s (other a))"
  by (simp add: send_msg_same[OF assms])

lemma inv_prepare_step:
  assumes i: "stream_inv s" and sh: "short s"
  shows "stream_inv (prepare_step a e s)"
proof -
  have ko: "coord_ok (sy_coordinator s a) (sy_reader s a) (sy_conn s a) (sy_conn s (other a))" by (rule end_okD(4)[OF inv_ends[OF i]])
  show ?thesis
  proof (cases "sy_coordinator s a")
    case (HelloWrite l h)
    obtain ok s1 where m: "send_msg a l (MHello h) e s = (ok, s1)" by fastforce
    have i1: "stream_inv s1" by (rule inv_send_hello[OF m i]) (use ko HelloWrite in simp)
    moreover have "stream_inv (set_coordinator a (HelloRead l h) s1)"
      by (rule inv_coordinator[OF i1]) (use ko HelloWrite in \<open>simp add: send_coord[OF m]\<close>)
    ultimately show ?thesis using m HelloWrite by (cases ok) (simp_all add: prepare_step_def inv_abandon)
  next
    case (HelloRead l h)
    have "stream_inv (case read_msg a l e s of (Blocked, s1) \<Rightarrow> s1
           | (Read_msg (MHello h'), s1) \<Rightarrow> set_coordinator a (HelloReply l h h') s1 | (_, s1) \<Rightarrow> abandon a l s1)"
    proof (rule inv_read_hello[OF i])
      fix h' q assume q: "sy_queue s a l = MHello h' # q" and 1: "stream_inv (set_queue a l q s)"
      show "stream_inv (set_coordinator a (HelloReply l h h') (set_queue a l q s))"
        by (rule inv_coordinator[OF 1]) (use ko HelloRead hello_ack[OF i q] in \<open>simp add: set_queue_def\<close>)
    qed
    then show ?thesis using HelloRead by (simp add: prepare_step_def)
  next
    case (HelloReply l h h')
    then show ?thesis using inv_abandon[OF i] inv_prepare_ready[OF i sh HelloReply]
      by (simp add: prepare_step_def split: option.split)
  next
    case (ReaderStart l)
    have r: "sy_reader s a l = Attaching" "cn_prepared (sy_conn s a) = None \<or> cn_prepared (sy_conn s a) = Some l"
      using ko ReaderStart by simp_all
    have "stream_inv (set_coordinator a Idle (set_reader a l Stopped (s\<lparr>sy_panic := True\<rparr>)))" by (rule inv_settle) (use i in simp_all)
    moreover have "stream_inv (set_coordinator a Idle (set_reader a l Reading s))" by (rule inv_settle) (use i r in simp_all)
    moreover have "set_reader a l Reading (set_reader a l Stopped s) = set_reader a l Reading s" by (simp add: set_reader_def)
    ultimately show ?thesis using r ReaderStart by (auto simp: prepare_step_def)
  qed (use i in \<open>simp_all add: prepare_step_def\<close>)
qed

text \<open>A write and a wait of a coordinator that has a carrier.\<close>

lemma inv_write_control:
  assumes i: "stream_inv s" and m: "send_msg a l (MFrame (control k l c)) e s = (ok, s1)" and "\<not> application_kind k"
    and p: "\<And>rd x y. coord_ok p rd x y"
  shows "stream_inv (set_coordinator a p s1)"
  by (rule inv_coordinator[OF inv_send_control[OF m i]]) (use assms in simp_all)

lemma inv_receive:
  assumes i: "stream_inv s" and "receive j (sy_conn s a) = Some (r, c)" and p: "\<And>rd x y. coord_ok p rd x y"
  shows "stream_inv (set_coordinator a p (set_conn a c s))"
proof (rule inv_coordinator[OF inv_conn[OF i]])
  show "narrows (sy_conn s a) c" "blameless c"
    using receive_narrows[OF assms(2)] end_okD(3)[OF inv_ends[OF i, of a]] by (simp_all add: blameless_def)
qed (rule p)

lemma inv_promote_step:
  assumes i: "stream_inv s"
  shows "stream_inv (promote_step a e s)"
proof (cases "sy_coordinator s a")
  case (WriteCommit l j)
  obtain ok s1 where m: "send_msg a l (MFrame (control Commit l (sy_conn s a))) e s = (ok, s1)" by fastforce
  show ?thesis using inv_write_control[OF i m] WriteCommit m by (cases ok) (simp_all add: promote_step_def application_kind_def)
next
  case (PromoteWait l j)
  then show ?thesis using inv_idle[OF i] i inv_receive[OF i]
    by (auto simp: promote_step_def split: option.split)
next
  case (PromoteEnd l)
  obtain ok c where c: "promote_finish l (sy_conn s a) = (ok, c)" by fastforce
  have "narrows (sy_conn s a) c" "cn_terminal c = cn_terminal (sy_conn s a)"
    using promote_finish_narrows[where l = l and c = "sy_conn s a"] c by simp_all
  then have "stream_inv (set_conn a c s)" using end_okD(3)[OF inv_ends[OF i, of a]] by (intro inv_conn[OF i]) (simp_all add: blameless_def)
  then have "stream_inv (set_coordinator a Idle (set_conn a c s))" by (rule inv_idle)
  then show ?thesis using PromoteEnd c by (cases ok) (simp_all add: promote_step_def inv_spawn)
qed (use i in \<open>simp_all add: promote_step_def\<close>)

lemma inv_drop_step:
  assumes i: "stream_inv s"
  shows "stream_inv (drop_step a e s)"
proof (cases "sy_coordinator s a")
  case (WriteDiscard l j)
  obtain ok s1 where m: "send_msg a l (MFrame (control Discard l (sy_conn s a))) e s = (ok, s1)" by fastforce
  show ?thesis using inv_write_control[OF i m] WriteDiscard m by (cases ok) (simp_all add: drop_step_def application_kind_def)
next
  case (DropWait l j)
  have "set_coordinator a Idle (shut a l (set_conn a c s)) = shut a l (set_coordinator a Idle (set_conn a c s))" for c
    by (simp add: set_coordinator_def shut_def)
  with DropWait show ?thesis using inv_idle[OF i] i inv_receive[OF i]
    by (auto simp: drop_step_def split: option.split)
next
  case (CoordinatorFails l)
  then show ?thesis using inv_idle[OF inv_fail_carrier[OF i]] by (simp add: drop_step_def)
qed (use i in \<open>simp_all add: drop_step_def\<close>)

lemma inv_accept_step:
  assumes i: "stream_inv s" and sh: "short s"
  shows "stream_inv (accept_step a e s)"
proof -
  have ko: "coord_ok (sy_coordinator s a) (sy_reader s a) (sy_conn s a) (sy_conn s (other a))" by (rule end_okD(4)[OF inv_ends[OF i]])
  have bl: "blameless (sy_conn s a)" by (rule end_okD(3)[OF inv_ends[OF i]])
  have old: "stream_inv (spawn a (close_old old) s')" if "stream_inv s'" for old s'
    by (rule inv_spawn[OF that]) (auto simp: close_old_def split: option.split)
  show ?thesis
  proof (cases "sy_coordinator s a")
    case (AcceptRead l)
    have "stream_inv (case read_msg a l e s of (Blocked, s1) \<Rightarrow> s1
           | (Read_msg (MHello h), s1) \<Rightarrow>
               (if request_valid h (sy_conn s a) then set_coordinator a (AcceptDecide l h) s1 else abandon a l s1)
           | (_, s1) \<Rightarrow> abandon a l s1)"
    proof (rule inv_read_hello[OF i])
      fix h q assume q: "sy_queue s a l = MHello h # q" and 1: "stream_inv (set_queue a l q s)"
      have "stream_inv (set_coordinator a (AcceptDecide l h) (set_queue a l q s))"
        by (rule inv_coordinator[OF 1]) (use ko AcceptRead hello_ack[OF i q] in \<open>simp add: set_queue_def\<close>)
      then show "stream_inv (if request_valid h (sy_conn s a) then set_coordinator a (AcceptDecide l h) (set_queue a l q s)
                             else abandon a l (set_queue a l q s))"
        using inv_abandon[OF 1] by simp
    qed
    then show ?thesis using AcceptRead by (simp add: accept_step_def)
  next
    case (AcceptDecide l h)
    then show ?thesis using inv_abandon[OF i] inv_accept_request[OF i sh AcceptDecide] by (auto simp: accept_step_def split: option.split)
  next
    case (AcceptWrite l h old)
    obtain ok s1 where m: "send_msg a l (MHello h) e s = (ok, s1)" by fastforce
    have i1: "stream_inv s1" by (rule inv_send_hello[OF m i]) (use ko AcceptWrite in simp)
    have "stream_inv (set_coordinator a (AcceptDone l old) s1)" "stream_inv (set_coordinator a (AcceptFailed l old) s1)"
      by (rule inv_coordinator[OF i1]; use ko AcceptWrite in \<open>simp add: send_coord[OF m]\<close>)+
    then show ?thesis using m AcceptWrite by (cases ok) (simp_all add: accept_step_def)
  next
    case (AcceptFailed l o')
    have "stream_inv (set_conn a (accept_failed l (sy_conn s a)) s)"
      by (rule inv_conn[OF i accept_failed_narrows(1)]) (use bl accept_failed_narrows(2) in \<open>simp add: blameless_def\<close>)
    then show ?thesis using AcceptFailed old[OF inv_abandon] by (simp add: accept_step_def)
  next
    case (AcceptDone l o')
    have "stream_inv (set_coordinator a Idle (set_reader a l Reading (set_conn a c s)))" if c: "accept_written l (sy_conn s a) = Some c" for c
    proof (rule inv_settle)
      note w = accept_written_narrows[OF c end_okD(2)[OF inv_ends[OF i]]]
      show "stream_inv (set_conn a c s)" by (rule inv_conn[OF i w(1)]) (use bl w(2) in \<open>simp add: blameless_def\<close>)
    qed (use ko AcceptDone in simp)
    then show ?thesis using AcceptDone old inv_abandon[OF i] by (auto simp: accept_step_def split: option.split)
  qed (use i in \<open>simp_all add: accept_step_def\<close>)
qed

lemma inv_coordinator_step: "stream_inv s \<Longrightarrow> short s \<Longrightarrow> stream_inv (coordinator_step a e s)"
  by (cases "sy_coordinator s a")
    (simp_all add: coordinator_step_def inv_prepare_step inv_promote_step inv_drop_step inv_accept_step)

section \<open>Calls\<close>

lemma inv_call_read:
  assumes i: "stream_inv s" and sh: "short s"
  shows "stream_inv (call_read a n s)"
proof -
  let ?b = "other a"
  have fl: "flow (sy_written s ?b) (sy_conn s ?b) (sy_conn s a) (sy_read s a) (sy_eof s a)"
    using end_okD(1)[OF inv_ends[OF i, of ?b]] by simp
  obtain r c where c: "conn_Read n (sy_conn s a) = (r, c)" by fastforce
  note f = conn_Read_flow[OF fl shortD[OF sh] c] and m = conn_Read_same[OF c]
  have u: "stream_inv (set_end a c (sy_written s a) R eof s)" if "flow (sy_written s ?b) (sy_conn s ?b) c R eof" for R eof
    by (rule inv_receiver[OF i m(2,1) that f(3)]) (use m in auto)
  show ?thesis
  proof (cases r)
    case (Got bs)
    then show ?thesis using u[OF f(1)[OF Got]] c by (simp add: call_read_def set_conn_def set_end_def)
  next
    case ReadEOF
    then show ?thesis using u[OF f(2)[OF ReadEOF]] c by (simp add: call_read_def set_conn_def set_end_def)
  qed (use c i in \<open>auto simp: call_read_def set_conn_def elim!: conn_Read_cases\<close>)
qed

lemma inv_call_write:
  assumes i: "stream_inv s" and sh: "short (call_write a data s)"
  shows "stream_inv (call_write a data s)"
proof -
  let ?b = "other a"
  have fl: "flow (sy_written s a) (sy_conn s a) (sy_conn s ?b) (sy_read s ?b) (sy_eof s ?b)" by (rule end_okD(1)[OF inv_ends[OF i]])
  have fb: "flow (sy_written s ?b) (sy_conn s ?b) (sy_conn s a) (sy_read s a) (sy_eof s a)"
    using end_okD(1)[OF inv_ends[OF i, of ?b]] by simp
  obtain r c where c: "conn_Write data (sy_conn s a) = (r, c)" by fastforce
  note m = conn_Write_same[OF c]
  show ?thesis
  proof (cases "\<exists>n. r = Took n")
    case True
    then obtain n where n: "r = Took n" by blast
    have e: "call_write a data s = set_end a c (sy_written s a @ take n data) (sy_read s a) (sy_eof s a) s"
      using c n by (simp add: call_write_def set_conn_def set_end_def)
    have l: "length (sy_written s a @ take n data) < u64_size" using shortD[OF sh, of a] unfolding e by (simp add: set_end_def)
    note f = conn_Write_flow[OF fl c[unfolded n] l]
    show ?thesis unfolding e
    proof (rule inv_data[OF i m(2) f(1)])
      show "flow (sy_written s ?b) (sy_conn s ?b) c (sy_read s a) (sy_eof s a)" using fb by (simp add: flow_receiver[OF m(1)])
    qed (use m f(2) in \<open>auto simp: grows_def same_receiver_def\<close>)
  next
    case False
    then have "c = sy_conn s a" using m(4) by blast
    then show ?thesis using False c i by (cases r) (auto simp: call_write_def set_conn_def)
  qed
qed

lemma inv_links:
  assumes i: "stream_inv s" and "narrows (sy_conn s a) c" and "blameless c" and "\<And>l. go_ok a (set_conn a c s) (k l)"
  shows "stream_inv (spawn a (map k ls) (set_conn a c s))"
  by (rule inv_spawn[OF inv_conn[OF assms(1-3)]]) (use assms(4) in auto)

lemma inv_call_close:
  assumes i: "stream_inv s"
  shows "stream_inv (call_close a s)"
proof -
  obtain r c where c: "conn_Close (sy_conn s a) = (r, c)" by fastforce
  have n: "narrows (sy_conn s a) c" "blameless c"
    using conn_Close_narrows[of "sy_conn s a"] c end_okD(3)[OF inv_ends[OF i, of a]] by (simp_all add: blameless_def)
  show ?thesis using inv_conn[OF i n] inv_links[OF i n, where k = CloseLink] inv_links[OF i n, where k = WriteReset] c
    by (auto simp: call_close_def split: option.split)
qed

lemma inv_context: "stream_inv s \<Longrightarrow> stream_inv (sys_exec (ContextDone a) s)"
proof -
  assume i: "stream_inv s"
  obtain ls c where c: "watchContext (sy_conn s a) = (ls, c)" by fastforce
  have "blameless c" using watchContext_terminal[of "sy_conn s a"] c end_okD(3)[OF inv_ends[OF i, of a]] by (auto simp: blameless_def)
  then show ?thesis using inv_links[OF i _ _, of a c WriteReset ls] watchContext_narrows[of "sy_conn s a"] c by simp
qed

lemma inv_abort: "stream_inv s \<Longrightarrow> stream_inv (sys_exec (CallAbort a reason) s)"
  using inv_terminate[of s "if reason then ErrReason else ErrClosed" a] by (auto simp: Abort_def terminate_def)

lemma inv_call_prepare:
  assumes i: "stream_inv s"
  shows "stream_inv (call_prepare l r s)"
proof (cases "sy_coordinator s Initiator \<noteq> Idle \<or> sy_reader s Initiator l \<noteq> Unused")
  case False
  then have c: "sy_coordinator s Initiator = Idle" and u: "sy_reader s Initiator l = Unused" by auto
  have np: "\<not> points (sy_conn s Initiator) l" using end_okD(9)[OF inv_ends[OF i, of Initiator], of l] u by simp
  have "stream_inv (set_reader Initiator l Stopped (shut Initiator l s))" by (rule inv_reader_dead) (use i u in simp_all)
  moreover have "stream_inv (set_coordinator Initiator (HelloWrite l h) (set_reader Initiator l Attaching s))"
    if h: "prepare_request r (sy_conn s Initiator) = Inr h" for h
  proof (rule inv_coordinator)
    have "linked (frames (sy_queue s Initiator l)) Attaching (sy_conn s Initiator) (sy_go s Responder) l"
      using end_okD(8)[OF inv_ends[OF i, of Responder], of l] u by (simp add: linked_def)
    then show "stream_inv (set_reader Initiator l Attaching s)" by (intro inv_reader[OF i]) (simp_all add: c)
    show "coord_ok (HelloWrite l h) (sy_reader (set_reader Initiator l Attaching s) Initiator) (sy_conn (set_reader Initiator l Attaching s) Initiator)
        (sy_conn (set_reader Initiator l Attaching s) (other Initiator))"
      using h np by (auto simp: prepare_request_def sy_reader_set split: if_splits sum.splits)
  qed
  ultimately show ?thesis using False by (simp add: call_prepare_def split: sum.split)
qed (simp add: call_prepare_def i)

lemma inv_call_accept:
  assumes i: "stream_inv s"
  shows "stream_inv (call_accept l s)"
proof (cases "sy_coordinator s Responder \<noteq> Idle \<or> sy_reader s Responder l \<noteq> Unused")
  case False
  then have c: "sy_coordinator s Responder = Idle" and u: "sy_reader s Responder l = Unused" by auto
  have "stream_inv (set_coordinator Responder (AcceptRead l) (set_reader Responder l Attaching s))"
  proof (rule inv_coordinator)
    have "linked (frames (sy_queue s Responder l)) Attaching (sy_conn s Responder) (sy_go s Initiator) l"
      using end_okD(8)[OF inv_ends[OF i, of Initiator], of l] u by (simp add: linked_def)
    then show "stream_inv (set_reader Responder l Attaching s)" by (intro inv_reader[OF i]) (simp_all add: c)
    show "coord_ok (AcceptRead l) (sy_reader (set_reader Responder l Attaching s) Responder) (sy_conn (set_reader Responder l Attaching s) Responder)
        (sy_conn (set_reader Responder l Attaching s) (other Responder))"
      using end_okD(9)[OF inv_ends[OF i, of Responder], of l] u by (simp add: sy_reader_set)
  qed
  then show ?thesis using False by (simp add: call_accept_def)
qed (simp add: call_accept_def i)

lemma inv_call_promote:
  assumes i: "stream_inv s"
  shows "stream_inv (call_promote n epoch s)"
proof -
  have "stream_inv (set_coordinator Initiator (WriteCommit l j) (set_conn Initiator c s))"
    if p: "promote_begin n epoch (sy_conn s Initiator) = Some (l, j, c)" for l j c
  proof (rule inv_coordinator[OF inv_conn[OF i]])
    note b = promote_begin_narrows[OF p end_okD(2)[OF inv_ends[OF i]]]
    show "narrows (sy_conn s Initiator) c" "blameless c" using b end_okD(3)[OF inv_ends[OF i, of Initiator]] by (simp_all add: blameless_def)
  qed simp
  with i show ?thesis by (auto simp: call_promote_def split: option.split)
qed

lemma inv_call_drop:
  assumes i: "stream_inv s"
  shows "stream_inv (call_drop n s)"
proof -
  have "stream_inv (set_coordinator Initiator (WriteDiscard l j) (set_conn Initiator c s))"
    if p: "drop_begin n (sy_conn s Initiator) = Some (l, j, c)" for l j c
  proof (rule inv_coordinator[OF inv_conn[OF i]])
    show "narrows (sy_conn s Initiator) c" "blameless c"
      using drop_begin_narrows[OF p] end_okD(3)[OF inv_ends[OF i, of Initiator]] by (simp_all add: blameless_def)
  qed simp
  with i show ?thesis by (auto simp: call_drop_def split: option.split)
qed

lemma inv_closewrite: "stream_inv s \<Longrightarrow> stream_inv (sys_exec (CallCloseWrite a) s)"
proof -
  assume i: "stream_inv s"
  note f = CloseWrite_flow[OF end_okD(1)[OF inv_ends[OF i, of a]]]
  show ?thesis using inv_sender[OF i f(3,2,1,4)] by simp
qed

lemma inv_exec:
  assumes i: "stream_inv s" and "short s" and "short (sys_exec p s)"
  shows "stream_inv (sys_exec p s)"
  using assms
  by (cases p)
    (simp_all only: inv_closewrite inv_context inv_abort,
     simp_all add: inv_coordinator_step inv_reader_step inv_go_step inv_call_read inv_call_write inv_call_close inv_call_prepare
       inv_call_accept inv_call_promote inv_call_drop)

end
