(* ===== verification/Resumable_Stream.thy ===== *)
theory Resumable_Stream
  imports Resumable_Steps
begin

text \<open>
  What a resumable stream promises to the two applications, whatever the goroutines, the links
  and the coordinators do, and the places where its protocol does not keep its promise.
\<close>

section \<open>Runs\<close>

text \<open>Only a write of the application adds to what is written.\<close>

lemma written_set [simp]:
  "sy_written (set_reader a l r s) = sy_written s" "sy_written (spawn a gs s) = sy_written s" "sy_written (shut a l s) = sy_written s"
  "sy_written (set_queue a l q s) = sy_written s"
  by (simp_all add: set_reader_def spawn_def shut_def set_queue_def)

lemma written_send [simp]: "sy_written (snd (send_msg a l m e s)) = sy_written s"
  using send_msg_same(5)[of a l m e s] by (metis prod.collapse)

lemma written_send': "send_msg a l m e s = (ok, s1) \<Longrightarrow> sy_written s1 = sy_written s"
  by (rule send_msg_same(5))

lemma written_read: "read_msg a l e s = (r, s1) \<Longrightarrow> sy_written s1 = sy_written s"
  by (auto simp: read_msg_def split: if_splits list.splits)

lemma written_helpers [simp]:
  "sy_written (abandon a l s) = sy_written s" "sy_written (fail_carrier a l s) = sy_written s" "sy_written (terminate a e s) = sy_written s"
  "sy_written (react a l r s) = sy_written s"
  by (auto simp: abandon_def fail_carrier_def terminate_def react_def Let_def split: prod.split option.split reaction.split)

lemma written_prepare: "sy_written (prepare_step a e s) = sy_written s"
  by (cases "sy_coordinator s a")
    (auto simp: prepare_step_def written_send' written_read split: prod.split bool.split read_outcome.split msg.split option.split)

lemma written_promote: "sy_written (promote_step a e s) = sy_written s"
  by (cases "sy_coordinator s a")
    (auto simp: promote_step_def written_send' split: prod.split bool.split option.split)

lemma written_drop: "sy_written (drop_step a e s) = sy_written s"
  by (cases "sy_coordinator s a")
    (auto simp: drop_step_def written_send' split: prod.split bool.split option.split)

lemma written_accept: "sy_written (accept_step a e s) = sy_written s"
  by (cases "sy_coordinator s a")
    (auto simp: accept_step_def written_send' written_read split: prod.split bool.split read_outcome.split msg.split option.split)

lemma written_coordinator: "sy_written (coordinator_step a e s) = sy_written s"
  by (cases "sy_coordinator s a") (simp_all add: coordinator_step_def written_prepare written_promote written_drop written_accept)

lemma written_reader: "sy_written (reader_step a l e s) = sy_written s"
  by (cases "sy_reader s a l")
    (auto simp: reader_step_def Let_def written_send' written_read split: prod.split bool.split read_outcome.split msg.split option.split)

lemma written_go: "sy_written (snd (go_step a e g s)) = sy_written s"
  by (cases g) (auto simp: go_step_def Let_def written_send' split: prod.split loop_step.split option.split)

lemma written_exec: "length (sy_written s a) \<le> length (sy_written (sys_exec p s) a)"
proof (cases p)
  case (GoStep b n e)
  then show ?thesis using written_go[of b e "sy_go s b ! n" s] by (auto simp: goroutine_step_def split: prod.split)
qed (auto simp: written_coordinator written_reader call_read_def call_write_def call_close_def call_prepare_def call_accept_def
    call_promote_def call_drop_def split: prod.split read_result.split write_result.split option.split sum.split)

lemma short_exec: "short (sys_exec p s) \<Longrightarrow> short s"
  unfolding short_def using written_exec[of s _ p] order_le_less_trans by blast

definition run_inv :: "sys \<Rightarrow> bool" where
  "run_inv s \<longleftrightarrow> (short s \<longrightarrow> stream_inv s)"

interpretation stream_run: machine sys_exec run_inv "\<lambda>_. True"
  by unfold_locales (use inv_exec short_exec in \<open>auto simp: run_inv_def\<close>)

text \<open>Two new ends with the same window.\<close>

lemma New_conn_fields:
  assumes "New_conn w r i = Inr c"
  shows "cn_window c = w" "cn_sendBase c = 0" "cn_sendNext c = 0" "cn_send c = []" "\<not> cn_localFIN c" "\<not> cn_finAcked c" "cn_recvNext c = 0"
    "cn_recvBase c = 0" "cn_recv c = []" "\<not> cn_remoteFIN c" "cn_active c = None" "cn_prepared c = None" "cn_retained c = None"
    "cn_terminal c = None" "\<not> cn_closed c" "cn_role c = r"
  using assms by (auto simp: New_conn_def split: option.splits if_splits)

lemma new_inv:
  assumes i: "New_conn w RoleInitiator i = Inr ci" and r: "New_conn w RoleResponder j = Inr cr"
  shows "run_inv (new_sys ci cr)"
proof -
  note f = New_conn_fields[OF i] New_conn_fields[OF r]
  have "flow [] ci cr [] False" "flow [] cr ci [] False" by (simp_all add: flow_def f)
  moreover have "coherent ci" "coherent cr" "blameless ci" "blameless cr" "\<not> points ci l" "\<not> points cr l" for l
    by (simp_all add: coherent_def blameless_def points_def f)
  ultimately show ?thesis by (simp add: run_inv_def stream_inv_def end_ok_def Let_def new_sys_def linked_def)
qed

lemma run_end:
  assumes "New_conn w RoleInitiator i = Inr ci" and "New_conn w RoleResponder j = Inr cr" and "short (fold sys_exec ops (new_sys ci cr))"
  shows "end_ok a (fold sys_exec ops (new_sys ci cr))"
proof -
  have "run_inv (fold sys_exec ops (new_sys ci cr))"
    by (rule stream_run.run[OF new_inv[OF assms(1,2)]]) (simp add: list_all_iff)
  then show ?thesis using assms(3) inv_ends by (simp add: run_inv_def)
qed

section \<open>A run\<close>

text \<open>
  The initiator writes, the two ends attach a first carrier, the bytes travel over it and the
  responder reads them.
\<close>

definition attach_ops :: "link \<Rightarrow> bytes \<Rightarrow> nat \<Rightarrow> op list" where
  "attach_ops l i epoch =
     [CallPrepare l (Some i), Coordinate Initiator Works, CallAccept l, Coordinate Responder Works, Coordinate Responder Works,
      Coordinate Responder Works, Coordinate Responder Works, Coordinate Initiator Works, Coordinate Initiator Works, Coordinate Initiator Works,
      CallPromote i epoch, Coordinate Initiator Works, ReadStep Responder l Works, ReadStep Responder l Works, ReadStep Responder l Works,
      ReadStep Responder l Works, ReadStep Initiator l Works, ReadStep Initiator l Works, ReadStep Initiator l Works,
      Coordinate Initiator Works, Coordinate Initiator Works]"

definition sample_digest :: bytes where
  "sample_digest = replicate 32 (CHR 0x07)"

definition sample_id :: "byte \<Rightarrow> bytes" where
  "sample_id n = replicate 15 (CHR 0x01) @ [n]"

lemma sample_id_simps [simp]: "sample_id n \<noteq> zeroCarrier" "zeroCarrier \<noteq> sample_id n" "sample_id n = sample_id m \<longleftrightarrow> n = m"
proof -
  have "hd (sample_id n) \<noteq> hd zeroCarrier" by (simp add: sample_id_def zeroCarrier_def numeral_eq_Suc)
  then show "sample_id n \<noteq> zeroCarrier" "zeroCarrier \<noteq> sample_id n" by metis+
qed (simp add: sample_id_def)

definition sample_conn :: "role \<Rightarrow> conn" where
  "sample_conn r =
     \<lparr>cn_window = 65536, cn_role = r, cn_identity = sample_digest, cn_carriers = [], cn_active = None, cn_prepared = None,
      cn_retained = None, cn_nextEpoch = 0, cn_committed = 0, cn_channels = [], cn_commitWait = [], cn_discardWait = [],
      cn_detached = False, cn_detachedSeq = 0, cn_sendBase = 0, cn_sendNext = 0, cn_send = [],
      cn_localFIN = False, cn_finSent = zeroCarrier, cn_finAcked = False, cn_recvNext = 0, cn_recvBase = 0,
      cn_recv = [], cn_ackCarrier = zeroCarrier, cn_ackOffset = 0, cn_remoteFIN = False, cn_remoteFINAt = 0,
      cn_closed = False, cn_terminal = None\<rparr>"

lemma sample_new:
  "New_conn 65536 RoleInitiator (Some sample_digest) = Inr (sample_conn RoleInitiator)"
  "New_conn 65536 RoleResponder (Some sample_digest) = Inr (sample_conn RoleResponder)"
  by (simp_all add: New_conn_def sample_conn_def maximumFrame_def)

abbreviation sample_start :: sys where
  "sample_start \<equiv> new_sys (sample_conn RoleInitiator) (sample_conn RoleResponder)"

lemmas net_defs =
  send_msg_def read_msg_def set_conn_def set_coordinator_def set_reader_def set_queue_def spawn_def shut_def break_link_def Let_def

lemmas coordinator_defs =
  coordinator_step_def prepare_step_def promote_step_def accept_step_def drop_step_def abandon_def call_prepare_def call_accept_def
  call_promote_def call_drop_def prepare_request_def randomCarrierID_def reply_matches_def prepare_ready_def request_valid_def
  accept_request_def accept_written_def new_carrier_def set_state_def carrier_of_def discardAcked_def promote_begin_def promote_finish_def
  drop_begin_def make_channel_def receive_def offer_def close_old_def helloPrepare_def helloReady_def fail_carrier_def failCarrier_def

lemmas reader_defs =
  reader_step_def superseded_def application_kind_def dispose_def applicationDisposition_def on_frame_def on_Data_def on_Ack_def on_FIN_def
  on_FINAck_def on_Reset_def on_Commit_def on_CommitAck_def on_Confirm_def on_Discard_def on_DiscardAck_def activate_def
  needs_transition_def react_def terminate_def failTerminal_def detachAll_def List.map_filter_def

lemmas writer_defs =
  goroutine_step_def go_step_def writeActive_def fin_written_def ack_due_def ack_written_def confirm_written_def maximumFrame_def slice_def

lemmas call_defs =
  call_read_def conn_Read_def call_write_def conn_Write_def CloseWrite_def call_close_def conn_Close_def Abort_def watchContext_def

lemmas run_defs =
  net_defs coordinator_defs reader_defs writer_defs call_defs new_sys_def sample_conn_def u64_add_def u64_sub_def u64_size_def u64_max_def

definition sample_ops :: "op list" where
  "sample_ops =
     CallWrite Initiator ''hi'' # attach_ops 0 (sample_id CHR ''1'') 1 @
     [GoStep Initiator 1 Works, GoStep Initiator 1 Works, GoStep Initiator 1 Works, GoStep Initiator 1 Works,
      ReadStep Responder 0 Works, ReadStep Responder 0 Works, ReadStep Responder 0 Works,
      ReadStep Responder 0 Works, ReadStep Responder 0 Works, ReadStep Responder 0 Works, ReadStep Responder 0 Works, CallRead Responder 10]"

lemma sample_run:
  "sy_written (fold sys_exec sample_ops sample_start) Initiator = ''hi''" "sy_written (fold sys_exec sample_ops sample_start) Responder = []"
  "sy_read (fold sys_exec sample_ops sample_start) Responder = ''hi''"
  by (simp_all add: sample_ops_def attach_ops_def run_defs)

lemma sample_short: "short (fold sys_exec sample_ops sample_start)"
  by (simp add: short_def sample_run u64_size_def)

text \<open>
  On a healthy link the call that promotes the first carrier gives up before the reply arrives
  and is made again: the initiator sends a second COMMIT.
\<close>

definition retry_ops :: "op list" where
  "retry_ops =
     take 12 (attach_ops 0 (sample_id CHR ''1'') 1) @
     [Coordinate Initiator GivesUp, CallPromote (sample_id CHR ''1'') 1, Coordinate Initiator Works] @
     replicate 8 (ReadStep Responder 0 Works) @ replicate 7 (ReadStep Initiator 0 Works)"

lemma replicate_numeral: "replicate (numeral k) x = x # replicate (pred_numeral k) x"
  by (simp add: numeral_eq_Suc)

lemma retry_run:
  "cn_terminal (sy_conn (fold sys_exec retry_ops sample_start) Initiator) = Some (ErrProtocolViolation ''commit_ack_carrier_not_committing'')"
  "sy_written (fold sys_exec retry_ops sample_start) Initiator = []" "sy_written (fold sys_exec retry_ops sample_start) Responder = []"
  by (simp_all add: retry_ops_def attach_ops_def replicate_numeral run_defs)

section \<open>Properties\<close>

text \<open>
  C1. Whatever the goroutines, the links and the coordinators of a resumable stream do, what an
  application has read is a prefix of what the other one has written, it reads the end of the
  stream only after everything, and every byte it has not read yet is still buffered at the
  end that sent it: replacing carriers never loses, repeats or reorders data.
\<close>

theorem resumable_delivery:
  assumes "New_conn w RoleInitiator i = Inr ci" and "New_conn w RoleResponder j = Inr cr"
    and "s = fold sys_exec ops (new_sys ci cr)" and "short s"
  shows "prefix (sy_read s a) (sy_written s (other a)) \<and> (sy_eof s a \<longrightarrow> sy_read s a = sy_written s (other a)) \<and>
    suffix (drop (length (sy_read s a)) (sy_written s (other a))) (cn_send (sy_conn s (other a)))"
proof -
  have f: "flow (sy_written s (other a)) (sy_conn s (other a)) (sy_conn s a) (sy_read s a) (sy_eof s a)"
    using end_okD(1)[OF run_end[OF assms(1,2) assms(4)[unfolded assms(3)], of "other a"]] assms(3) by simp
  have "length (sy_read s a) = cn_recvBase (sy_conn s a)" using f by (auto simp: flow_def)
  moreover have "cn_sendBase (sy_conn s (other a)) \<le> cn_recvBase (sy_conn s a)" using f by (simp add: flow_def)
  then have "suffix (drop (cn_recvBase (sy_conn s a)) (sy_written s (other a))) (drop (cn_sendBase (sy_conn s (other a))) (sy_written s (other a)))"
    by (metis drop_drop le_add_diff_inverse2 suffix_drop)
  ultimately have "suffix (drop (length (sy_read s a)) (sy_written s (other a))) (cn_send (sy_conn s (other a)))"
    using f by (simp add: flow_def)
  moreover have "prefix (sy_read s a) (sy_written s (other a)) \<and> (sy_eof s a \<longrightarrow> sy_read s a = sy_written s (other a))"
    using f by (auto simp: flow_def take_is_prefix)
  ultimately show ?thesis by blast
qed

theorem resumable_delivery_witness:
  "prefix (sy_read (fold sys_exec sample_ops sample_start) Responder) ''hi'' \<and> sy_read (fold sys_exec sample_ops sample_start) Responder = ''hi''"
  using resumable_delivery[OF sample_new refl sample_short, of Responder] sample_run by simp

text \<open>
  C5. Neither end of a resumable stream ever fails over its data: no read loop finds a gap in the
  sequence of data, more data than its window holds, an acknowledgement beyond what was sent, a
  FIN at the wrong offset or an acknowledgement of a FIN that was not sent.
\<close>

theorem no_data_fault:
  assumes "New_conn w RoleInitiator i = Inr ci" and "New_conn w RoleResponder j = Inr cr"
    and "short (fold sys_exec ops (new_sys ci cr))"
    and "cn_terminal (sy_conn (fold sys_exec ops (new_sys ci cr)) a) = Some (ErrProtocolViolation st)"
  shows "st \<notin> set data_stages"
  using end_okD(3)[OF run_end[OF assms(1-3), of a]] assms(4) by (simp add: blameless_def)

theorem no_data_fault_witness: "''commit_ack_carrier_not_committing'' \<notin> set data_stages"
proof -
  have "short (fold sys_exec retry_ops sample_start)" by (simp add: short_def retry_run)
  from no_data_fault[OF sample_new this retry_run(1)] show ?thesis .
qed

text \<open>
  C20. The buffers of a resumable stream never hold more than the window, and its 64-bit offsets are
  exact: they count the bytes that the applications have written and read.
\<close>

theorem resumable_bounds:
  assumes "New_conn w RoleInitiator i = Inr ci" and "New_conn w RoleResponder j = Inr cr"
    and "s = fold sys_exec ops (new_sys ci cr)" and "short s" and "c = sy_conn s a"
  shows "length (cn_send c) \<le> cn_window c \<and> length (cn_recv c) \<le> cn_window c \<and>
    cn_sendNext c = length (sy_written s a) \<and> cn_recvBase c = length (sy_read s a) \<and> cn_sendNext c < u64_size"
proof -
  note e = run_end[OF assms(1,2) assms(4)[unfolded assms(3)]]
  have f: "flow (sy_written s a) c (sy_conn s (other a)) (sy_read s (other a)) (sy_eof s (other a))"
    "flow (sy_written s (other a)) (sy_conn s (other a)) c (sy_read s a) (sy_eof s a)"
    using end_okD(1)[OF e, of a] end_okD(1)[OF e, of "other a"] assms(3,5) by simp_all
  have "length (cn_recv c) \<le> cn_window c" using f(2) by (auto simp: flow_def)
  moreover have "cn_recvBase c = length (sy_read s a)" using f(2) by (auto simp: flow_def)
  ultimately show ?thesis using f(1) shortD[OF assms(4), of a] by (auto simp: flow_def)
qed

theorem resumable_bounds_witness:
  "cn_recvBase (sy_conn (fold sys_exec sample_ops sample_start) Responder) = 2 \<and>
   cn_sendNext (sy_conn (fold sys_exec sample_ops sample_start) Initiator) = 2"
  using resumable_bounds[OF sample_new refl sample_short refl, of Responder] resumable_bounds[OF sample_new refl sample_short refl, of Initiator]
    sample_run by simp



end
