(* ===== verification/Resumable_Limits.thy ===== *)
theory Resumable_Limits
  imports Resumable_Stream
begin

text \<open>
  Runs of a resumable stream in which its protocol gets stuck or fails although both ends are
  healthy, and that nothing the ends do afterwards gets them out of it.
\<close>

section \<open>A close during the preparation of a carrier\<close>

text \<open>The initiator is closed after it has taken up the reply and before \<^verbatim>\<open>PrepareCarrier\<close> starts the read loop.\<close>

definition close_ops :: "op list" where
  "close_ops = take 9 (attach_ops 0 (sample_id CHR ''1'') 1) @ [CallClose Initiator, Coordinate Initiator Works]"


section \<open>A retried promotion\<close>


section \<open>A lost acknowledgement of a commit\<close>

text \<open>The responder commits the first carrier; the link fails before its acknowledgement arrives, and both ends notice.\<close>

definition lost_ops :: "op list" where
  "lost_ops =
     take 12 (attach_ops 0 (sample_id CHR ''1'') 1) @ replicate 3 (ReadStep Responder 0 Works) @ [ReadStep Responder 0 Breaks, ReadStep Responder 0 Works] @
     [ReadStep Initiator 0 Breaks, ReadStep Initiator 0 Works, Coordinate Initiator Works]"

abbreviation lost :: sys where
  "lost \<equiv> fold sys_exec lost_ops sample_start"

lemma lost_run:
  "cn_active (sy_conn lost Initiator) = None" "cn_prepared (sy_conn lost Initiator) = None" "cn_retained (sy_conn lost Initiator) = None"
  "cn_committed (sy_conn lost Initiator) = 0" "cn_committed (sy_conn lost Responder) = 1" "cn_prepared (sy_conn lost Responder) = None"
  "cn_terminal (sy_conn lost Initiator) = None" "cn_terminal (sy_conn lost Responder) = None" "sy_coordinator lost = (\<lambda>_. Idle)"
  "sy_queue lost = (\<lambda>_ _. [])"
  by (simp_all add: lost_ops_def attach_ops_def replicate_numeral run_defs fun_eq_iff split: side.split)

text \<open>An operation that takes up no carrier.\<close>

definition idles :: "conn \<Rightarrow> conn \<Rightarrow> bool" where
  "idles c c' \<longleftrightarrow>
     cn_committed c' = cn_committed c \<and> (cn_active c = None \<longrightarrow> cn_active c' = None) \<and> (cn_prepared c = None \<longrightarrow> cn_prepared c' = None)"

lemma idles_refl [simp]: "idles c c"
  by (simp add: idles_def)

lemma discardAcked_idles [simp]: "idles c (discardAcked n c)"
  by (simp add: discardAcked_def idles_def)

lemma committed_simps [simp]:
  "cn_committed (offer k r c) = cn_committed c" "cn_committed (set_state l st c) = cn_committed c"
  by (simp_all add: offer_def split: option.split)

lemma failCarrier_idles: "idles c (snd (snd (failCarrier l e c)))"
  by (simp add: failCarrier_def Let_def idles_def)

lemma failTerminal_idles: "idles c (snd (failTerminal e c))"
  by (simp add: failTerminal_def detachAll_def idles_def)

lemma watchContext_idles: "idles c (snd (watchContext c))"
  by (simp add: watchContext_def detachAll_def idles_def)

lemma conn_Close_idles: "idles c (snd (conn_Close c))"
  by (simp add: conn_Close_def detachAll_def idles_def Let_def)

lemma write_idles: "idles c (fin_written l c)" "idles c (ack_written l n c)" "idles c (snd (confirm_written l c))" "idles c (snd (CloseWrite c))"
  by (simp_all add: fin_written_def ack_written_def confirm_written_def CloseWrite_def idles_def)

lemma conn_Read_idles: "conn_Read n c = (r, c') \<Longrightarrow> idles c c'"
  by (erule conn_Read_cases) (simp_all add: after_read_def idles_def)

lemma conn_Write_idles: "conn_Write d c = (r, c') \<Longrightarrow> idles c c'"
  by (erule conn_Write_cases) (simp_all add: after_write_def idles_def)

lemma on_frame_idles:
  assumes "cn_prepared c = None"
  shows "idles c (snd (on_frame l f c))"
proof (cases "fr_kind f")
  case Data
  then show ?thesis by (simp add: on_frame_def on_Data_def Let_def idles_def)
next
  case FIN
  then show ?thesis by (simp add: on_frame_def on_FIN_def idles_def)
next
  case FINAck
  then show ?thesis by (simp add: on_frame_def on_FINAck_def idles_def)
next
  case Commit
  then show ?thesis using assms by (simp add: on_frame_def on_Commit_def Let_def)
next
  case CommitAck
  then show ?thesis using assms by (simp add: on_frame_def on_CommitAck_def Let_def)
next
  case Confirm
  then show ?thesis by (simp add: on_frame_def on_Confirm_def idles_def split: option.split)
next
  case Discard
  then show ?thesis using assms by (simp add: on_frame_def on_Discard_def)
next
  case DiscardAck
  then show ?thesis using assms by (simp add: on_frame_def on_DiscardAck_def Let_def)
qed (simp_all add: on_frame_def on_Ack_def on_Reset_def)

text \<open>The ends disagree on the committed epoch, and no carrier is being set up.\<close>

fun asking :: "nat \<Rightarrow> coordinator \<Rightarrow> bool" where
  "asking n Idle \<longleftrightarrow> True"
| "asking n (HelloWrite l h) \<longleftrightarrow> hl_committed h = n"
| "asking n (HelloRead l h) \<longleftrightarrow> True"
| "asking n _ \<longleftrightarrow> False"

fun refusing :: "nat \<Rightarrow> coordinator \<Rightarrow> bool" where
  "refusing n Idle \<longleftrightarrow> True"
| "refusing n (AcceptRead l) \<longleftrightarrow> True"
| "refusing n (AcceptDecide l h) \<longleftrightarrow> hl_committed h = n"
| "refusing n _ \<longleftrightarrow> False"

definition estranged :: "sys \<Rightarrow> bool" where
  "estranged s \<longleftrightarrow>
     (let x = sy_conn s Initiator; y = sy_conn s Responder; n = cn_committed x
      in cn_active x = None \<and> cn_prepared x = None \<and> cn_prepared y = None \<and> n \<noteq> cn_committed y \<and>
         asking n (sy_coordinator s Initiator) \<and> refusing n (sy_coordinator s Responder) \<and>
         (\<forall>l h. MHello h \<notin> set (sy_queue s Initiator l)) \<and>
         (\<forall>l h. MHello h \<in> set (sy_queue s Responder l) \<longrightarrow> hl_committed h = n))"

lemma estranged_quiet [simp]:
  "estranged (set_reader a l r s) = estranged s" "estranged (spawn a gs s) = estranged s" "estranged (shut a l s) = estranged s"
  "estranged (break_link a l s) = estranged s" "estranged (s\<lparr>sy_panic := p\<rparr>) = estranged s" "estranged (s\<lparr>sy_read := r'\<rparr>) = estranged s"
  "estranged (s\<lparr>sy_eof := e'\<rparr>) = estranged s" "estranged (s\<lparr>sy_written := w'\<rparr>) = estranged s" "estranged (s\<lparr>sy_go := g'\<rparr>) = estranged s"
  by (simp_all add: estranged_def set_reader_def spawn_def shut_def break_link_def Let_def)

lemma estranged_conn: "estranged s \<Longrightarrow> idles (sy_conn s a) c \<Longrightarrow> estranged (set_conn a c s)"
  by (cases a) (auto simp: estranged_def idles_def set_conn_def Let_def)

lemma estranged_idle: "estranged s \<Longrightarrow> estranged (set_coordinator a Idle s)"
  by (cases a) (auto simp: estranged_def set_coordinator_def Let_def)

lemma estranged_abandon: "estranged s \<Longrightarrow> estranged (abandon a l s)"
  unfolding abandon_def by (rule estranged_idle) simp

lemma estranged_send:
  assumes "estranged s" and "send_msg a l m e s = (ok, s1)" and "\<And>h. m = MHello h \<Longrightarrow> a = Initiator \<and> hl_committed h = cn_committed (sy_conn s Initiator)"
  shows "estranged s1"
proof -
  have "estranged (set_queue (other a) l (sy_queue s (other a) l @ [m]) s)"
    using assms(1,3) by (cases a) (auto simp: estranged_def set_queue_def Let_def)
  with assms(1,2) show ?thesis by (auto simp: send_msg_def Let_def split: if_splits env.splits)
qed

lemma estranged_pop: "estranged s \<Longrightarrow> sy_queue s a l = m # q \<Longrightarrow> estranged (set_queue a l q s)"
  by (cases a) (simp_all add: estranged_def set_queue_def Let_def, (metis list.set_intros(2))+)

lemma estranged_read: "estranged s \<Longrightarrow> read_msg a l e s = (r, s1) \<Longrightarrow> estranged s1"
  by (auto simp: read_msg_def estranged_pop split: if_splits list.splits)

lemma estranged_fail: "estranged s \<Longrightarrow> estranged (fail_carrier a l s)"
  using failCarrier_idles[of "sy_conn s a" l ErrLink]
  by (auto simp: fail_carrier_def Let_def estranged_conn split: prod.split option.split)

lemma estranged_terminate: "estranged s \<Longrightarrow> estranged (terminate a e s)"
  using failTerminal_idles[of "sy_conn s a" e] by (auto simp: terminate_def estranged_conn split: prod.split)

lemma estranged_react: "estranged s \<Longrightarrow> estranged (react a l r s)"
  by (auto simp: react_def split: reaction.split)

lemma estranged_coordinator_step:
  assumes e: "estranged s"
  shows "estranged (coordinator_step a v s)"
proof (cases a)
  case Initiator
  have k: "asking (cn_committed (sy_conn s Initiator)) (sy_coordinator s Initiator)" "\<And>l h. MHello h \<notin> set (sy_queue s Initiator l)"
    using e by (simp_all add: estranged_def Let_def)
  show ?thesis
  proof (cases "sy_coordinator s Initiator")
    case (HelloWrite l h)
    obtain ok s1 where m: "send_msg Initiator l (MHello h) v s = (ok, s1)" by fastforce
    have e1: "estranged s1" by (rule estranged_send[OF e m]) (use k HelloWrite in auto)
    then have "estranged (set_coordinator Initiator (HelloRead l h) s1)" by (simp add: estranged_def set_coordinator_def Let_def)
    then show ?thesis using HelloWrite Initiator m e1 by (cases ok) (simp_all add: coordinator_step_def prepare_step_def estranged_abandon)
  next
    case (HelloRead l h)
    obtain r s1 where m: "read_msg Initiator l v s = (r, s1)" by fastforce
    have "estranged s1" by (rule estranged_read[OF e m])
    moreover have "r \<noteq> Read_msg (MHello h')" for h'
      using m k(2)[of h' l] by (auto simp: read_msg_def split: if_splits list.splits)
    ultimately show ?thesis using HelloRead Initiator m
      by (auto simp: coordinator_step_def prepare_step_def estranged_abandon split: read_outcome.split msg.split)
  qed (use k e Initiator in \<open>simp_all add: coordinator_step_def\<close>)
next
  case Responder
  have k: "refusing (cn_committed (sy_conn s Initiator)) (sy_coordinator s Responder)"
    "\<And>l h. MHello h \<in> set (sy_queue s Responder l) \<Longrightarrow> hl_committed h = cn_committed (sy_conn s Initiator)"
    "cn_committed (sy_conn s Initiator) \<noteq> cn_committed (sy_conn s Responder)"
    using e by (auto simp: estranged_def Let_def)
  show ?thesis
  proof (cases "sy_coordinator s Responder")
    case (AcceptRead l)
    obtain r s1 where m: "read_msg Responder l v s = (r, s1)" by fastforce
    have e1: "estranged s1" by (rule estranged_read[OF e m])
    have "estranged (set_coordinator Responder (AcceptDecide l h) s1)" if "r = Read_msg (MHello h)" for h
    proof -
      have "MHello h \<in> set (sy_queue s Responder l)" using m that by (auto simp: read_msg_def split: if_splits list.splits)
      moreover have "sy_conn s1 = sy_conn s" using m by (auto simp: read_msg_def set_queue_def split: if_splits list.splits)
      ultimately show ?thesis using e1 k(2) by (simp add: estranged_def set_coordinator_def Let_def)
    qed
    then show ?thesis using AcceptRead Responder m e1
      by (auto simp: coordinator_step_def accept_step_def estranged_abandon split: read_outcome.split msg.split)
  next
    case (AcceptDecide l h)
    then have "accept_request l h (sy_conn s Responder) = None" using k by (simp add: accept_request_def)
    then show ?thesis using AcceptDecide Responder estranged_abandon[OF e] by (simp add: coordinator_step_def accept_step_def)
  qed (use k e Responder in \<open>simp_all add: coordinator_step_def\<close>)
qed

lemma estranged_reader_step:
  assumes e: "estranged s"
  shows "estranged (reader_step a l v s)"
proof -
  have p: "cn_prepared (sy_conn s a) = None" using e by (cases a) (simp_all add: estranged_def Let_def)
  have sent: "estranged (snd (send_msg a l (MFrame f) v s))" for f
    using estranged_send[OF e] by (metis msg.distinct(1) prod.collapse)
  have got: "estranged (snd (read_msg a l v s))" using estranged_read[OF e] by (metis prod.collapse)
  have handled: "estranged (react a l (fst (on_frame l f (sy_conn s a))) (set_conn a (snd (on_frame l f (sy_conn s a))) s))" for f
    by (rule estranged_react, rule estranged_conn[OF e on_frame_idles[OF p]])
  show ?thesis
    using e sent got handled by (cases "sy_reader s a l")
      (auto simp: reader_step_def Let_def estranged_react estranged_fail estranged_terminate split_beta
        split: bool.split read_outcome.split msg.split option.split)
qed

lemma estranged_go_step:
  assumes e: "estranged s"
  shows "estranged (goroutine_step a n v s)"
proof -
  have sent: "estranged (snd (send_msg a l (MFrame f) v s))" for l f
    using estranged_send[OF e] by (metis msg.distinct(1) prod.collapse)
  have "estranged (snd (go_step a v g s))" for g
    using e sent estranged_conn[OF e write_idles(1)] estranged_conn[OF e write_idles(2)] estranged_conn[OF e write_idles(3)] by (cases g)
      (auto simp: go_step_def Let_def estranged_fail estranged_terminate split_beta split: loop_step.split option.split)
  then show ?thesis using e by (simp add: goroutine_step_def split_beta)
qed

lemma estranged_exec:
  assumes e: "estranged s"
  shows "estranged (sys_exec p s)"
proof (cases p)
  case (CallPrepare l r)
  have "estranged (set_coordinator Initiator (HelloWrite l h) (set_reader Initiator l Attaching s))"
    if "prepare_request r (sy_conn s Initiator) = Inr h" for h
  proof -
    have "hl_committed h = cn_committed (sy_conn s Initiator)" using that by (auto simp: prepare_request_def split: if_splits sum.splits)
    then show ?thesis using e by (simp add: estranged_def set_coordinator_def set_reader_def Let_def)
  qed
  then show ?thesis using CallPrepare e by (auto simp: call_prepare_def split: sum.split)
next
  case (CallAccept l)
  have "estranged (set_coordinator Responder (AcceptRead l) (set_reader Responder l Attaching s))"
    using e by (simp add: estranged_def set_coordinator_def set_reader_def Let_def)
  then show ?thesis using CallAccept e by (simp add: call_accept_def)
next
  case (CallPromote i n)
  then show ?thesis using e by (simp add: call_promote_def promote_begin_def estranged_def Let_def)
next
  case (CallDrop i)
  then show ?thesis using e by (simp add: call_drop_def drop_begin_def estranged_def Let_def)
next
  case (CallRead a n)
  then show ?thesis using e conn_Read_idles[of n "sy_conn s a"]
    by (auto simp: call_read_def split: prod.split read_result.split intro: estranged_conn)
next
  case (CallWrite a d)
  then show ?thesis using e conn_Write_idles[of d "sy_conn s a"]
    by (auto simp: call_write_def split: prod.split write_result.split intro: estranged_conn)
next
  case (CallClose a)
  then show ?thesis using e conn_Close_idles[of "sy_conn s a"]
    by (auto simp: call_close_def split: prod.split option.split intro: estranged_conn)
next
  case (ContextDone a)
  then show ?thesis using e watchContext_idles[of "sy_conn s a"] by (auto split: prod.split intro: estranged_conn)
next
  case (CallAbort a r)
  then show ?thesis using estranged_terminate[OF e, of a "if r then ErrReason else ErrClosed"] by (simp add: Abort_def terminate_def)
qed (use e in \<open>auto simp: estranged_coordinator_step estranged_reader_step estranged_go_step intro: estranged_conn write_idles\<close>)

interpretation estranged_run: machine sys_exec estranged "\<lambda>_. True"
  by unfold_locales (rule estranged_exec)


section \<open>A lost acknowledgement of a FIN\<close>

text \<open>
  The initiator ends its direction; the responder takes up the FIN, and the link fails before
  the acknowledgement of it arrives. Both ends notice.
\<close>

definition fin_ops :: "op list" where
  "fin_ops =
     attach_ops 0 (sample_id CHR ''1'') 1 @ replicate 2 (GoStep Initiator 1 Works) @ [CallCloseWrite Initiator] @ replicate 4 (GoStep Initiator 1 Works) @
     replicate 7 (ReadStep Responder 0 Works) @ [GoStep Responder 2 Breaks, GoStep Responder 2 Works, ReadStep Initiator 0 Breaks, ReadStep Initiator 0 Works]"

abbreviation unheard :: sys where
  "unheard \<equiv> fold sys_exec fin_ops sample_start"

text \<open>The responder has the FIN, and no acknowledgement of it is left on its way.\<close>

fun writes_finack :: "goroutine \<Rightarrow> bool" where
  "writes_finack (WriteData l f n) \<longleftrightarrow> fr_kind f = FINAck"
| "writes_finack (WriteFIN l f n) \<longleftrightarrow> fr_kind f = FINAck"
| "writes_finack (WriteAck l f) \<longleftrightarrow> fr_kind f = FINAck"
| "writes_finack (WriteFINAck l f) \<longleftrightarrow> fr_kind f = FINAck"
| "writes_finack _ \<longleftrightarrow> False"

definition unanswered :: "sys \<Rightarrow> bool" where
  "unanswered s \<longleftrightarrow>
     \<not> cn_finAcked (sy_conn s Initiator) \<and> cn_remoteFIN (sy_conn s Responder) \<and>
     (\<forall>g\<in>set (sy_go s Responder). \<not> writes_finack g) \<and>
     (\<forall>l. \<forall>f\<in>set (held (sy_reader s Initiator l)). fr_kind f \<noteq> FINAck) \<and>
     (\<forall>l f. MFrame f \<in> set (sy_queue s Initiator l) \<longrightarrow> fr_kind f \<noteq> FINAck)"

definition alive_alike :: "sys \<Rightarrow> bool" where
  "alive_alike s \<longleftrightarrow>
     (\<forall>a. \<not> stopped (sy_conn s a)) \<and> cn_committed (sy_conn s Initiator) = cn_committed (sy_conn s Responder) \<and> unanswered s"

lemma fin_run: "alive_alike unheard"
  by (simp add: fin_ops_def attach_ops_def replicate_numeral run_defs, simp add: alive_alike_def unanswered_def, metis side.exhaust)

lemma unanswered_quiet [simp]:
  "unanswered (set_coordinator a p s) = unanswered s" "unanswered (shut a l s) = unanswered s" "unanswered (break_link a l s) = unanswered s"
  "unanswered (s\<lparr>sy_panic := b\<rparr>) = unanswered s" "unanswered (s\<lparr>sy_read := r'\<rparr>) = unanswered s"
  "unanswered (s\<lparr>sy_eof := e'\<rparr>) = unanswered s" "unanswered (s\<lparr>sy_written := w'\<rparr>) = unanswered s"
  by (simp_all add: unanswered_def set_coordinator_def shut_def break_link_def)

lemma unanswered_reader:
  "unanswered s \<Longrightarrow> (a = Initiator \<Longrightarrow> \<forall>f\<in>set (held r). fr_kind f \<noteq> FINAck) \<Longrightarrow> unanswered (set_reader a l r s)"
  by (cases a) (auto simp: unanswered_def set_reader_def)

lemma unanswered_go:
  "unanswered s \<Longrightarrow> (a = Responder \<Longrightarrow> \<forall>g\<in>set gs. \<not> writes_finack g) \<Longrightarrow> unanswered (s\<lparr>sy_go := (sy_go s)(a := gs)\<rparr>)"
  by (cases a) (auto simp: unanswered_def)

lemma unanswered_spawn:
  assumes "unanswered s" and "a = Responder \<Longrightarrow> \<forall>g\<in>set gs. \<not> writes_finack g"
  shows "unanswered (spawn a gs s)"
  unfolding spawn_def by (rule unanswered_go[OF assms(1)]) (use assms in \<open>auto simp: unanswered_def\<close>)

definition keeps :: "conn \<Rightarrow> conn \<Rightarrow> bool" where
  "keeps c c' \<longleftrightarrow> (\<not> cn_finAcked c \<longrightarrow> \<not> cn_finAcked c') \<and> (cn_remoteFIN c \<longrightarrow> cn_remoteFIN c')"

lemma keeps_data: "data_of c' = data_of c \<Longrightarrow> keeps c c'"
  using data_ofD(6,10)[of c' c] by (simp add: keeps_def)

lemma unanswered_conn: "unanswered s \<Longrightarrow> keeps (sy_conn s a) c \<Longrightarrow> unanswered (set_conn a c s)"
  by (cases a) (auto simp: unanswered_def set_conn_def keeps_def)

lemma unanswered_arrive:
  "unanswered s \<Longrightarrow> (\<And>f. b = Initiator \<Longrightarrow> m = MFrame f \<Longrightarrow> fr_kind f \<noteq> FINAck) \<Longrightarrow>
     unanswered (set_queue b l (sy_queue s b l @ [m]) s)"
  by (cases b) (auto simp: unanswered_def set_queue_def)

lemma unanswered_send:
  assumes "unanswered s" and "\<And>f. a = Responder \<Longrightarrow> m = MFrame f \<Longrightarrow> fr_kind f \<noteq> FINAck"
  shows "unanswered (snd (send_msg a l m e s))"
proof -
  have "unanswered (set_queue (other a) l (sy_queue s (other a) l @ [m]) s)"
    by (rule unanswered_arrive[OF assms(1)]) (use assms(2) in \<open>cases a; auto\<close>)
  then show ?thesis using assms(1) by (auto simp: send_msg_def Let_def split: env.split)
qed

lemma unanswered_pop: "unanswered s \<Longrightarrow> sy_queue s a l = m # q \<Longrightarrow> unanswered (set_queue a l q s)"
  by (cases a) (simp_all add: unanswered_def set_queue_def, (metis list.set_intros(2)))

lemma unanswered_read: "unanswered s \<Longrightarrow> unanswered (snd (read_msg a l e s))"
  by (auto simp: read_msg_def unanswered_pop split: list.splits)

lemma unanswered_fail: "unanswered s \<Longrightarrow> unanswered (fail_carrier a l s)"
  using unanswered_conn[OF _ keeps_data[OF failCarrier_data[of l ErrLink "sy_conn s a"]]]
  by (auto simp: fail_carrier_def Let_def split_beta split: option.split intro!: unanswered_spawn)

lemma unanswered_terminate: "unanswered s \<Longrightarrow> unanswered (terminate a e s)"
  using unanswered_conn[OF _ keeps_data[OF failTerminal_data[of e "sy_conn s a"]]]
  by (auto simp: terminate_def split_beta intro!: unanswered_spawn)

lemma unanswered_abandon: "unanswered s \<Longrightarrow> unanswered (abandon a l s)"
  by (simp add: abandon_def unanswered_reader)

lemma unanswered_react:
  "unanswered s \<Longrightarrow> (\<And>n. a = Responder \<Longrightarrow> r \<noteq> AcknowledgeFIN n) \<Longrightarrow> unanswered (react a l r s)"
  by (cases r) (auto simp: react_def intro!: unanswered_spawn unanswered_reader)

text \<open>A frame other than an acknowledgement of a FIN, and a FIN that is already known.\<close>

lemma on_frame_keeps:
  assumes "fr_kind f \<noteq> FINAck"
  shows "keeps c (snd (on_frame l f c))"
proof -
  have d: "keeps c (c\<lparr>cn_recv := r, cn_recvNext := n\<rparr>)" "keeps c (discardAcked n c)" "keeps c (c\<lparr>cn_remoteFIN := True, cn_remoteFINAt := n\<rparr>)"
    "keeps c c" for r n
    by (simp_all add: keeps_def discardAcked_def)
  have k: "keeps c (activate l c)" "keeps c (offer q x (activate l c))" "keeps c (c\<lparr>cn_retained := None\<rparr>)" "keeps c (c\<lparr>cn_prepared := None\<rparr>)"
    "keeps c (offer q x (c\<lparr>cn_prepared := None, cn_discardWait := w\<rparr>))" for q x w
    by (rule keeps_data; simp add: data_same)+
  show ?thesis using assms d k
    by (cases "fr_kind f") (simp_all add: on_frame_def on_Data_def on_Ack_def on_FIN_def on_Reset_def on_Commit_def on_CommitAck_def on_Confirm_def
        on_Discard_def on_DiscardAck_def Let_def split: option.split)
qed

lemma on_FINAck_keeps: "fr_kind f = FINAck \<Longrightarrow> cn_remoteFIN (snd (on_frame l f c)) = cn_remoteFIN c"
  by (simp add: on_frame_def on_FINAck_def)

lemma known_FIN: "cn_remoteFIN c \<Longrightarrow> fst (on_frame l f c) \<noteq> AcknowledgeFIN n"
  by (cases "fr_kind f")
    (auto simp: on_frame_def on_Data_def on_Ack_def on_FIN_def on_FINAck_def on_Reset_def on_Commit_def on_CommitAck_def on_Confirm_def on_Discard_def
      on_DiscardAck_def Let_def split: option.split)

lemma unanswered_coordinator_step:
  assumes u: "unanswered s"
  shows "unanswered (coordinator_step a v s)"
proof -
  have sent: "unanswered (snd (send_msg a l (MHello h) v s))" "unanswered (snd (send_msg a l (MFrame (control Commit l c)) v s))"
    "unanswered (snd (send_msg a l (MFrame (control Discard l c)) v s))" for l h c
    by (rule unanswered_send[OF u]; auto)+
  have got: "unanswered (snd (read_msg a l v s))" for l by (rule unanswered_read[OF u])
  have kept: "unanswered (set_conn a c s)" if "keeps (sy_conn s a) c" for c by (rule unanswered_conn[OF u that])
  have recv: "unanswered (set_conn a c s)" if "receive j (sy_conn s a) = Some (r, c)" for j r c by (rule kept[OF keeps_data[OF receive_data[OF that]]])
  have ready: "unanswered (set_conn a c s)" if "prepare_ready l h h' (sy_conn s a) = Some c" for l h h' c
    by (rule kept) (use that in \<open>auto simp: prepare_ready_def keeps_def new_carrier_def discardAcked_def split: if_splits\<close>)
  have granted: "unanswered (set_conn a c s)" if "accept_request l h (sy_conn s a) = Some (old, h', c)" for l h old h' c
    by (rule kept, rule accept_request_cases[OF that]) (auto simp: keeps_def new_carrier_def discardAcked_def set_state_def)
  have finished: "unanswered (set_conn a c s)" if "accept_written l (sy_conn s a) = Some c" for l c
    by (rule kept[OF keeps_data[OF accept_written_data[OF that]]])
  note data = kept[OF keeps_data[OF promote_finish_data]] kept[OF keeps_data[OF accept_failed_data]]
  note quiet = unanswered_reader unanswered_abandon unanswered_fail unanswered_spawn
  show ?thesis
    using u sent got recv ready granted finished data
    by (cases "sy_coordinator s a")
      (auto simp: coordinator_step_def prepare_step_def promote_step_def drop_step_def accept_step_def close_old_def split_beta
        intro!: quiet split: bool.split read_outcome.split msg.split option.split)
qed

lemma unanswered_reader_step:
  assumes u: "unanswered s"
  shows "unanswered (reader_step a l v s)"
proof -
  have sent: "unanswered (snd (send_msg a l (MFrame (control CommitAck l c)) v s))" "unanswered (snd (send_msg a l (MFrame (control DiscardAck l c)) v s))" for c
    by (rule unanswered_send[OF u]; auto)+
  have got: "unanswered (snd (read_msg a l v s))" by (rule unanswered_read[OF u])
  have taken: "a = Initiator \<Longrightarrow> fr_kind f \<noteq> FINAck" if m: "fst (read_msg a l v s) = Read_msg (MFrame f)" for f
  proof -
    obtain q where "sy_queue s a l = MFrame f # q" using m by (auto simp: read_msg_def split: if_splits list.splits)
    then show "a = Initiator \<Longrightarrow> fr_kind f \<noteq> FINAck" using u unfolding unanswered_def by (metis list.set_intros(1))
  qed
  have holds: "a = Initiator \<Longrightarrow> fr_kind f \<noteq> FINAck" if "f \<in> set (held (sy_reader s a l))" for f
    using u that unfolding unanswered_def by blast
  have handled: "unanswered (react a l (fst (on_frame l f (sy_conn s a))) (set_conn a (snd (on_frame l f (sy_conn s a))) s))"
    if r: "sy_reader s a l = Applying f" for f
  proof (rule unanswered_react)
    show "unanswered (set_conn a (snd (on_frame l f (sy_conn s a))) s)"
    proof (cases "fr_kind f = FINAck")
      case False then show ?thesis by (intro unanswered_conn[OF u] on_frame_keeps)
    next
      case True
      then have a: "a = Responder" using holds[of f] r by (cases a) auto
      then show ?thesis using u on_FINAck_keeps[OF True, of l "sy_conn s Responder"] by (simp add: unanswered_def set_conn_def)
    qed
    show "a = Responder \<Longrightarrow> fst (on_frame l f (sy_conn s a)) \<noteq> AcknowledgeFIN n" for n
      using u known_FIN[of "sy_conn s a"] by (simp add: unanswered_def)
  qed
  have disposed: "unanswered (react a l r s)" if "dispose l k (sy_conn s a) = Some r" for k r
    by (rule unanswered_react[OF u]) (use that in \<open>auto simp: dispose_def split: disposition.splits kind.splits\<close>)
  note quiet = unanswered_reader unanswered_fail unanswered_terminate unanswered_spawn
  show ?thesis using u sent got taken holds handled disposed
    by (cases "sy_reader s a l")
      (auto simp: reader_step_def Let_def split_beta intro!: quiet split: bool.split read_outcome.split msg.split option.split)
qed

lemma unanswered_go_step:
  assumes u: "unanswered s"
  shows "unanswered (goroutine_step a n v s)"
proof (cases "n < length (sy_go s a)")
  case True
  let ?g = "sy_go s a ! n"
  have w: "a = Responder \<Longrightarrow> \<not> writes_finack ?g" using u True by (auto simp: unanswered_def)
  have kept: "unanswered (set_conn a c s)" if "data_of c = data_of (sy_conn s a)" for c by (rule unanswered_conn[OF u keeps_data[OF that]])
  note marks = kept[OF fin_written_data] kept[OF ack_written_data] kept[OF confirm_written_data]
  have sent: "unanswered (snd (send_msg a l (MFrame f) v s))" if "a = Responder \<Longrightarrow> fr_kind f \<noteq> FINAck" for l f
    by (rule unanswered_send[OF u]) (use that in auto)
  have frames: "unanswered (snd (send_msg a l (MFrame f) v s))"
    if "?g = WriteData l f m \<or> ?g = WriteFIN l f m \<or> ?g = WriteAck l f \<or> ?g = WriteFINAck l f" for l f m
    by (rule sent) (use w that in auto)
  have controls: "unanswered (snd (send_msg a l (MFrame (control Confirm l c)) v s))"
    "unanswered (snd (send_msg a l (MFrame \<lparr>fr_kind = Reset, fr_seq = 0, fr_payload = []\<rparr>) v s))" for l c
    by (rule sent; simp)+
  have 1: "unanswered (snd (go_step a v ?g s))"
    using u frames controls marks unanswered_fail[OF u] unanswered_terminate[OF u]
    by (cases ?g) (auto simp: go_step_def Let_def split_beta split: loop_step.split option.split)
  have 2: "a = Responder \<Longrightarrow> \<not> writes_finack g" if "g \<in> set (fst (go_step a v ?g s))" for g
    using that w by (cases ?g)
      (auto simp: go_step_def Let_def split_beta ack_due_def close_old_def writeActive_def split: loop_step.splits option.splits if_splits)
  have 3: "a = Responder \<Longrightarrow> \<not> writes_finack g"
    if "g \<in> set (take n (sy_go (snd (go_step a v ?g s)) a)) \<or> g \<in> set (drop (Suc n) (sy_go (snd (go_step a v ?g s)) a))" for g
    using 1 that unfolding unanswered_def by (metis in_set_takeD in_set_dropD)
  show ?thesis using True 1 2 3 by (auto simp: goroutine_step_def split_beta intro!: unanswered_go)
qed (simp add: goroutine_step_def u)

lemma conn_Read_keeps: "conn_Read n c = (r, c') \<Longrightarrow> keeps c c'"
  by (erule conn_Read_cases) (simp_all add: keeps_def after_read_def)

lemma conn_Write_keeps: "conn_Write d c = (r, c') \<Longrightarrow> keeps c c'"
  by (erule conn_Write_cases) (simp_all add: keeps_def after_write_def)

lemma unanswered_exec:
  assumes u: "unanswered s"
  shows "unanswered (sys_exec p s)"
proof -
  have kept: "unanswered (set_conn a c s)" if "data_of c = data_of (sy_conn s a)" for a c by (rule unanswered_conn[OF u keeps_data[OF that]])
  have read: "unanswered (set_conn a (snd (conn_Read n (sy_conn s a))) s)" for a n
    by (rule unanswered_conn[OF u conn_Read_keeps[OF prod.collapse[symmetric]]])
  have wrote: "unanswered (set_conn a (snd (conn_Write d (sy_conn s a))) s)" for a d
    by (rule unanswered_conn[OF u conn_Write_keeps[OF prod.collapse[symmetric]]])
  have closed: "unanswered (set_conn a (snd (CloseWrite (sy_conn s a))) s)" for a
    by (rule unanswered_conn[OF u]) (simp add: keeps_def CloseWrite_def)
  note ends = kept[OF conn_Close_data] kept[OF watchContext_data] kept[OF Abort_data] kept[OF promote_begin_data] kept[OF drop_begin_data]
  show ?thesis using u read wrote closed ends
    by (cases p) (auto simp: unanswered_coordinator_step unanswered_reader_step unanswered_go_step call_read_def call_write_def call_close_def
        call_prepare_def call_accept_def call_promote_def call_drop_def split_beta
        intro!: unanswered_spawn unanswered_reader split: read_result.split write_result.split option.split sum.split)
qed

interpretation unanswered_run: machine sys_exec unanswered "\<lambda>_. True"
  by unfold_locales (rule unanswered_exec)

text \<open>
  C26. An acknowledgement of a FIN that is lost with its link is never sent again: the responder
  ignores the FIN that the initiator repeats on the next carrier. So \<^verbatim>\<open>WaitWriteClosed\<close> of the
  initiator never succeeds, whatever carriers the two ends attach, although neither end has
  failed and both agree on the committed epoch.
\<close>

theorem lost_fin_ack_is_final:
  "(\<forall>a. \<not> cn_closed (sy_conn unheard a) \<and> cn_terminal (sy_conn unheard a) = None) \<and> cn_committed (sy_conn unheard Initiator) = cn_committed (sy_conn unheard Responder) \<and>
   (\<forall>ops. WaitWriteClosed (sy_conn (fold sys_exec ops unheard) Initiator) \<noteq> Some None)"
proof -
  have "unanswered unheard" using fin_run by (simp add: alive_alike_def)
  then have "unanswered (fold sys_exec ops unheard)" for ops by (rule unanswered_run.run) (simp add: list_all_iff)
  then have "WaitWriteClosed (sy_conn (fold sys_exec ops unheard) Initiator) \<noteq> Some None" for ops
    by (simp add: unanswered_def WaitWriteClosed_def)
  then show ?thesis using fin_run by (simp add: alive_alike_def)
qed

end
