(* ===== verification/Operation_Store.thy ===== *)
theory Operation_Store
  imports Prelude
begin

text \<open>
  The table of idempotent operations, \<^verbatim>\<open>operation_results\<close> of
  \<^verbatim>\<open>internal/hostruntime/store/schema.sql\<close> with its operations in \<^verbatim>\<open>store.go\<close>. A statement
  takes effect as a whole or not at all. What the database answers is an argument: besides
  success it may be busy, may refuse the statement, or may apply it and still report an error
  because the answer came too late. Times are nanoseconds, as the columns have them.
\<close>

section \<open>Rows\<close>

record op_row =
  op_id :: string
  op_hash :: bytes
  op_state :: string
  op_result :: bytes
  op_error :: string
  op_completed :: "int option"
  op_expires :: int

type_synonym op_table = "(string \<times> op_row) list"

datatype operation_error = ErrRowConflict | ErrResultTooLarge | ErrNoRows | ErrStatement | ErrStoreContext

datatype answer = Fine | Busy | Refused | Late

record op_outcome =
  oc_result :: bytes
  oc_error :: string

text \<open>
  The database keeps a log of what took effect: rows inserted, updated and deleted (with the
  time the deletion was for). The journal of operations adds when it started an operation,
  what the operation returned and what a caller was told, so that the log orders all of these.
\<close>

datatype op_event =
    Inserted op_row
  | Updated op_row
  | Purged op_row int
  | Ran string bytes int
  | Ended string bytes op_outcome
  | Replied string bytes op_outcome bool

record op_db =
  db_rows :: op_table
  db_log :: "op_event list"

definition note_event :: "op_event \<Rightarrow> op_db \<Rightarrow> op_db" where
  "note_event e db = db\<lparr>db_log := db_log db @ [e]\<rparr>"

definition MaxOperationResultBytes :: nat where
  "MaxOperationResultBytes = 64 * 1024"

definition pending_row :: "string \<Rightarrow> bytes \<Rightarrow> int \<Rightarrow> op_row" where
  "pending_row i hash expires =
     \<lparr>op_id = i, op_hash = hash, op_state = ''pending'', op_result = [], op_error = [],
      op_completed = None, op_expires = expires\<rparr>"

section \<open>Reserving and completing\<close>

definition put_pending :: "op_row \<Rightarrow> op_db \<Rightarrow> op_db" where
  "put_pending row db = note_event (Inserted row) (db\<lparr>db_rows := AList.update (op_id row) row (db_rows db)\<rparr>)"

definition ReserveOperation ::
  "answer \<Rightarrow> bool \<Rightarrow> string \<Rightarrow> bytes \<Rightarrow> int \<Rightarrow> op_db \<Rightarrow> (operation_error + op_row \<times> bool) \<times> op_db" where
  "ReserveOperation ins fault i hash expires db =
     (case map_of (db_rows db) i of
        None \<Rightarrow>
          (let row = pending_row i hash expires
           in case ins of
                Fine \<Rightarrow> (Inr (row, True), put_pending row db)
              | Late \<Rightarrow> (Inl ErrStatement, put_pending row db)
              | _ \<Rightarrow> (Inl ErrStatement, db))
      | Some existing \<Rightarrow>
          if ins \<noteq> Fine \<or> fault then (Inl ErrStatement, db)
          else if op_hash existing \<noteq> hash then (Inl ErrRowConflict, db)
          else (Inr (existing, False), db))"

text \<open>
  One attempt of \<^verbatim>\<open>CompleteOperation\<close> is an update of a pending row with the same request and,
  when no row changed, a look at the row that is there.
\<close>

datatype verdict = Over "operation_error option" | Look | Retry

definition awaits :: "op_row \<Rightarrow> op_db \<Rightarrow> bool" where
  "awaits oper db \<longleftrightarrow>
     (case map_of (db_rows db) (op_id oper) of
        None \<Rightarrow> False
      | Some row \<Rightarrow> op_hash row = op_hash oper \<and> op_state row = ''pending'')"

definition set_completed :: "op_row \<Rightarrow> op_db \<Rightarrow> op_db" where
  "set_completed oper db =
     (if awaits oper db
      then (let row = oper\<lparr>op_state := ''completed''\<rparr>
            in note_event (Updated row) (db\<lparr>db_rows := AList.update (op_id oper) row (db_rows db)\<rparr>))
      else db)"

definition complete_update :: "answer \<Rightarrow> op_row \<Rightarrow> op_db \<Rightarrow> verdict \<times> op_db" where
  "complete_update update oper db =
     (case update of
        Busy \<Rightarrow> (Retry, db)
      | Refused \<Rightarrow> (Over (Some ErrStatement), db)
      | Late \<Rightarrow> (Over (Some ErrStatement), set_completed oper db)
      | Fine \<Rightarrow> (if awaits oper db then Over None else Look, set_completed oper db))"

definition complete_look :: "bool \<Rightarrow> op_row \<Rightarrow> op_db \<Rightarrow> verdict" where
  "complete_look fault oper db =
     (if fault then Over (Some ErrStatement)
      else case map_of (db_rows db) (op_id oper) of
        None \<Rightarrow> Over (Some ErrNoRows)
      | Some existing \<Rightarrow>
          if op_hash existing \<noteq> op_hash oper then Over (Some ErrRowConflict)
          else if op_state existing = ''completed''
          then Over (if op_result existing = op_result oper \<and> op_error existing = op_error oper
                     then None else Some ErrRowConflict)
          else Retry)"

text \<open>
  The loop over the attempts. \<open>answers k\<close> gives what happens when \<open>k\<close> attempts are left after
  this one: the answers of the two statements and whether the context ends during the pause.
\<close>

definition complete_attempts :: nat where
  "complete_attempts = 20"

primrec complete_loop ::
  "nat \<Rightarrow> (nat \<Rightarrow> answer \<times> bool \<times> bool) \<Rightarrow> op_row \<Rightarrow> op_db \<Rightarrow> operation_error option \<times> op_db" where
  "complete_loop 0 answers oper db = (Some ErrRowConflict, db)"
| "complete_loop (Suc k) answers oper db =
     (case answers k of (update, fault, canceled) \<Rightarrow>
        (case complete_update update oper db of
           (Over e, db') \<Rightarrow> (e, db')
         | (Retry, db') \<Rightarrow>
             if k = 0 then (Some ErrStatement, db')
             else if canceled then (Some ErrStoreContext, db')
             else complete_loop k answers oper db'
         | (Look, db') \<Rightarrow>
             (case complete_look fault oper db' of
                Over e \<Rightarrow> (e, db')
              | _ \<Rightarrow> if k \<noteq> 0 \<and> canceled then (Some ErrStoreContext, db')
                     else complete_loop k answers oper db')))"

definition CompleteOperation ::
  "(nat \<Rightarrow> answer \<times> bool \<times> bool) \<Rightarrow> op_row \<Rightarrow> op_db \<Rightarrow> operation_error option \<times> op_db" where
  "CompleteOperation answers oper db =
     (if MaxOperationResultBytes < length (op_result oper) then (Some ErrResultTooLarge, db)
      else complete_loop complete_attempts answers oper db)"

definition PutOperation ::
  "answer \<Rightarrow> bool \<Rightarrow> (nat \<Rightarrow> answer \<times> bool \<times> bool) \<Rightarrow> op_row \<Rightarrow> op_db \<Rightarrow> operation_error option \<times> op_db" where
  "PutOperation ins fault answers oper db =
     (case ReserveOperation ins fault (op_id oper) (op_hash oper) (op_expires oper) db of
        (Inl e, db') \<Rightarrow> (Some e, db')
      | (Inr _, db') \<Rightarrow> CompleteOperation answers oper db')"

section \<open>Expiry and listing\<close>

definition delete_expired :: "int \<Rightarrow> op_db \<Rightarrow> op_db" where
  "delete_expired now db =
     db\<lparr>db_rows := filter (\<lambda>(i, row). \<not> op_expires row \<le> now) (db_rows db),
        db_log := db_log db @ map (\<lambda>(i, row). Purged row now) (filter (\<lambda>(i, row). op_expires row \<le> now) (db_rows db))\<rparr>"

definition DeleteExpiredOperations :: "answer \<Rightarrow> int \<Rightarrow> op_db \<Rightarrow> operation_error option \<times> op_db" where
  "DeleteExpiredOperations delete now db =
     (if delete = Fine then None else Some ErrStatement,
      if delete = Fine \<or> delete = Late then delete_expired now db else db)"

text \<open>\<^verbatim>\<open>LIKE\<close> of SQLite with \<^verbatim>\<open>ESCAPE '\'\<close>: ASCII letters match in either case.\<close>

definition lower_ascii :: "char \<Rightarrow> char" where
  "lower_ascii ch = (if between CHR ''A'' CHR ''Z'' ch then char_of (of_char ch + 32 :: nat) else ch)"

fun sql_like :: "string \<Rightarrow> string \<Rightarrow> bool" where
  "sql_like [] s \<longleftrightarrow> s = []"
| "sql_like (ch # p) s \<longleftrightarrow>
     (if ch = CHR 0x5C
      then (case p of [] \<Rightarrow> False
            | d # p' \<Rightarrow> (case s of [] \<Rightarrow> False | x # s' \<Rightarrow> lower_ascii d = lower_ascii x \<and> sql_like p' s'))
      else if ch = CHR ''%'' then list_ex (\<lambda>n. sql_like p (drop n s)) [0..<Suc (length s)]
      else (case s of [] \<Rightarrow> False
            | x # s' \<Rightarrow> (ch = CHR ''_'' \<or> lower_ascii ch = lower_ascii x) \<and> sql_like p s'))"

text \<open>\<^verbatim>\<open>strings.ReplaceAll\<close> of a one-character string.\<close>

definition replace_char :: "char \<Rightarrow> string \<Rightarrow> string \<Rightarrow> string" where
  "replace_char old new s = concat (map (\<lambda>ch. if ch = old then new else [ch]) s)"

definition escapeLike :: "string \<Rightarrow> string" where
  "escapeLike value =
     replace_char CHR ''_'' [CHR 0x5C, CHR ''_'']
       (replace_char CHR ''%'' [CHR 0x5C, CHR ''%''] (replace_char CHR 0x5C [CHR 0x5C, CHR 0x5C] value))"

text \<open>Pending rows come first, then the completed ones from the oldest; a missing time sorts first.\<close>

definition listing_key :: "op_row \<Rightarrow> nat \<times> nat \<times> int" where
  "listing_key row =
     (if op_state row = ''pending'' then 0 else 1,
      case op_completed row of None \<Rightarrow> (0, 0) | Some t \<Rightarrow> (1, t))"

definition operationsByPrefix ::
  "answer \<Rightarrow> bool \<Rightarrow> string \<Rightarrow> bool \<Rightarrow> int \<Rightarrow> nat \<Rightarrow> op_db \<Rightarrow> (operation_error + op_row list) \<times> op_db" where
  "operationsByPrefix delete fault pre exclude now limit db =
     (if pre = [] \<or> limit < 1 \<or> 2 ^ 20 < limit then (Inl ErrRowConflict, db)
      else case DeleteExpiredOperations delete now db of
        (Some e, db') \<Rightarrow> (Inl e, db')
      | (None, db') \<Rightarrow>
          if fault then (Inl ErrStatement, db')
          else (Inr (take limit (sort_key listing_key
                  (filter (\<lambda>row. sql_like (escapeLike pre @ ''%'') (op_id row) \<noteq> exclude) (map snd (db_rows db'))))), db'))"

definition OperationsWithPrefix ::
  "answer \<Rightarrow> bool \<Rightarrow> string \<Rightarrow> int \<Rightarrow> nat \<Rightarrow> op_db \<Rightarrow> (operation_error + op_row list) \<times> op_db" where
  "OperationsWithPrefix delete fault pre now limit db = operationsByPrefix delete fault pre False now limit db"

definition OperationsExcludingPrefix ::
  "answer \<Rightarrow> bool \<Rightarrow> string \<Rightarrow> int \<Rightarrow> nat \<Rightarrow> op_db \<Rightarrow> (operation_error + op_row list) \<times> op_db" where
  "OperationsExcludingPrefix delete fault pre now limit db = operationsByPrefix delete fault pre True now limit db"

definition reset_oversized :: "op_row \<Rightarrow> op_row" where
  "reset_oversized row =
     (if MaxOperationResultBytes < length (op_result row)
      then row\<lparr>op_state := ''pending'', op_result := [], op_error := [], op_completed := None\<rparr> else row)"

definition Operations ::
  "answer \<Rightarrow> answer \<Rightarrow> bool \<Rightarrow> int \<Rightarrow> nat \<Rightarrow> op_db \<Rightarrow> (operation_error + op_row list) \<times> op_db" where
  "Operations delete reset fault now limit db =
     (if limit < 1 then (Inl ErrRowConflict, db)
      else case DeleteExpiredOperations delete now db of
        (Some e, db') \<Rightarrow> (Inl e, db')
      | (None, db') \<Rightarrow>
          (let db'' = db'\<lparr>db_rows := map (\<lambda>(i, row). (i, reset_oversized row)) (db_rows db'),
                         db_log := db_log db' @ map (\<lambda>(i, row). Updated (reset_oversized row))
                                    (filter (\<lambda>(i, row). reset_oversized row \<noteq> row) (db_rows db'))\<rparr>
           in if reset \<noteq> Fine then (Inl ErrStatement, if reset = Late then db'' else db')
              else if fault then (Inl ErrStatement, db'')
              else (Inr (take limit (sort_key listing_key (map snd (db_rows db'')))), db'')))"

section \<open>What the log says\<close>

text \<open>The rows that the log leaves behind.\<close>

fun row_after :: "op_event \<Rightarrow> (string \<Rightarrow> op_row option) \<Rightarrow> string \<Rightarrow> op_row option" where
  "row_after (Inserted row) m = m(op_id row := Some row)"
| "row_after (Updated row) m = m(op_id row := Some row)"
| "row_after (Purged row now) m = m(op_id row := None)"
| "row_after _ m = m"

definition row_of :: "op_event list \<Rightarrow> string \<Rightarrow> op_row option" where
  "row_of log = fold row_after log (\<lambda>_. None)"

text \<open>
  What each event says about those before it. Identifiers in the name space of the exec manager
  have rows of their own origin, so the answers read from them are not judged here.
\<close>

definition persistencePrefix :: string where
  "persistencePrefix = ''exec:''"

fun event_ok :: "op_event list \<Rightarrow> op_event \<Rightarrow> bool" where
  "event_ok xs (Inserted row) \<longleftrightarrow> row_of xs (op_id row) = None"
| "event_ok xs (Updated row) \<longleftrightarrow> row_of xs (op_id row) \<noteq> None"
| "event_ok xs (Purged row now) \<longleftrightarrow> row_of xs (op_id row) = Some row \<and> op_expires row \<le> now"
| "event_ok xs (Ran i hash expires) \<longleftrightarrow> (\<exists>ys. xs = ys @ [Inserted (pending_row i hash expires)])"
| "event_ok xs (Ended i hash oc) \<longleftrightarrow> (\<exists>expires. Ran i hash expires \<in> set xs)"
| "event_ok xs (Replied i hash oc replay) \<longleftrightarrow> prefix persistencePrefix i \<or> Ended i hash oc \<in> set xs"

definition log_ok :: "op_event list \<Rightarrow> bool" where
  "log_ok log \<longleftrightarrow> (\<forall>xs e ys. log = xs @ e # ys \<longrightarrow> event_ok xs e)"

lemma log_ok_Nil [simp]: "log_ok []"
  by (simp add: log_ok_def)

lemma log_ok_snoc [simp]: "log_ok (xs @ [e]) \<longleftrightarrow> log_ok xs \<and> event_ok xs e"
proof
  assume ok: "log_ok (xs @ [e])"
  then have "event_ok xs e" by (auto simp: log_ok_def)
  moreover have "event_ok us f" if "xs = us @ f # vs" for us f vs
    using ok that unfolding log_ok_def by (metis append.assoc append_Cons)
  ultimately show "log_ok xs \<and> event_ok xs e" by (simp add: log_ok_def)
next
  assume ok: "log_ok xs \<and> event_ok xs e"
  have "event_ok us f" if "xs @ [e] = us @ f # vs" for us f vs
    using that ok by (cases vs rule: rev_cases) (auto simp: log_ok_def)
  then show "log_ok (xs @ [e])" by (simp add: log_ok_def)
qed

lemma row_of_snoc [simp]: "row_of (xs @ [e]) = row_after e (row_of xs)"
  by (simp add: row_of_def)

lemma row_of_Nil [simp]: "row_of [] = (\<lambda>_. None)"
  by (simp add: row_of_def)

text \<open>A row that is there stays there, perhaps updated, until it is deleted.\<close>

lemma row_stays:
  assumes "row_of xs i = Some row" and "log_ok (xs @ ys)" and "\<And>r now. Purged r now \<in> set ys \<Longrightarrow> op_id r \<noteq> i"
  shows "\<exists>r. row_of (xs @ ys) i = Some r \<and> (r = row \<or> Updated r \<in> set ys)"
  using assms(2,3)
proof (induction ys rule: rev_induct)
  case (snoc e ys)
  have ok: "log_ok (xs @ ys)" "event_ok (xs @ ys) e" using snoc.prems(1) by (simp_all flip: append_assoc)
  obtain r where r: "row_of (xs @ ys) i = Some r" "r = row \<or> Updated r \<in> set ys"
    using snoc.IH[OF ok(1)] snoc.prems(2) by auto
  have "row_of (xs @ ys @ [e]) = row_after e (row_of (xs @ ys))" by (simp flip: append_assoc)
  with r ok(2) snoc.prems(2) show ?case by (cases e) auto
qed (use assms(1) in simp)

lemma log_okD: "log_ok log \<Longrightarrow> log = xs @ e # ys \<Longrightarrow> event_ok xs e"
  by (simp add: log_ok_def)

lemma log_ok_prefix: "log_ok log \<Longrightarrow> log = xs @ ys \<Longrightarrow> log_ok xs"
  by (auto simp: log_ok_def)

text \<open>
  An operation that ran is not started again until its row has been deleted, which happens
  only at a time not before the one the row was kept for: the row of the reservation, or what
  it was updated to.
\<close>

lemma runs_apart:
  assumes ok: "log_ok log" and log: "log = xs @ Ran i hash expires # ys @ Ran i hash' expires' # zs"
  shows "\<exists>row now. Purged row now \<in> set ys \<and> op_id row = i \<and> op_expires row \<le> now \<and>
    (row = pending_row i hash expires \<or> Updated row \<in> set ys)"
proof -
  let ?ran = "Ran i hash expires" and ?row = "pending_row i hash expires" and ?ins' = "Inserted (pending_row i hash' expires')"
  let ?pre = "xs @ [?ran]"
  obtain us where us: "xs = us @ [Inserted ?row]" using log_okD[OF ok log] by auto
  have "event_ok (xs @ ?ran # ys) (Ran i hash' expires')" by (rule log_okD[OF ok]) (simp add: log)
  then obtain vs where "xs @ ?ran # ys = vs @ [?ins']" by auto
  then obtain ws where ws: "ys = ws @ [?ins']" by (cases ys rule: rev_cases) auto
  have "event_ok (?pre @ ws) ?ins'" by (rule log_okD[OF ok]) (simp add: log ws)
  then have none: "row_of (?pre @ ws) i = None" by (simp add: pending_row_def del: append_assoc)
  have row: "row_of ?pre i = Some ?row" by (simp only: us row_of_snoc) (simp add: pending_row_def)
  have pre_ok: "log_ok (?pre @ ps)" if "ws = ps @ qs" for ps qs
    using ok by (rule log_ok_prefix) (simp add: log ws that)
  have "\<exists>p\<in>set ws. \<exists>r now. p = Purged r now \<and> op_id r = i"
    using row_stays[OF row pre_ok[of ws "[]"]] none by auto
  then obtain ps r now qs where s: "ws = ps @ Purged r now # qs" "op_id r = i"
      and first: "\<forall>p\<in>set ps. \<not> (\<exists>r now. p = Purged r now \<and> op_id r = i)"
    by (elim split_list_first_propE) blast
  have "event_ok (?pre @ ps) (Purged r now)" by (rule log_okD[OF ok]) (simp add: log ws s)
  moreover have "\<exists>r'. row_of (?pre @ ps) i = Some r' \<and> (r' = ?row \<or> Updated r' \<in> set ps)"
    by (rule row_stays[OF row pre_ok[OF s(1)]]) (use first in blast)
  ultimately show ?thesis using s by (auto simp: ws)
qed

section \<open>Every statement keeps the log true\<close>

definition db_ok :: "op_db \<Rightarrow> bool" where
  "db_ok db \<longleftrightarrow>
     log_ok (db_log db) \<and> map_of (db_rows db) = row_of (db_log db) \<and> distinct (map fst (db_rows db)) \<and>
     (\<forall>i row. map_of (db_rows db) i = Some row \<longrightarrow> op_id row = i)"

lemma db_okD:
  assumes "db_ok db"
  shows "log_ok (db_log db)" and "map_of (db_rows db) = row_of (db_log db)" and "distinct (map fst (db_rows db))"
    and "map_of (db_rows db) i = Some row \<Longrightarrow> op_id row = i"
  using assms unfolding db_ok_def by blast+

lemma db_ok_note:
  assumes "db_ok db" and "event_ok (db_log db) e" and "row_after e (row_of (db_log db)) = row_of (db_log db)"
  shows "db_ok (note_event e db)"
  using assms by (simp add: db_ok_def note_event_def)

lemma db_ok_set:
  assumes "db_ok db" and "event_ok (db_log db) e" and "row_after e (row_of (db_log db)) = (row_of (db_log db))(op_id row := Some row)"
  shows "db_ok (note_event e (db\<lparr>db_rows := AList.update (op_id row) row (db_rows db)\<rparr>))"
  using assms by (auto simp: db_ok_def note_event_def update_conv' distinct_update)

lemma put_pending_ok: "db_ok db \<Longrightarrow> map_of (db_rows db) (op_id row) = None \<Longrightarrow> db_ok (put_pending row db)"
  unfolding put_pending_def by (rule db_ok_set) (simp_all add: db_okD(2))

lemma set_completed_ok: "db_ok db \<Longrightarrow> db_ok (set_completed oper db)"
proof (cases "awaits oper db")
  case True
  assume db: "db_ok db"
  let ?row = "oper\<lparr>op_state := ''completed''\<rparr>"
  have "row_of (db_log db) (op_id oper) \<noteq> None" using True db by (auto simp: awaits_def db_okD(2) split: option.splits)
  then have "db_ok (note_event (Updated ?row) (db\<lparr>db_rows := AList.update (op_id ?row) ?row (db_rows db)\<rparr>))"
    by (intro db_ok_set[OF db]) simp_all
  then show ?thesis using True by (simp add: set_completed_def Let_def)
qed (simp add: set_completed_def)

lemma map_of_filter_rows:
  "distinct (map fst xs) \<Longrightarrow>
     map_of (filter (\<lambda>(i, row). P row) xs) i = (case map_of xs i of Some row \<Rightarrow> if P row then Some row else None | None \<Rightarrow> None)"
  by (induction xs) (auto split: option.splits simp: rev_image_eqI map_of_eq_None_iff dest: map_of_SomeD)

lemma purge_rows:
  assumes "log_ok log" and "distinct (map fst rows)" and "list_all (\<lambda>(i, row). op_id row = i \<and> op_expires row \<le> now) rows"
    and "\<And>i row. (i, row) \<in> set rows \<Longrightarrow> row_of log i = Some row"
  shows "log_ok (log @ map (\<lambda>(i, row). Purged row now) rows) \<and>
    row_of (log @ map (\<lambda>(i, row). Purged row now) rows) = (\<lambda>i. if i \<in> fst ` set rows then None else row_of log i)"
  using assms(2-4)
proof (induction rows rule: rev_induct)
  case (snoc x rows)
  obtain i row where x: "x = (i, row)" by force
  have i: "i \<notin> fst ` set rows" "op_id row = i" "op_expires row \<le> now" "row_of log i = Some row"
    using snoc.prems by (auto simp: x)
  have IH: "log_ok (log @ map (\<lambda>(i, row). Purged row now) rows)"
    "row_of (log @ map (\<lambda>(i, row). Purged row now) rows) = (\<lambda>i. if i \<in> fst ` set rows then None else row_of log i)"
    using snoc by auto
  have "log_ok ((log @ map (\<lambda>(i, row). Purged row now) rows) @ [Purged row now])"
    "row_of ((log @ map (\<lambda>(i, row). Purged row now) rows) @ [Purged row now]) = (\<lambda>j. if j \<in> fst ` set (rows @ [x]) then None else row_of log j)"
    using IH i by (auto simp: x simp del: append_assoc)
  then show ?case by (simp add: x)
qed (use assms(1) in simp)

lemma delete_expired_ok:
  assumes db: "db_ok db"
  shows "db_ok (delete_expired now db)"
proof -
  let ?old = "filter (\<lambda>(i, row). op_expires row \<le> now) (db_rows db)"
  note d = db_okD[OF db]
  have old: "row_of (db_log db) i = Some row \<and> op_id row = i" if "(i, row) \<in> set ?old" for i row
    using that d(2-4) by (metis filter_is_subset in_mono map_of_is_SomeI)
  have "log_ok (db_log db @ map (\<lambda>(i, row). Purged row now) ?old) \<and>
    row_of (db_log db @ map (\<lambda>(i, row). Purged row now) ?old) = (\<lambda>i. if i \<in> fst ` set ?old then None else row_of (db_log db) i)"
    by (rule purge_rows) (use d(1,3) old in \<open>auto simp: list_all_iff distinct_map_filter\<close>)
  then have log: "log_ok (db_log (delete_expired now db))"
    and row: "row_of (db_log (delete_expired now db)) i = (if i \<in> fst ` set ?old then None else row_of (db_log db) i)" for i
    by (simp_all add: delete_expired_def)
  have key: "i \<in> fst ` set ?old \<longleftrightarrow> (\<exists>row. map_of (db_rows db) i = Some row \<and> op_expires row \<le> now)" for i
    by (force simp: map_of_eq_Some_iff[OF d(3)])
  have rows: "map_of (db_rows (delete_expired now db)) i =
      (case map_of (db_rows db) i of Some row \<Rightarrow> if \<not> op_expires row \<le> now then Some row else None | None \<Rightarrow> None)" for i
    unfolding delete_expired_def by (simp add: map_of_filter_rows[OF d(3), of "\<lambda>row. \<not> op_expires row \<le> now", simplified])
  have same: "map_of (db_rows (delete_expired now db)) i = row_of (db_log (delete_expired now db)) i" for i
    unfolding rows row key d(2)[symmetric] by (simp split: option.split)
  have "op_id row = i" if "map_of (db_rows (delete_expired now db)) i = Some row" for i row
    using that d(4)[of i row] unfolding rows by (simp split: option.splits if_splits)
  with log same show ?thesis unfolding db_ok_def
    by (auto simp: delete_expired_def distinct_map_filter d(3))
qed

lemma DeleteExpiredOperations_ok: "db_ok db \<Longrightarrow> db_ok (snd (DeleteExpiredOperations delete now db))"
  by (simp add: DeleteExpiredOperations_def delete_expired_ok)

lemma ReserveOperation_ok: "db_ok db \<Longrightarrow> db_ok (snd (ReserveOperation ins fault i hash expires db))"
  by (auto simp: ReserveOperation_def Let_def pending_row_def put_pending_ok split: option.split answer.split)

lemma complete_update_ok: "db_ok db \<Longrightarrow> db_ok (snd (complete_update update oper db))"
  by (auto simp: complete_update_def set_completed_ok split: answer.split)

lemma complete_loop_ok: "db_ok db \<Longrightarrow> db_ok (snd (complete_loop k answers oper db))"
proof (induction k arbitrary: db)
  case (Suc k)
  obtain update fault canceled where a: "answers k = (update, fault, canceled)" by (cases "answers k") auto
  obtain v db' where u: "complete_update update oper db = (v, db')" by fastforce
  have "db_ok db'" using complete_update_ok[OF Suc.prems, of update oper] by (simp add: u)
  then show ?case using Suc.IH[of db'] by (auto simp: a u split: verdict.split)
qed simp

lemma CompleteOperation_ok: "db_ok db \<Longrightarrow> db_ok (snd (CompleteOperation answers oper db))"
  by (simp add: CompleteOperation_def complete_loop_ok)

lemma operationsByPrefix_ok: "db_ok db \<Longrightarrow> db_ok (snd (operationsByPrefix delete fault pre exclude now limit db))"
  using DeleteExpiredOperations_ok[of db delete now]
  by (auto simp: operationsByPrefix_def split: prod.split option.split)

lemmas op_statements_ok =
  DeleteExpiredOperations_ok ReserveOperation_ok complete_update_ok CompleteOperation_ok operationsByPrefix_ok

section \<open>Prefixes in the database\<close>

text \<open>The escaped prefix matches literally, but for the case of ASCII letters.\<close>

lemma like_any: "sql_like ''%'' s"
  by (auto simp: list_ex_iff intro!: bexI[of _ "length s"])

lemma escapeLike_Cons:
  "escapeLike (ch # p) = (if ch = CHR 0x5C \<or> ch = CHR ''%'' \<or> ch = CHR ''_'' then [CHR 0x5C, ch] else [ch]) @ escapeLike p"
  by (simp add: escapeLike_def replace_char_def)

lemma like_prefix:
  "sql_like (escapeLike p @ ''%'') s \<longleftrightarrow> prefix (map lower_ascii p) (map lower_ascii s)"
proof (induction p arbitrary: s)
  case Nil
  show ?case using like_any[of s] by (simp add: escapeLike_def replace_char_def)
next
  case (Cons ch p)
  show ?case by (cases s) (auto simp: escapeLike_Cons Cons.IH)
qed

end
