(* ===== verification/Operation_Journal.thy ===== *)
theory Operation_Journal
  imports Operation_Store
begin

text \<open>
  The journal of idempotent operations, \<^verbatim>\<open>internal/hostruntime/operation/journal.go\<close>: a client
  names each operation, and a name is executed once for as long as its row is kept, whatever
  calls run at the same time, whatever the database answers and wherever the process stops.
  The exec manager (\<^verbatim>\<open>internal/hostruntime/execprocess/manager.go\<close>) keeps its own rows in the
  same table. The canonical hash of a request is a parameter here; it is the subject of the
  theory on canonical requests.
\<close>

section \<open>State\<close>

datatype op_journal_error =
    ErrInvalidOperationID
  | ErrInvalidRequest
  | ErrOperationConflict
  | ErrJournalFull
  | ErrOperationUncertain
  | ErrNotPersisted operation_error
  | ErrOfStore operation_error
  | ErrCallEnded

record op_entry =
  oe_hash :: bytes
  oe_done :: bool
  oe_outcome :: op_outcome
  oe_complete :: bool
  oe_err :: "op_journal_error option"

text \<open>
  Entries are shared by reference between the table of the journal and the calls that wait on
  them, so the table holds addresses into a heap.
\<close>

record op_journal =
  oj_max :: int
  oj_entries :: "(string \<times> nat) list"
  oj_order :: "string list"
  oj_store :: bool
  oj_retention :: int
  oj_lastCleanup :: int

definition cleanupInterval :: int where
  "cleanupInterval = 60000000000"

definition no_outcome :: op_outcome where
  "no_outcome = \<lparr>oc_result = [], oc_error = []\<rparr>"

definition NewJournal :: "int \<Rightarrow> op_journal_error + op_journal" where
  "NewJournal maxEntries =
     (if maxEntries < 1 then Inl ErrJournalFull
      else Inr \<lparr>oj_max = maxEntries, oj_entries = [], oj_order = [], oj_store = False, oj_retention = 0, oj_lastCleanup = 0\<rparr>)"

section \<open>Starting on a database\<close>

definition recovered_entry :: "op_row \<Rightarrow> op_journal_error + op_entry" where
  "recovered_entry row =
     (if length (op_hash row) \<noteq> 32 then Inl ErrInvalidRequest
      else if op_state row = ''pending''
      then Inr \<lparr>oe_hash = op_hash row, oe_done = True, oe_outcome = no_outcome, oe_complete = True, oe_err = Some ErrOperationUncertain\<rparr>
      else if op_state row = ''completed''
      then Inr \<lparr>oe_hash = op_hash row, oe_done = True, oe_outcome = \<lparr>oc_result = op_result row, oc_error = op_error row\<rparr>,
                oe_complete = True, oe_err = None\<rparr>
      else Inl ErrInvalidRequest)"

fun load_entries :: "op_row list \<Rightarrow> op_journal \<Rightarrow> op_entry list \<Rightarrow> op_journal_error + op_journal \<times> op_entry list" where
  "load_entries [] j heap = Inr (j, heap)"
| "load_entries (row # rows) j heap =
     (case recovered_entry row of
        Inl e \<Rightarrow> Inl e
      | Inr en \<Rightarrow>
          load_entries rows
            (j\<lparr>oj_entries := AList.update (op_id row) (length heap) (oj_entries j),
               oj_order := (if op_state row = ''completed'' then oj_order j @ [op_id row] else oj_order j)\<rparr>)
            (heap @ [en]))"

definition NewPersistentJournal ::
  "answer \<Rightarrow> bool \<Rightarrow> int \<Rightarrow> int \<Rightarrow> int \<Rightarrow> op_db \<Rightarrow> (op_journal_error + op_journal \<times> op_entry list) \<times> op_db" where
  "NewPersistentJournal delete fault maxEntries retention now db =
     (if retention \<le> 0 then (Inl ErrJournalFull, db)
      else case NewJournal maxEntries of
        Inl e \<Rightarrow> (Inl e, db)
      | Inr j \<Rightarrow>
          (case OperationsExcludingPrefix delete fault persistencePrefix now (nat maxEntries) db of
             (Inl e, db') \<Rightarrow> (Inl (ErrOfStore e), db')
           | (Inr rows, db') \<Rightarrow>
               (load_entries rows (j\<lparr>oj_store := True, oj_retention := retention, oj_lastCleanup := now\<rparr>) [], db')))"

section \<open>Execute\<close>

text \<open>
  A call of \<^verbatim>\<open>Execute\<close> goes through these stages. Everything before the operation runs is one
  critical section; the completion in the database is one statement at a time, at most
  \<^const>\<open>complete_attempts\<close> times.
\<close>

datatype op_call =
    WaitingFor string bytes nat
  | Executing string bytes nat
  | Completing string bytes nat op_outcome op_row nat
  | Inspecting string bytes nat op_outcome op_row nat
  | Finishing string bytes nat op_outcome "operation_error option"
  | Answered_op

record begin_env =
  be_now :: int
  be_cleanup :: answer
  be_reserveNow :: int
  be_insert :: answer
  be_select :: bool

text \<open>Making room: the oldest completed entries go first.\<close>

fun evict_entries :: "int \<Rightarrow> (string \<times> nat) list \<Rightarrow> string list \<Rightarrow> (string \<times> nat) list \<times> string list" where
  "evict_entries m entries [] = (entries, [])"
| "evict_entries m entries (oldest # order) =
     (if m \<le> int (length entries) then evict_entries m (AList.delete oldest entries) order
      else (entries, oldest # order))"

definition make_room :: "op_journal \<Rightarrow> op_journal" where
  "make_room j =
     (case evict_entries (oj_max j) (oj_entries j) (oj_order j) of
        (entries, order) \<Rightarrow> j\<lparr>oj_entries := entries, oj_order := order\<rparr>)"

definition cleanup_expired :: "begin_env \<Rightarrow> op_journal \<Rightarrow> op_db \<Rightarrow> (operation_error option \<times> op_journal) \<times> op_db" where
  "cleanup_expired env j db =
     (if be_now env < oj_lastCleanup j + cleanupInterval then ((None, j), db)
      else case DeleteExpiredOperations (be_cleanup env) (be_now env) db of
        (Some e, db') \<Rightarrow> ((Some e, j), db')
      | (None, db') \<Rightarrow> ((None, j\<lparr>oj_lastCleanup := be_now env\<rparr>), db'))"

text \<open>What a call answers at once, or the go-ahead to run the operation.\<close>

type_synonym op_reply = "op_outcome \<times> bool \<times> op_journal_error option"

definition no_reply :: "op_journal_error \<Rightarrow> op_reply" where
  "no_reply e = (no_outcome, False, Some e)"

definition reserve_in_store :: "begin_env \<Rightarrow> string \<Rightarrow> bytes \<Rightarrow> op_journal \<Rightarrow> op_db \<Rightarrow> (op_reply option \<times> op_journal) \<times> op_db" where
  "reserve_in_store env i hash j db =
     (case cleanup_expired env j db of
        ((Some e, j'), db') \<Rightarrow> ((Some (no_reply (ErrOfStore e)), j'), db')
      | ((None, j'), db') \<Rightarrow>
          (case ReserveOperation (be_insert env) (be_select env) i hash (be_reserveNow env + oj_retention j) db' of
             (Inl ErrRowConflict, db'') \<Rightarrow> ((Some (no_reply ErrOperationConflict), j'), db'')
           | (Inl e, db'') \<Rightarrow> ((Some (no_reply (ErrOfStore e)), j'), db'')
           | (Inr (row, True), db'') \<Rightarrow> ((None, j'), db'')
           | (Inr (row, False), db'') \<Rightarrow>
               ((Some (if op_state row = ''pending'' then (no_outcome, True, Some ErrOperationUncertain)
                       else (\<lparr>oc_result = op_result row, oc_error = op_error row\<rparr>, True, None)), j'), db'')))"

datatype begun = Reply_now op_reply | Wait_on nat | Run_as nat

definition Execute_begin ::
  "(bytes \<Rightarrow> bytes option) \<Rightarrow> begin_env \<Rightarrow> string \<Rightarrow> bytes \<Rightarrow> op_journal \<Rightarrow> op_entry list \<Rightarrow> op_db \<Rightarrow>
     begun \<times> op_journal \<times> op_entry list \<times> op_db" where
  "Execute_begin canonicalHash env i request j heap db =
     (if length i < 8 \<or> 128 < length i then (Reply_now (no_reply ErrInvalidOperationID), j, heap, db)
      else case canonicalHash request of
        None \<Rightarrow> (Reply_now (no_reply ErrInvalidRequest), j, heap, db)
      | Some hash \<Rightarrow>
          (case map_of (oj_entries j) i of
             Some a \<Rightarrow>
               if oe_hash (heap ! a) \<noteq> hash then (Reply_now (no_reply ErrOperationConflict), j, heap, db)
               else (Wait_on a, j, heap, db)
           | None \<Rightarrow>
               (let j1 = make_room j
                in if oj_max j1 \<le> int (length (oj_entries j1)) then (Reply_now (no_reply ErrJournalFull), j1, heap, db)
                   else case (if oj_store j1 then reserve_in_store env i hash j1 db else ((None, j1), db)) of
                          ((Some r, j2), db2) \<Rightarrow> (Reply_now r, j2, heap, db2)
                        | ((None, j2), db2) \<Rightarrow>
                            (Run_as (length heap), j2\<lparr>oj_entries := AList.update i (length heap) (oj_entries j2)\<rparr>,
                             heap @ [\<lparr>oe_hash = hash, oe_done = False, oe_outcome = no_outcome, oe_complete = False, oe_err = None\<rparr>],
                             db2))))"

definition completed_row :: "string \<Rightarrow> bytes \<Rightarrow> op_outcome \<Rightarrow> int \<Rightarrow> int \<Rightarrow> op_row" where
  "completed_row i hash oc now retention =
     \<lparr>op_id = i, op_hash = hash, op_state = ''completed'', op_result = oc_result oc, op_error = oc_error oc,
      op_completed = Some now, op_expires = now + retention\<rparr>"

text \<open>The operation has returned: what is left to do in the database.\<close>

definition Execute_ran :: "op_journal \<Rightarrow> int \<Rightarrow> string \<Rightarrow> bytes \<Rightarrow> nat \<Rightarrow> op_outcome \<Rightarrow> op_call" where
  "Execute_ran j now i hash a oc =
     (if \<not> oj_store j then Finishing i hash a oc None
      else if MaxOperationResultBytes < length (oc_result oc) then Finishing i hash a oc (Some ErrResultTooLarge)
      else Completing i hash a oc (completed_row i hash oc now (oj_retention j)) complete_attempts)"

definition Execute_finish ::
  "string \<Rightarrow> nat \<Rightarrow> op_outcome \<Rightarrow> operation_error option \<Rightarrow> op_journal \<Rightarrow> op_entry list \<Rightarrow> op_journal \<times> op_entry list" where
  "Execute_finish i a oc persistenceErr j heap =
     (let en = (heap ! a)\<lparr>oe_outcome := oc, oe_complete := True, oe_done := True,
                        oe_err := (case persistenceErr of None \<Rightarrow> None | Some e \<Rightarrow> Some (ErrNotPersisted e))\<rparr>
      in (if persistenceErr = None then j\<lparr>oj_order := oj_order j @ [i]\<rparr> else j, heap[a := en]))"

section \<open>The running system\<close>

text \<open>
  The database, the journal of the running process (if one runs) with its heap, and the calls of
  \<^verbatim>\<open>Execute\<close> in progress. The exec manager of the same process uses the same table with
  identifiers of its own.
\<close>

record op_sys =
  os_db :: op_db
  os_journal :: "op_journal option"
  os_heap :: "op_entry list"
  os_calls :: "op_call list"

datatype op_step =
    Begin_call begin_env string bytes
  | Wake_call nat
  | Cancel_call nat
  | Run_returns nat op_outcome int
  | Try_complete nat answer
  | Inspect_row nat bool
  | Finish_call nat
  | Stop_process
  | Start_process answer bool int int int
  | Exec_reserve answer bool string bytes int
  | Exec_complete "nat \<Rightarrow> answer \<times> bool \<times> bool" op_row
  | Exec_load answer bool int nat

definition set_call :: "nat \<Rightarrow> op_call \<Rightarrow> op_sys \<Rightarrow> op_sys" where
  "set_call k c s = s\<lparr>os_calls := (os_calls s)[k := c]\<rparr>"

definition note_in :: "op_event \<Rightarrow> op_sys \<Rightarrow> op_sys" where
  "note_in e s = s\<lparr>os_db := note_event e (os_db s)\<rparr>"

text \<open>Only answers without an error are logged.\<close>

definition reply_to :: "string \<Rightarrow> bytes \<Rightarrow> op_reply \<Rightarrow> op_sys \<Rightarrow> op_sys" where
  "reply_to i hash r s =
     (case r of (oc, replay, None) \<Rightarrow> note_in (Replied i hash oc replay) s | (_, _, Some _) \<Rightarrow> s)"

definition begin_call :: "(bytes \<Rightarrow> bytes option) \<Rightarrow> begin_env \<Rightarrow> string \<Rightarrow> bytes \<Rightarrow> op_sys \<Rightarrow> op_sys" where
  "begin_call canonicalHash env i request s =
     (case os_journal s of
        None \<Rightarrow> s
      | Some j \<Rightarrow>
          (case Execute_begin canonicalHash env i request j (os_heap s) (os_db s) of
             (b, j', heap', db') \<Rightarrow>
               (let s' = s\<lparr>os_db := db', os_journal := Some j', os_heap := heap'\<rparr>;
                    hash = (case canonicalHash request of Some h \<Rightarrow> h | None \<Rightarrow> [])
                in case b of
                     Reply_now r \<Rightarrow> reply_to i hash r s'
                   | Wait_on a \<Rightarrow> s'\<lparr>os_calls := os_calls s' @ [WaitingFor i hash a]\<rparr>
                   | Run_as a \<Rightarrow>
                       note_in (Ran i hash (be_reserveNow env + oj_retention j))
                         (s'\<lparr>os_calls := os_calls s' @ [Executing i hash a]\<rparr>))))"

definition after_verdict :: "string \<Rightarrow> bytes \<Rightarrow> nat \<Rightarrow> op_outcome \<Rightarrow> op_row \<Rightarrow> nat \<Rightarrow> operation_error \<Rightarrow> verdict \<Rightarrow> op_call" where
  "after_verdict i hash a oc row k final v =
     (case v of
        Over e \<Rightarrow> Finishing i hash a oc e
      | Look \<Rightarrow> Inspecting i hash a oc row k
      | Retry \<Rightarrow> if k = 0 then Finishing i hash a oc (Some final) else Completing i hash a oc row k)"

text \<open>A step of the call with number \<open>k\<close>, if that call is there and at this stage.\<close>

definition at_call :: "nat \<Rightarrow> (op_call \<Rightarrow> op_journal \<Rightarrow> op_sys \<Rightarrow> op_sys) \<Rightarrow> op_sys \<Rightarrow> op_sys" where
  "at_call k f s =
     (case os_journal s of
        None \<Rightarrow> s
      | Some j \<Rightarrow> if k < length (os_calls s) then f (os_calls s ! k) j s else s)"

definition wake_call :: "nat \<Rightarrow> op_call \<Rightarrow> op_journal \<Rightarrow> op_sys \<Rightarrow> op_sys" where
  "wake_call k c j s =
     (case c of
        WaitingFor i hash a \<Rightarrow>
          (let en = os_heap s ! a
           in if oe_done en then reply_to i hash (oe_outcome en, True, oe_err en) (set_call k Answered_op s) else s)
      | _ \<Rightarrow> s)"

definition cancel_call :: "nat \<Rightarrow> op_call \<Rightarrow> op_journal \<Rightarrow> op_sys \<Rightarrow> op_sys" where
  "cancel_call k c j s = (case c of WaitingFor i hash a \<Rightarrow> set_call k Answered_op s | _ \<Rightarrow> s)"

definition run_returns :: "op_outcome \<Rightarrow> int \<Rightarrow> nat \<Rightarrow> op_call \<Rightarrow> op_journal \<Rightarrow> op_sys \<Rightarrow> op_sys" where
  "run_returns oc now k c j s =
     (case c of
        Executing i hash a \<Rightarrow> note_in (Ended i hash oc) (set_call k (Execute_ran j now i hash a oc) s)
      | _ \<Rightarrow> s)"

definition try_complete :: "answer \<Rightarrow> nat \<Rightarrow> op_call \<Rightarrow> op_journal \<Rightarrow> op_sys \<Rightarrow> op_sys" where
  "try_complete update k c j s =
     (case c of
        Completing i hash a oc row n \<Rightarrow>
          (case complete_update update row (os_db s) of
             (v, db') \<Rightarrow> set_call k (after_verdict i hash a oc row (n - 1) ErrStatement v) (s\<lparr>os_db := db'\<rparr>))
      | _ \<Rightarrow> s)"

definition inspect_row :: "bool \<Rightarrow> nat \<Rightarrow> op_call \<Rightarrow> op_journal \<Rightarrow> op_sys \<Rightarrow> op_sys" where
  "inspect_row fault k c j s =
     (case c of
        Inspecting i hash a oc row n \<Rightarrow>
          set_call k (after_verdict i hash a oc row n ErrRowConflict (complete_look fault row (os_db s))) s
      | _ \<Rightarrow> s)"

definition finish_call :: "nat \<Rightarrow> op_call \<Rightarrow> op_journal \<Rightarrow> op_sys \<Rightarrow> op_sys" where
  "finish_call k c j s =
     (case c of
        Finishing i hash a oc e \<Rightarrow>
          (case Execute_finish i a oc e j (os_heap s) of
             (j', heap') \<Rightarrow>
               reply_to i hash (oc, False, map_option ErrNotPersisted e)
                 (set_call k Answered_op (s\<lparr>os_journal := Some j', os_heap := heap'\<rparr>)))
      | _ \<Rightarrow> s)"

definition start_process :: "answer \<Rightarrow> bool \<Rightarrow> int \<Rightarrow> int \<Rightarrow> int \<Rightarrow> op_sys \<Rightarrow> op_sys" where
  "start_process delete fault maxEntries retention now s =
     (if os_journal s \<noteq> None then s
      else case NewPersistentJournal delete fault maxEntries retention now (os_db s) of
        (Inl e, db') \<Rightarrow> s\<lparr>os_db := db'\<rparr>
      | (Inr (j, heap), db') \<Rightarrow> s\<lparr>os_db := db', os_journal := Some j, os_heap := heap, os_calls := []\<rparr>)"

text \<open>The statements of the exec manager, on rows whose identifiers carry its prefix.\<close>

definition exec_row :: "op_row \<Rightarrow> op_row" where
  "exec_row row = row\<lparr>op_id := persistencePrefix @ op_id row\<rparr>"

fun op_exec :: "(bytes \<Rightarrow> bytes option) \<Rightarrow> op_step \<Rightarrow> op_sys \<Rightarrow> op_sys" where
  "op_exec canonicalHash (Begin_call env i request) s = begin_call canonicalHash env i request s"
| "op_exec canonicalHash (Wake_call k) s = at_call k (wake_call k) s"
| "op_exec canonicalHash (Cancel_call k) s = at_call k (cancel_call k) s"
| "op_exec canonicalHash (Run_returns k oc now) s = at_call k (run_returns oc now k) s"
| "op_exec canonicalHash (Try_complete k update) s = at_call k (try_complete update k) s"
| "op_exec canonicalHash (Inspect_row k fault) s = at_call k (inspect_row fault k) s"
| "op_exec canonicalHash (Finish_call k) s = at_call k (finish_call k) s"
| "op_exec canonicalHash Stop_process s = s\<lparr>os_journal := None, os_heap := [], os_calls := []\<rparr>"
| "op_exec canonicalHash (Start_process delete fault maxEntries retention now) s =
     start_process delete fault maxEntries retention now s"
| "op_exec canonicalHash (Exec_reserve ins fault i hash expires) s =
     s\<lparr>os_db := snd (ReserveOperation ins fault (persistencePrefix @ i) hash expires (os_db s))\<rparr>"
| "op_exec canonicalHash (Exec_complete answers row) s =
     s\<lparr>os_db := snd (CompleteOperation answers (exec_row row) (os_db s))\<rparr>"
| "op_exec canonicalHash (Exec_load delete fault now limit) s =
     s\<lparr>os_db := snd (OperationsWithPrefix delete fault persistencePrefix now limit (os_db s))\<rparr>"

definition new_op_sys :: op_sys where
  "new_op_sys = \<lparr>os_db = \<lparr>db_rows = [], db_log = []\<rparr>, os_journal = None, os_heap = [], os_calls = []\<rparr>"

end
