(* ===== verification/Operation_Once.thy ===== *)
theory Operation_Once
  imports Operation_Journal
begin

text \<open>
  What the operation journal promises: a named operation runs once while its row is kept, and
  everybody who asks for it is told what that run returned. The proofs keep an invariant over
  every step of the system of \<^verbatim>\<open>Operation_Journal\<close>, in any interleaving.
\<close>

section \<open>Statements of the database\<close>

abbreviation row_outcome :: "op_row \<Rightarrow> op_outcome" where
  "row_outcome row \<equiv> \<lparr>oc_result = op_result row, oc_error = op_error row\<rparr>"

definition rows_true :: "op_db \<Rightarrow> bool" where
  "rows_true db \<longleftrightarrow>
     (\<forall>i row. map_of (db_rows db) i = Some row \<longrightarrow> op_state row \<noteq> ''pending'' \<longrightarrow> \<not> prefix persistencePrefix i \<longrightarrow>
        Ended i (op_hash row) (row_outcome row) \<in> set (db_log db))"

fun row_event :: "op_event \<Rightarrow> bool" where
  "row_event (Inserted row) \<longleftrightarrow> True"
| "row_event (Updated row) \<longleftrightarrow> True"
| "row_event (Purged row now) \<longleftrightarrow> True"
| "row_event _ \<longleftrightarrow> False"

definition db_good :: "op_db \<Rightarrow> bool" where
  "db_good db \<longleftrightarrow> db_ok db \<and> rows_true db"

definition db_step :: "op_db \<Rightarrow> op_db \<Rightarrow> bool" where
  "db_step db db' \<longleftrightarrow> db_good db' \<and> (\<exists>es. db_log db' = db_log db @ es \<and> list_all row_event es)"

lemma db_step_refl: "db_good db \<Longrightarrow> db_step db db"
  by (simp add: db_step_def)

lemma db_step_trans: "db_step a b \<Longrightarrow> db_step b c \<Longrightarrow> db_step a c"
  by (fastforce simp: db_step_def)

lemma db_step_good: "db_step db db' \<Longrightarrow> db_good db'"
  by (simp add: db_step_def)

lemma put_pending_step:
  assumes "db_good db" and "map_of (db_rows db) i = None"
  shows "db_step db (put_pending (pending_row i hash expires) db)"
proof -
  have "db_ok (put_pending (pending_row i hash expires) db)"
    using assms by (intro put_pending_ok) (simp_all add: db_good_def pending_row_def)
  then show ?thesis using assms(1)
    by (auto simp: db_step_def db_good_def rows_true_def put_pending_def note_event_def pending_row_def update_conv')
qed

lemma set_completed_step:
  assumes "db_good db"
    and "prefix persistencePrefix (op_id oper) \<or> Ended (op_id oper) (op_hash oper) (row_outcome oper) \<in> set (db_log db)"
  shows "db_step db (set_completed oper db)"
proof -
  have "db_ok (set_completed oper db)" using assms(1) by (simp add: set_completed_ok db_good_def)
  then show ?thesis using assms
    by (auto simp: db_step_def db_good_def rows_true_def set_completed_def note_event_def update_conv' Let_def)
qed

lemma delete_expired_step:
  assumes db: "db_good db"
  shows "db_step db (delete_expired now db)"
proof -
  have ok: "db_ok db" "rows_true db" using db by (simp_all add: db_good_def)
  have "map_of (db_rows db) i = Some row" if "map_of (db_rows (delete_expired now db)) i = Some row" for i row
    using that unfolding delete_expired_def
    by (simp add: map_of_filter_rows[OF db_okD(3)[OF ok(1)], of "\<lambda>row. \<not> op_expires row \<le> now", simplified] split: option.splits if_splits)
  then have "rows_true (delete_expired now db)" using ok(2) by (auto simp: rows_true_def delete_expired_def)
  then show ?thesis using delete_expired_ok[OF ok(1), of now]
    by (auto simp: db_step_def db_good_def delete_expired_def list_all_iff)
qed

lemma DeleteExpiredOperations_step: "db_good db \<Longrightarrow> db_step db (snd (DeleteExpiredOperations delete now db))"
  by (simp add: DeleteExpiredOperations_def delete_expired_step db_step_refl)

lemma ReserveOperation_step: "db_good db \<Longrightarrow> db_step db (snd (ReserveOperation ins fault i hash expires db))"
  by (auto simp: ReserveOperation_def Let_def put_pending_step db_step_refl split: option.split answer.split)

lemma complete_update_step:
  assumes "db_good db"
    and "prefix persistencePrefix (op_id oper) \<or> Ended (op_id oper) (op_hash oper) (row_outcome oper) \<in> set (db_log db)"
  shows "db_step db (snd (complete_update update oper db))"
  using set_completed_step[OF assms] db_step_refl[OF assms(1)] by (simp add: complete_update_def split: answer.split)

lemma exec_complete_loop_step:
  assumes "prefix persistencePrefix (op_id oper)" and "db_good db"
  shows "db_step db (snd (complete_loop k answers oper db))"
  using assms(2)
proof (induction k arbitrary: db)
  case (Suc k)
  obtain update fault canceled where a: "answers k = (update, fault, canceled)" by (cases "answers k") auto
  obtain v db' where u: "complete_update update oper db = (v, db')" by fastforce
  have st: "db_step db db'" using complete_update_step[OF Suc.prems, of oper update] assms(1) by (simp add: u)
  then have "db_step db (snd (complete_loop k answers oper db'))" using Suc.IH[of db'] db_step_good db_step_trans by blast
  with st show ?case by (auto simp: a u split: verdict.split)
qed (simp add: db_step_refl)

lemma operationsByPrefix_step: "db_good db \<Longrightarrow> db_step db (snd (operationsByPrefix delete fault pre exclude now limit db))"
  using DeleteExpiredOperations_step[of db delete now] db_step_refl[of db]
  by (auto simp: operationsByPrefix_def split: prod.split option.split)

text \<open>What a listing returns are rows of the table it leaves.\<close>

lemma operationsByPrefix_rows:
  assumes "operationsByPrefix delete fault pre exclude now limit db = (Inr rows, db')"
  shows "set rows \<subseteq> snd ` set (db_rows db')"
  using assms set_take_subset
  by (force simp: operationsByPrefix_def split: if_splits prod.splits option.splits)

section \<open>The invariant\<close>

text \<open>The entry a call works for: the call that runs the operation until it is finished.\<close>

fun flight :: "op_call \<Rightarrow> (string \<times> nat) option" where
  "flight (Executing i hash a) = Some (i, a)"
| "flight (Completing i hash a oc row n) = Some (i, a)"
| "flight (Inspecting i hash a oc row n) = Some (i, a)"
| "flight (Finishing i hash a oc e) = Some (i, a)"
| "flight _ = None"

text \<open>
  Address \<open>a\<close> holds the entry of operation \<open>i\<close> with this hash: what it records, if anything, is
  what a run of \<open>i\<close> returned, and whoever still works for it works for \<open>i\<close>.
\<close>

definition claims :: "op_event list \<Rightarrow> op_entry list \<Rightarrow> op_call list \<Rightarrow> string \<Rightarrow> bytes \<Rightarrow> nat \<Rightarrow> bool" where
  "claims log heap calls i hash a \<longleftrightarrow>
     a < length heap \<and> oe_hash (heap ! a) = hash \<and>
     (prefix persistencePrefix i \<or> \<not> oe_done (heap ! a) \<or> oe_err (heap ! a) \<noteq> None \<or> Ended i hash (oe_outcome (heap ! a)) \<in> set log) \<and>
     (\<forall>c\<in>set calls. \<forall>i'. flight c = Some (i', a) \<longrightarrow> i' = i)"

definition row_for :: "string \<Rightarrow> bytes \<Rightarrow> op_outcome \<Rightarrow> op_row \<Rightarrow> bool" where
  "row_for i hash oc row \<longleftrightarrow> op_id row = i \<and> op_hash row = hash \<and> row_outcome row = oc"

fun call_ok :: "op_event list \<Rightarrow> op_entry list \<Rightarrow> op_call list \<Rightarrow> op_call \<Rightarrow> bool" where
  "call_ok log heap calls (WaitingFor i hash a) \<longleftrightarrow> claims log heap calls i hash a"
| "call_ok log heap calls (Executing i hash a) \<longleftrightarrow> claims log heap calls i hash a \<and> (\<exists>e. Ran i hash e \<in> set log)"
| "call_ok log heap calls (Completing i hash a oc row n) \<longleftrightarrow>
     claims log heap calls i hash a \<and> Ended i hash oc \<in> set log \<and> row_for i hash oc row"
| "call_ok log heap calls (Inspecting i hash a oc row n) \<longleftrightarrow>
     claims log heap calls i hash a \<and> Ended i hash oc \<in> set log \<and> row_for i hash oc row"
| "call_ok log heap calls (Finishing i hash a oc e) \<longleftrightarrow> claims log heap calls i hash a \<and> Ended i hash oc \<in> set log"
| "call_ok log heap calls Answered_op \<longleftrightarrow> True"

text \<open>Every run returns at most once.\<close>

fun is_ran :: "string \<Rightarrow> op_event \<Rightarrow> bool" where
  "is_ran i (Ran i' hash e) \<longleftrightarrow> i' = i"
| "is_ran i _ \<longleftrightarrow> False"

fun is_ended :: "string \<Rightarrow> op_event \<Rightarrow> bool" where
  "is_ended i (Ended i' hash oc) \<longleftrightarrow> i' = i"
| "is_ended i _ \<longleftrightarrow> False"

fun is_executing :: "string \<Rightarrow> op_call \<Rightarrow> bool" where
  "is_executing i (Executing i' hash a) \<longleftrightarrow> i' = i"
| "is_executing i _ \<longleftrightarrow> False"

definition tally :: "('a \<Rightarrow> bool) \<Rightarrow> 'a list \<Rightarrow> nat" where
  "tally P xs = length (filter P xs)"

lemma tally_append [simp]: "tally P (xs @ ys) = tally P xs + tally P ys"
  by (simp add: tally_def)

lemma tally_Cons [simp]: "tally P (x # xs) = (if P x then 1 else 0) + tally P xs"
  by (simp add: tally_def)

lemma tally_Nil [simp]: "tally P [] = 0"
  by (simp add: tally_def)

lemma tally_update:
  "k < length xs \<Longrightarrow> tally P (xs[k := y]) + (if P (xs ! k) then 1 else 0) = tally P xs + (if P y then 1 else 0)"
  by (subst (2) id_take_nth_drop[of k xs]) (simp_all add: upd_conv_take_nth_drop)

lemma tally_rows: "list_all row_event es \<Longrightarrow> tally (is_ran i) es = 0 \<and> tally (is_ended i) es = 0"
proof (induction es)
  case (Cons e es)
  then show ?case by (cases e) auto
qed simp

definition entries_ok :: "op_event list \<Rightarrow> op_entry list \<Rightarrow> op_call list \<Rightarrow> op_journal \<Rightarrow> bool" where
  "entries_ok log heap calls j \<longleftrightarrow>
     oj_store j \<and> (\<forall>i a. map_of (oj_entries j) i = Some a \<longrightarrow> claims log heap calls i (oe_hash (heap ! a)) a)"

definition op_inv :: "op_sys \<Rightarrow> bool" where
  "op_inv s \<longleftrightarrow>
     db_good (os_db s) \<and>
     (\<forall>c\<in>set (os_calls s). call_ok (db_log (os_db s)) (os_heap s) (os_calls s) c) \<and>
     (\<forall>i. tally (is_ended i) (db_log (os_db s)) + tally (is_executing i) (os_calls s) \<le> tally (is_ran i) (db_log (os_db s))) \<and>
     (\<forall>j. os_journal s = Some j \<longrightarrow> entries_ok (db_log (os_db s)) (os_heap s) (os_calls s) j)"

lemma op_invD:
  assumes "op_inv s"
  shows "db_good (os_db s)"
    and "c \<in> set (os_calls s) \<Longrightarrow> call_ok (db_log (os_db s)) (os_heap s) (os_calls s) c"
    and "tally (is_ended i) (db_log (os_db s)) + tally (is_executing i) (os_calls s) \<le> tally (is_ran i) (db_log (os_db s))"
    and "os_journal s = Some j \<Longrightarrow> entries_ok (db_log (os_db s)) (os_heap s) (os_calls s) j"
  using assms unfolding op_inv_def by blast+

text \<open>Claims survive a longer log, a longer heap and calls that take over from others.\<close>

definition follows :: "op_call list \<Rightarrow> op_call list \<Rightarrow> bool" where
  "follows calls calls' \<longleftrightarrow> (\<forall>c'\<in>set calls'. flight c' = None \<or> (\<exists>c\<in>set calls. flight c = flight c'))"

lemma claims_mono:
  assumes "claims log heap calls i hash a" and "set log \<subseteq> set log'" and "length heap \<le> length heap'" and "heap' ! a = heap ! a"
    and "follows calls calls'"
  shows "claims log' heap' calls' i hash a"
proof -
  have "i' = i" if c': "c' \<in> set calls'" "flight c' = Some (i', a)" for c' i'
  proof -
    obtain c where "c \<in> set calls" "flight c = flight c'" using c' assms(5) by (force simp: follows_def)
    then show ?thesis using assms(1) c'(2) by (auto simp: claims_def)
  qed
  with assms(1-4) show ?thesis by (auto simp: claims_def)
qed

lemma call_ok_mono:
  assumes "call_ok log heap calls c" and "set log \<subseteq> set log'" and "length heap \<le> length heap'"
    and "\<And>a. a < length heap \<Longrightarrow> heap' ! a = heap ! a" and "follows calls calls'"
  shows "call_ok log' heap' calls' c"
proof -
  have "claims log' heap' calls' i hash a" if "claims log heap calls i hash a" for i hash a
    by (rule claims_mono[OF that assms(2,3) _ assms(5)]) (use that assms(4) in \<open>simp add: claims_def\<close>)
  with assms(1,2) show ?thesis by (cases c) auto
qed

lemma entries_ok_mono:
  assumes "entries_ok log heap calls j" and "set log \<subseteq> set log'" and "length heap \<le> length heap'"
    and "\<And>a. a < length heap \<Longrightarrow> heap' ! a = heap ! a" and "follows calls calls'"
    and "oj_store j'" and "\<And>i a. map_of (oj_entries j') i = Some a \<Longrightarrow> map_of (oj_entries j) i = Some a"
  shows "entries_ok log' heap' calls' j'"
  unfolding entries_ok_def
proof (intro conjI allI impI)
  fix i a
  assume "map_of (oj_entries j') i = Some a"
  then have c: "claims log heap calls i (oe_hash (heap ! a)) a" using assms(1,7) by (simp add: entries_ok_def)
  then have "heap' ! a = heap ! a" using assms(4) by (simp add: claims_def)
  with claims_mono[OF c assms(2,3) _ assms(5)] show "claims log' heap' calls' i (oe_hash (heap' ! a)) a" by simp
qed (rule assms(6))

lemma follows_refl [simp]: "follows calls calls"
  by (auto simp: follows_def)

lemma follows_none: "flight c = None \<Longrightarrow> follows calls (calls @ [c])"
  by (auto simp: follows_def)

lemma follows_update:
  assumes "k < length calls" and "flight c = None \<or> flight c = flight (calls ! k)"
  shows "follows calls (calls[k := c])"
  using assms set_update_subset_insert[of calls k c] nth_mem[OF assms(1)] by (force simp: follows_def)

section \<open>Every step keeps it\<close>

lemma op_inv_db:
  assumes inv: "op_inv s" and st: "db_step (os_db s) db'"
    and j: "\<And>j'. jo = Some j' \<Longrightarrow>
      \<exists>j. os_journal s = Some j \<and> oj_store j' \<and> (\<forall>i a. map_of (oj_entries j') i = Some a \<longrightarrow> map_of (oj_entries j) i = Some a)"
  shows "op_inv (s\<lparr>os_db := db', os_journal := jo\<rparr>)"
proof -
  obtain es where es: "db_log db' = db_log (os_db s) @ es" "list_all row_event es" and good: "db_good db'"
    using st by (auto simp: db_step_def)
  have sub: "set (db_log (os_db s)) \<subseteq> set (db_log db')" by (simp add: es(1))
  have "call_ok (db_log db') (os_heap s) (os_calls s) c" if "c \<in> set (os_calls s)" for c
    by (rule call_ok_mono[OF op_invD(2)[OF inv that] sub]) simp_all
  moreover have "entries_ok (db_log db') (os_heap s) (os_calls s) j'" if jo: "jo = Some j'" for j'
  proof -
    obtain j0 where j0: "os_journal s = Some j0" and "oj_store j'" "\<forall>i a. map_of (oj_entries j') i = Some a \<longrightarrow> map_of (oj_entries j0) i = Some a"
      using j[OF jo] by blast
    then show ?thesis by (intro entries_ok_mono[OF op_invD(4)[OF inv j0] sub]) auto
  qed
  moreover have "tally (is_ended i) (db_log db') + tally (is_executing i) (os_calls s) \<le> tally (is_ran i) (db_log db')" for i
    using op_invD(3)[OF inv, of i] tally_rows[OF es(2), of i] by (simp add: es(1))
  ultimately show ?thesis using good by (simp add: op_inv_def)
qed

lemma op_inv_db_same:
  assumes "op_inv s" and "db_step (os_db s) db'"
  shows "op_inv (s\<lparr>os_db := db'\<rparr>)"
proof -
  have "op_inv (s\<lparr>os_db := db', os_journal := os_journal s\<rparr>)"
    by (rule op_inv_db[OF assms]) (use op_invD(4)[OF assms(1)] in \<open>auto simp: entries_ok_def\<close>)
  then show ?thesis by (simp add: op_inv_def)
qed

lemma db_good_note:
  "db_good db \<Longrightarrow> event_ok (db_log db) e \<Longrightarrow> row_after e = id \<Longrightarrow> db_good (note_event e db)"
  by (auto simp: db_good_def db_ok_note rows_true_def) (auto simp: note_event_def)

lemma op_inv_note:
  assumes inv: "op_inv s" and ok: "event_ok (db_log (os_db s)) e" "row_after e = id"
    and count: "\<And>i. (if is_ended i e then 1 else 0) + tally (is_ended i) (db_log (os_db s)) + tally (is_executing i) (os_calls s)
      \<le> (if is_ran i e then 1 else 0) + tally (is_ran i) (db_log (os_db s))"
  shows "op_inv (note_in e s)"
proof -
  let ?db = "note_event e (os_db s)"
  have good: "db_good ?db" using op_invD(1)[OF inv] ok by (rule db_good_note)
  have log: "db_log ?db = db_log (os_db s) @ [e]" by (simp add: note_event_def)
  have sub: "set (db_log (os_db s)) \<subseteq> set (db_log ?db)" by (auto simp: log)
  have "call_ok (db_log ?db) (os_heap s) (os_calls s) c" if "c \<in> set (os_calls s)" for c
    by (rule call_ok_mono[OF op_invD(2)[OF inv that] sub]) simp_all
  moreover have "entries_ok (db_log ?db) (os_heap s) (os_calls s) j" if "os_journal s = Some j" for j
    using op_invD(4)[OF inv that] by (intro entries_ok_mono[OF op_invD(4)[OF inv that] sub]) (auto simp: entries_ok_def)
  moreover have "tally (is_ended i) (db_log ?db) + tally (is_executing i) (os_calls s) \<le> tally (is_ran i) (db_log ?db)" for i
    using count[of i] by (simp add: log)
  ultimately show ?thesis using good by (simp add: op_inv_def note_in_def)
qed

lemma op_inv_reply:
  assumes "op_inv s" and "snd (snd r) = None \<Longrightarrow> prefix persistencePrefix i \<or> Ended i hash (fst r) \<in> set (db_log (os_db s))"
  shows "op_inv (reply_to i hash r s)"
proof -
  obtain oc replay err where r: "r = (oc, replay, err)" by (cases r) auto
  show ?thesis
  proof (cases err)
    case None
    have "op_inv (note_in (Replied i hash oc replay) s)"
      by (rule op_inv_note[OF assms(1)]) (use assms(2) op_invD(3)[OF assms(1)] None in \<open>auto simp: r\<close>)
    then show ?thesis by (simp add: reply_to_def r None)
  qed (simp add: reply_to_def r assms(1))
qed

text \<open>A call moves on to another stage, perhaps with something to note.\<close>

lemma op_inv_stage:
  assumes inv: "op_inv s" and k: "k < length (os_calls s)" and fl: "flight c = None \<or> flight c = flight (os_calls s ! k)"
    and good: "db_good db'" and sub: "set (db_log (os_db s)) \<subseteq> set (db_log db')"
    and ok: "call_ok (db_log db') (os_heap s) (os_calls s) c"
    and count: "\<And>i. tally (is_ended i) (db_log db') + tally (is_executing i) ((os_calls s)[k := c]) \<le> tally (is_ran i) (db_log db')"
  shows "op_inv (s\<lparr>os_db := db', os_calls := (os_calls s)[k := c]\<rparr>)"
proof -
  let ?calls = "(os_calls s)[k := c]"
  note fo = follows_update[OF k fl]
  have "call_ok (db_log db') (os_heap s) ?calls d" if "d \<in> set ?calls" for d
  proof -
    have "call_ok (db_log db') (os_heap s) (os_calls s) d" if "d \<in> set (os_calls s)"
      by (rule call_ok_mono[OF op_invD(2)[OF inv that] sub]) simp_all
    then have "call_ok (db_log db') (os_heap s) (os_calls s) d"
      using that set_update_subset_insert[of "os_calls s" k c] ok by auto
    then show ?thesis by (rule call_ok_mono) (simp_all add: fo)
  qed
  moreover have "entries_ok (db_log db') (os_heap s) ?calls j" if "os_journal s = Some j" for j
    using op_invD(4)[OF inv that] by (intro entries_ok_mono[OF op_invD(4)[OF inv that] sub _ _ fo]) (auto simp: entries_ok_def)
  ultimately show ?thesis using good count by (simp add: op_inv_def)
qed

lemma op_inv_set_call:
  assumes inv: "op_inv s" and k: "k < length (os_calls s)" and fl: "flight c = None \<or> flight c = flight (os_calls s ! k)"
    and ok: "call_ok (db_log (os_db s)) (os_heap s) (os_calls s) c" and ex: "\<And>i. \<not> is_executing i c"
  shows "op_inv (set_call k c s)"
proof -
  have "tally (is_ended i) (db_log (os_db s)) + tally (is_executing i) ((os_calls s)[k := c]) \<le> tally (is_ran i) (db_log (os_db s))" for i
    using op_invD(3)[OF inv, of i] tally_update[OF k, of "is_executing i" c] ex[of i] by (simp split: if_splits)
  from op_inv_stage[OF inv k fl op_invD(1)[OF inv] order_refl ok this] show ?thesis by (simp add: set_call_def)
qed

lemma wake_inv: "op_inv s \<Longrightarrow> k < length (os_calls s) \<Longrightarrow> op_inv (wake_call k (os_calls s ! k) j s)"
proof (cases "os_calls s ! k")
  case (WaitingFor i hash a)
  assume inv: "op_inv s" and k: "k < length (os_calls s)"
  have "claims (db_log (os_db s)) (os_heap s) (os_calls s) i hash a"
    using op_invD(2)[OF inv nth_mem[OF k]] by (simp add: WaitingFor)
  moreover have "op_inv (set_call k Answered_op s)" by (rule op_inv_set_call[OF inv k]) simp_all
  ultimately show ?thesis using inv
    by (auto simp: wake_call_def WaitingFor Let_def claims_def set_call_def intro!: op_inv_reply)
qed (simp_all add: wake_call_def)

lemma cancel_inv: "op_inv s \<Longrightarrow> k < length (os_calls s) \<Longrightarrow> op_inv (cancel_call k (os_calls s ! k) j s)"
  by (auto simp: cancel_call_def intro: op_inv_set_call split: op_call.split)

lemma run_returns_inv:
  assumes inv: "op_inv s" and k: "k < length (os_calls s)"
  shows "op_inv (run_returns oc now k (os_calls s ! k) j s)"
proof (cases "os_calls s ! k")
  case (Executing i hash a)
  let ?e = "Ended i hash oc" and ?c = "Execute_ran j now i hash a oc"
  let ?db = "note_event ?e (os_db s)"
  have cl: "claims (db_log (os_db s)) (os_heap s) (os_calls s) i hash a" and ran: "\<exists>e. Ran i hash e \<in> set (db_log (os_db s))"
    using op_invD(2)[OF inv nth_mem[OF k]] by (simp_all add: Executing)
  have log: "db_log ?db = db_log (os_db s) @ [?e]" by (simp add: note_event_def)
  have "claims (db_log ?db) (os_heap s) (os_calls s) i hash a" by (rule claims_mono[OF cl]) (auto simp: log)
  then have ok: "call_ok (db_log ?db) (os_heap s) (os_calls s) ?c"
    by (auto simp: Execute_ran_def row_for_def completed_row_def log)
  have ex: "\<not> is_executing i' ?c" for i' by (simp add: Execute_ran_def)
  have "tally (is_ended i') (db_log ?db) + tally (is_executing i') ((os_calls s)[k := ?c]) \<le> tally (is_ran i') (db_log ?db)" for i'
    using op_invD(3)[OF inv, of i'] tally_update[OF k, of "is_executing i'" ?c] ex[of i'] by (auto simp: log Executing split: if_splits)
  moreover have "flight ?c = flight (os_calls s ! k)" by (simp add: Execute_ran_def Executing)
  ultimately have "op_inv (s\<lparr>os_db := ?db, os_calls := (os_calls s)[k := ?c]\<rparr>)"
    by (intro op_inv_stage[OF inv k _ _ _ ok]) (use db_good_note[OF op_invD(1)[OF inv], of ?e] ran in \<open>auto simp: log fun_eq_iff\<close>)
  then show ?thesis by (simp add: run_returns_def Executing note_in_def set_call_def op_inv_def)
qed (simp_all add: run_returns_def inv)

lemma after_verdict_ok:
  assumes "call_ok log heap calls (Completing i hash a oc row m)"
  shows "call_ok log heap calls (after_verdict i hash a oc row n final v)"
    and "flight (after_verdict i hash a oc row n final v) = Some (i, a)"
    and "\<not> is_executing i' (after_verdict i hash a oc row n final v)"
  using assms by (auto simp: after_verdict_def split: verdict.split)

lemma try_complete_inv:
  assumes inv: "op_inv s" and k: "k < length (os_calls s)"
  shows "op_inv (try_complete update k (os_calls s ! k) j s)"
proof (cases "os_calls s ! k")
  case (Completing i hash a oc row n)
  obtain v db' where u: "complete_update update row (os_db s) = (v, db')" by fastforce
  have c: "call_ok (db_log (os_db s)) (os_heap s) (os_calls s) (Completing i hash a oc row n)"
    using op_invD(2)[OF inv nth_mem[OF k]] by (simp add: Completing)
  then have "db_step (os_db s) db'"
    using complete_update_step[OF op_invD(1)[OF inv], of row update] by (auto simp: u row_for_def)
  then have inv': "op_inv (s\<lparr>os_db := db'\<rparr>)" by (rule op_inv_db_same[OF inv])
  then have "call_ok (db_log db') (os_heap s) (os_calls s) (Completing i hash a oc row n)"
    using op_invD(2)[OF inv', of "os_calls s ! k"] k by (simp add: Completing[symmetric])
  from after_verdict_ok[OF this] show ?thesis
    using op_inv_set_call[OF inv', of k "after_verdict i hash a oc row (n - 1) ErrStatement v"] k
    by (simp add: try_complete_def Completing u)
qed (simp_all add: try_complete_def inv)

lemma inspect_inv:
  assumes inv: "op_inv s" and k: "k < length (os_calls s)"
  shows "op_inv (inspect_row fault k (os_calls s ! k) j s)"
proof (cases "os_calls s ! k")
  case (Inspecting i hash a oc row n)
  have "call_ok (db_log (os_db s)) (os_heap s) (os_calls s) (Completing i hash a oc row n)"
    using op_invD(2)[OF inv nth_mem[OF k]] by (simp add: Inspecting)
  from after_verdict_ok[OF this] show ?thesis
    using op_inv_set_call[OF inv k] by (simp add: inspect_row_def Inspecting)
qed (simp_all add: inspect_row_def inv)

text \<open>
  Finishing writes the outcome into the entry. Whoever has a claim on that address claims it
  for the same operation and the same hash.
\<close>

lemma claims_finish:
  assumes cl: "claims log heap calls i hash a" and c: "c \<in> set calls" "flight c = Some (i', b)" and "Ended i' hash' oc \<in> set log"
    and "claims log heap calls i' hash' b" and "oe_hash en = oe_hash (heap ! b)" and "oe_err en = None \<Longrightarrow> oe_outcome en = oc"
  shows "claims log (heap[b := en]) calls i hash a"
proof (cases "a = b")
  case True
  have i: "i' = i" using cl c True unfolding claims_def by blast
  have b: "b < length heap" "oe_hash (heap ! b) = hash" "hash' = hash" and rest: "\<forall>c\<in>set calls. \<forall>i''. flight c = Some (i'', b) \<longrightarrow> i'' = i"
    using cl assms(5) True by (simp_all add: claims_def)
  have "oe_err en \<noteq> None \<or> Ended i hash (oe_outcome en) \<in> set log" using assms(4,7) i b(3) by blast
  then show ?thesis unfolding claims_def True using b rest assms(6) by simp
next
  case False
  then have "heap[b := en] ! a = heap ! a" by simp
  then show ?thesis using cl unfolding claims_def by simp
qed

lemma call_ok_finish:
  assumes "call_ok log heap calls d" and c: "c \<in> set calls" "flight c = Some (i', b)" and "Ended i' hash' oc \<in> set log"
    and "claims log heap calls i' hash' b" and "oe_hash en = oe_hash (heap ! b)" and "oe_err en = None \<Longrightarrow> oe_outcome en = oc"
  shows "call_ok log (heap[b := en]) calls d"
  using assms(1) by (cases d) (auto intro: claims_finish[OF _ assms(2-7)])

lemma op_finish_inv:
  assumes inv: "op_inv s" and j: "os_journal s = Some j" and k: "k < length (os_calls s)"
  shows "op_inv (finish_call k (os_calls s ! k) j s)"
proof (cases "os_calls s ! k")
  case (Finishing i hash a oc e)
  let ?c = "os_calls s ! k"
  obtain j' heap' where f: "Execute_finish i a oc e j (os_heap s) = (j', heap')" by fastforce
  obtain en where en: "heap' = (os_heap s)[a := en]" "oe_hash en = oe_hash (os_heap s ! a)" "oe_err en = None \<Longrightarrow> oe_outcome en = oc"
      and j': "oj_store j' = oj_store j" "oj_entries j' = oj_entries j"
    using f by (auto simp: Execute_finish_def Let_def split: if_splits option.splits)
  have cl: "claims (db_log (os_db s)) (os_heap s) (os_calls s) i hash a" and ended: "Ended i hash oc \<in> set (db_log (os_db s))"
    using op_invD(2)[OF inv nth_mem[OF k]] by (simp_all add: Finishing)
  have fl: "?c \<in> set (os_calls s)" "flight ?c = Some (i, a)" using nth_mem[OF k] by (simp_all add: Finishing)
  let ?s = "s\<lparr>os_journal := Some j', os_heap := heap'\<rparr>"
  have "call_ok (db_log (os_db s)) heap' (os_calls s) d" if "d \<in> set (os_calls s)" for d
    unfolding en(1) by (rule call_ok_finish[OF op_invD(2)[OF inv that] fl ended cl en(2,3)])
  moreover have "entries_ok (db_log (os_db s)) heap' (os_calls s) j'"
    unfolding entries_ok_def
  proof (intro conjI allI impI)
    fix i' b
    assume "map_of (oj_entries j') i' = Some b"
    then have b: "claims (db_log (os_db s)) (os_heap s) (os_calls s) i' (oe_hash (os_heap s ! b)) b"
      using op_invD(4)[OF inv j] by (simp add: entries_ok_def j')
    then have "oe_hash (heap' ! b) = oe_hash (os_heap s ! b)" using en(2) by (cases "b = a") (simp_all add: en(1) claims_def)
    then show "claims (db_log (os_db s)) heap' (os_calls s) i' (oe_hash (heap' ! b)) b"
      using claims_finish[OF b fl ended cl en(2,3)] by (simp add: en(1))
  qed (use op_invD(4)[OF inv j] in \<open>simp add: entries_ok_def j'\<close>)
  ultimately have s: "op_inv ?s" using op_invD(1,3)[OF inv] by (simp add: op_inv_def)
  have "op_inv (set_call k Answered_op ?s)" by (rule op_inv_set_call[OF s]) (simp_all add: k)
  then have "op_inv (reply_to i hash (oc, False, map_option ErrNotPersisted e) (set_call k Answered_op ?s))"
    by (rule op_inv_reply) (simp add: set_call_def ended)
  then show ?thesis by (simp add: finish_call_def Finishing f)
qed (simp_all add: finish_call_def inv)

text \<open>Starting a call.\<close>

lemma evict_entries_sub:
  "evict_entries m entries order = (entries', order') \<Longrightarrow> map_of entries' i = Some a \<Longrightarrow> map_of entries i = Some a"
  by (induction m entries order rule: evict_entries.induct) (auto simp: delete_conv' split: if_splits)

lemma make_room_sub:
  "map_of (oj_entries (make_room j)) i = Some a \<Longrightarrow> map_of (oj_entries j) i = Some a"
  "oj_store (make_room j) = oj_store j" "oj_retention (make_room j) = oj_retention j"
  by (auto simp: make_room_def evict_entries_sub split: prod.splits)

lemma cleanup_step:
  assumes "cleanup_expired env j db = ((e, j'), db')" and "db_good db"
  shows "db_step db db'" and "oj_entries j' = oj_entries j" and "oj_store j' = oj_store j"
  using assms DeleteExpiredOperations_step[OF assms(2), of "be_cleanup env" "be_now env"]
  by (auto simp: cleanup_expired_def db_step_refl split: if_splits prod.splits option.splits)

lemma ReserveOperation_cases:
  assumes "ReserveOperation ins fault i hash expires db = (Inr (row, new), db')"
  shows "if new then db' = put_pending (pending_row i hash expires) db
         else db' = db \<and> map_of (db_rows db) i = Some row \<and> op_hash row = hash"
  using assms by (auto simp: ReserveOperation_def Let_def split: option.splits answer.splits if_splits)

lemma reserve_step:
  assumes r: "reserve_in_store env i hash j db = ((r, j'), db')" and db: "db_good db"
  shows "db_step db db'" and "oj_entries j' = oj_entries j" and "oj_store j' = oj_store j"
    and "r = None \<Longrightarrow> \<exists>ys. db_log db' = ys @ [Inserted (pending_row i hash (be_reserveNow env + oj_retention j))]"
    and "r = Some (oc, replay, None) \<Longrightarrow> prefix persistencePrefix i \<or> Ended i hash oc \<in> set (db_log db')"
proof -
  obtain e j1 db1 where c: "cleanup_expired env j db = ((e, j1), db1)" by (metis surj_pair)
  note cs = cleanup_step[OF c db]
  have db1: "db_good db1" using cs(1) by (rule db_step_good)
  obtain v db2 where v: "ReserveOperation (be_insert env) (be_select env) i hash (be_reserveNow env + oj_retention j) db1 = (v, db2)"
    by fastforce
  have vs: "db_step db1 db2" using ReserveOperation_step[OF db1, of "be_insert env" "be_select env" i hash] by (metis v snd_conv)
  note unfolded = r[unfolded reserve_in_store_def c, simplified]
  have j': "j' = j1" and db': "db' = (if e = None then db2 else db1)"
    using unfolded by (auto simp: v split: option.splits sum.splits operation_error.splits prod.splits bool.splits)
  show "db_step db db'" "oj_entries j' = oj_entries j" "oj_store j' = oj_store j"
    using cs vs db_step_trans by (auto simp: j' db')
  show "\<exists>ys. db_log db' = ys @ [Inserted (pending_row i hash (be_reserveNow env + oj_retention j))]" if none: "r = None"
  proof -
    obtain row where "e = None" "v = Inr (row, True)"
      using unfolded none by (auto simp: v split: option.splits sum.splits operation_error.splits prod.splits bool.splits)
    with ReserveOperation_cases[OF v[unfolded \<open>v = _\<close>]] show ?thesis by (simp add: db' put_pending_def note_event_def)
  qed
  show "prefix persistencePrefix i \<or> Ended i hash oc \<in> set (db_log db')" if some: "r = Some (oc, replay, None)"
  proof -
    obtain row where v': "e = None" "v = Inr (row, False)" and oc: "op_state row \<noteq> ''pending''" "oc = row_outcome row"
      using unfolded some by (auto simp: v no_reply_def split: option.splits sum.splits operation_error.splits prod.splits bool.splits if_splits)
    have "db2 = db1" "map_of (db_rows db1) i = Some row" "op_hash row = hash"
      using ReserveOperation_cases[OF v[unfolded v'(2)]] by simp_all
    with db1 oc v'(1) show ?thesis by (auto simp: db' db_good_def rows_true_def)
  qed
qed

definition fewer_entries :: "op_journal \<Rightarrow> op_journal \<Rightarrow> bool" where
  "fewer_entries j j' \<longleftrightarrow> oj_store j' \<and> (\<forall>i a. map_of (oj_entries j') i = Some a \<longrightarrow> map_of (oj_entries j) i = Some a)"

definition fresh_entry :: "bytes \<Rightarrow> op_entry" where
  "fresh_entry hash = \<lparr>oe_hash = hash, oe_done = False, oe_outcome = no_outcome, oe_complete = False, oe_err = None\<rparr>"

text \<open>The three ways in which the first critical section of \<^verbatim>\<open>Execute\<close> ends.\<close>

definition begun_ok ::
  "begin_env \<Rightarrow> string \<Rightarrow> bytes \<Rightarrow> op_journal \<Rightarrow> op_entry list \<Rightarrow> op_db \<Rightarrow> begun \<Rightarrow> op_journal \<Rightarrow> op_entry list \<Rightarrow> op_db \<Rightarrow> bool" where
  "begun_ok env i hash j heap db b j' heap' db' \<longleftrightarrow>
     (case b of
        Reply_now r \<Rightarrow>
          heap' = heap \<and> db_step db db' \<and> fewer_entries j j' \<and>
          (snd (snd r) = None \<longrightarrow> prefix persistencePrefix i \<or> Ended i hash (fst r) \<in> set (db_log db'))
      | Wait_on a \<Rightarrow>
          j' = j \<and> heap' = heap \<and> db' = db \<and> map_of (oj_entries j) i = Some a \<and> oe_hash (heap ! a) = hash
      | Run_as a \<Rightarrow>
          a = length heap \<and> heap' = heap @ [fresh_entry hash] \<and> db_step db db' \<and>
          (\<exists>ys. db_log db' = ys @ [Inserted (pending_row i hash (be_reserveNow env + oj_retention j))]) \<and>
          (\<exists>j2. fewer_entries j j2 \<and> j' = j2\<lparr>oj_entries := AList.update i a (oj_entries j2)\<rparr>))"

lemma Execute_begin_ok:
  assumes e: "Execute_begin canonicalHash env i request j heap db = (b, j', heap', db')"
    and db: "db_good db" and st: "oj_store j"
  shows "begun_ok env i (case canonicalHash request of Some h \<Rightarrow> h | None \<Rightarrow> []) j heap db b j' heap' db'"
proof -
  have same: "fewer_entries j j" using st by (simp add: fewer_entries_def)
  have room: "fewer_entries j (make_room j)"
    using st make_room_sub(1)[of j] by (simp add: fewer_entries_def make_room_sub(2))
  note step0 = db_step_refl[OF db]
  show ?thesis
  proof (cases "length i < 8 \<or> 128 < length i \<or> canonicalHash request = None")
    case True
    then have "(b, j', heap', db') = (Reply_now (no_reply ErrInvalidOperationID), j, heap, db) \<or>
        (b, j', heap', db') = (Reply_now (no_reply ErrInvalidRequest), j, heap, db)"
      unfolding e[symmetric] Execute_begin_def by (cases "length i < 8 \<or> 128 < length i") simp_all
    then show ?thesis using same step0 by (auto simp: begun_ok_def no_reply_def)
  next
    case False
    then obtain hash where h: "canonicalHash request = Some hash" by auto
    let ?j = "make_room j"
    obtain r j2 db2 where r: "reserve_in_store env i hash ?j db = ((r, j2), db2)" by (metis surj_pair)
    note rs = reserve_step[OF r db]
    have fewer: "fewer_entries j j2" using room rs(2,3) by (simp add: fewer_entries_def)
    have st': "oj_store ?j" using st by (simp add: make_room_sub(2))
    note ret = make_room_sub(3)[of j]
    note e' = e[unfolded Execute_begin_def h r Let_def, symmetric]
    consider (known) a where "map_of (oj_entries j) i = Some a"
      | (full) "map_of (oj_entries j) i = None" "oj_max ?j \<le> int (length (oj_entries ?j))"
      | (answer) x where "map_of (oj_entries j) i = None" "\<not> oj_max ?j \<le> int (length (oj_entries ?j))" "r = Some x"
      | (go) "map_of (oj_entries j) i = None" "\<not> oj_max ?j \<le> int (length (oj_entries ?j))" "r = None"
      by (cases "map_of (oj_entries j) i"; cases r; cases "oj_max ?j \<le> int (length (oj_entries ?j))"; blast)
    then show ?thesis
    proof cases
      case known
      then show ?thesis using e' False same step0 by (auto simp: h begun_ok_def no_reply_def split: if_splits)
    next
      case full
      then show ?thesis using e' False room step0 by (simp add: h begun_ok_def no_reply_def)
    next
      case answer
      obtain oc replay err where x: "x = (oc, replay, err)" by (cases x) auto
      show ?thesis using e' False answer rs(1) rs(5)[of oc replay] fewer by (simp add: h r begun_ok_def st' x)
    next
      case go
      have "fewer_entries j j2 \<and> j2\<lparr>oj_entries := AList.update i (length heap) (oj_entries j2)\<rparr> = j2\<lparr>oj_entries := AList.update i (length heap) (oj_entries j2)\<rparr>"
        using fewer by simp
      with e' False go rs(1) rs(4)[OF go(3)] show ?thesis by (auto simp: h r begun_ok_def st' fresh_entry_def ret)
    qed
  qed
qed

lemma op_inv_wait:
  assumes inv: "op_inv s" and cl: "claims (db_log (os_db s)) (os_heap s) (os_calls s) i hash a"
  shows "op_inv (s\<lparr>os_calls := os_calls s @ [WaitingFor i hash a]\<rparr>)"
proof -
  let ?calls = "os_calls s @ [WaitingFor i hash a]"
  have fo: "follows (os_calls s) ?calls" by (rule follows_none) simp
  have "call_ok (db_log (os_db s)) (os_heap s) (os_calls s) c" if "c \<in> set ?calls" for c
    using that op_invD(2)[OF inv] cl by auto
  then have "call_ok (db_log (os_db s)) (os_heap s) ?calls c" if "c \<in> set ?calls" for c
    by (rule call_ok_mono[OF _ _ _ _ fo]) (use that in simp_all)
  moreover have "entries_ok (db_log (os_db s)) (os_heap s) ?calls j" if "os_journal s = Some j" for j
    using op_invD(4)[OF inv that] by (intro entries_ok_mono[OF op_invD(4)[OF inv that] _ _ _ fo]) (auto simp: entries_ok_def)
  ultimately show ?thesis using op_invD(1,3)[OF inv] by (simp add: op_inv_def)
qed

text \<open>A new entry has a fresh address, which nobody can have a claim on.\<close>

lemma claims_fresh:
  assumes "claims log heap calls i hash a" and "set log \<subseteq> set log'" and "flight c = Some (i', length heap)"
  shows "claims log' (heap @ [en]) (calls @ [c]) i hash a"
  using assms by (auto simp: claims_def nth_append)

lemma call_ok_fresh:
  assumes "call_ok log heap calls d" and "set log \<subseteq> set log'" and "flight c = Some (i', length heap)"
  shows "call_ok log' (heap @ [en]) (calls @ [c]) d"
  using assms by (cases d) (auto intro: claims_fresh)

lemma flight_below: "call_ok log heap calls c \<Longrightarrow> flight c = Some (i, a) \<Longrightarrow> a < length heap"
  by (cases c) (auto simp: claims_def)

lemma op_inv_run:
  assumes inv: "op_inv s" and j: "os_journal s = Some j" and ok: "begun_ok env i hash j (os_heap s) (os_db s) (Run_as a) j' heap' db'"
  shows "op_inv (note_in (Ran i hash (be_reserveNow env + oj_retention j))
    (s\<lparr>os_db := db', os_journal := Some j', os_heap := heap', os_calls := os_calls s @ [Executing i hash a]\<rparr>))"
proof -
  let ?e = "Ran i hash (be_reserveNow env + oj_retention j)" and ?c = "Executing i hash a"
  let ?log = "db_log db' @ [?e]" and ?calls = "os_calls s @ [Executing i hash a]"
  obtain ys j2 where a: "a = length (os_heap s)" and heap': "heap' = os_heap s @ [fresh_entry hash]" and st: "db_step (os_db s) db'"
      and ys: "db_log db' = ys @ [Inserted (pending_row i hash (be_reserveNow env + oj_retention j))]"
      and j2: "fewer_entries j j2" "j' = j2\<lparr>oj_entries := AList.update i a (oj_entries j2)\<rparr>"
    using ok by (auto simp: begun_ok_def)
  obtain es where es: "db_log db' = db_log (os_db s) @ es" "list_all row_event es" using st by (auto simp: db_step_def)
  have sub: "set (db_log (os_db s)) \<subseteq> set ?log" by (auto simp: es(1))
  have good: "db_good (note_event ?e db')" by (rule db_good_note[OF db_step_good[OF st]]) (auto simp: ys)
  have old: "call_ok ?log heap' ?calls c" if "c \<in> set (os_calls s)" for c
    unfolding heap' by (rule call_ok_fresh[OF op_invD(2)[OF inv that] sub]) (simp add: a)
  have below: "b < length (os_heap s)" if "c \<in> set (os_calls s)" "flight c = Some (i', b)" for c i' b
    using op_invD(2)[OF inv that(1)] that(2) by (rule flight_below)
  have new: "claims ?log heap' ?calls i hash a" using below by (force simp: claims_def heap' a fresh_entry_def)
  then have "call_ok ?log heap' ?calls ?c" by auto
  moreover have "entries_ok ?log heap' ?calls j'"
    unfolding entries_ok_def
  proof (intro conjI allI impI)
    fix i' b
    assume b: "map_of (oj_entries j') i' = Some b"
    show "claims ?log heap' ?calls i' (oe_hash (heap' ! b)) b"
    proof (cases "i' = i")
      case True
      then have ab: "b = a" using b by (simp add: j2(2) update_conv')
      have "oe_hash (heap' ! a) = hash" by (simp add: heap' a fresh_entry_def)
      with new True ab show ?thesis by simp
    next
      case False
      with b j2 have c: "claims (db_log (os_db s)) (os_heap s) (os_calls s) i' (oe_hash (os_heap s ! b)) b"
        using op_invD(4)[OF inv j] by (auto simp: fewer_entries_def entries_ok_def update_conv')
      then have "heap' ! b = os_heap s ! b" by (simp add: claims_def heap' nth_append)
      with claims_fresh[OF c sub, of ?c i] show ?thesis by (simp add: heap' a)
    qed
  qed (use j2 in \<open>simp add: fewer_entries_def\<close>)
  moreover have "tally (is_ended i') ?log + tally (is_executing i') ?calls \<le> tally (is_ran i') ?log" for i'
    using op_invD(3)[OF inv, of i'] tally_rows[OF es(2), of i'] by (simp add: es(1))
  ultimately show ?thesis using good old by (auto simp: op_inv_def note_in_def note_event_def)
qed

lemma begin_inv:
  assumes inv: "op_inv s"
  shows "op_inv (begin_call canonicalHash env i request s)"
proof (cases "os_journal s")
  case (Some j)
  let ?h = "case canonicalHash request of Some h \<Rightarrow> h | None \<Rightarrow> []"
  obtain b j' heap' db' where e: "Execute_begin canonicalHash env i request j (os_heap s) (os_db s) = (b, j', heap', db')"
    by (metis surj_pair)
  let ?s = "s\<lparr>os_db := db', os_journal := Some j', os_heap := heap'\<rparr>"
  note ent = op_invD(4)[OF inv Some]
  have ok: "begun_ok env i ?h j (os_heap s) (os_db s) b j' heap' db'"
    by (rule Execute_begin_ok[OF e op_invD(1)[OF inv]]) (use ent in \<open>simp add: entries_ok_def\<close>)
  show ?thesis
  proof (cases b)
    case (Reply_now r)
    then have f: "heap' = os_heap s" "db_step (os_db s) db'" "fewer_entries j j'"
      "snd (snd r) = None \<Longrightarrow> prefix persistencePrefix i \<or> Ended i ?h (fst r) \<in> set (db_log db')"
      using ok by (simp_all add: begun_ok_def)
    have "op_inv (s\<lparr>os_db := db', os_journal := Some j'\<rparr>)"
      by (rule op_inv_db[OF inv f(2)]) (use f(3) Some in \<open>simp add: fewer_entries_def\<close>)
    then have "op_inv ?s" by (simp add: f(1) op_inv_def)
    then have "op_inv (reply_to i ?h r ?s)" by (rule op_inv_reply) (simp add: f(4))
    then show ?thesis by (simp add: begin_call_def Some e Reply_now Let_def)
  next
    case (Wait_on a)
    then have f0: "j' = j" "heap' = os_heap s" "db' = os_db s" "map_of (oj_entries j) i = Some a" "oe_hash (os_heap s ! a) = ?h"
      using ok by (simp_all add: begun_ok_def)
    have f: "?s = s" "claims (db_log (os_db s)) (os_heap s) (os_calls s) i ?h a"
      using ent Some f0(4) unfolding f0(1-3) f0(5)[symmetric] by (simp_all add: entries_ok_def)
    have "op_inv (s\<lparr>os_calls := os_calls s @ [WaitingFor i ?h a]\<rparr>)" by (rule op_inv_wait[OF inv f(2)])
    then show ?thesis by (simp add: begin_call_def Some e Wait_on f(1))
  next
    case (Run_as a)
    have "op_inv (note_in (Ran i ?h (be_reserveNow env + oj_retention j)) (?s\<lparr>os_calls := os_calls s @ [Executing i ?h a]\<rparr>))"
      by (rule op_inv_run[OF inv Some]) (use ok in \<open>simp add: Run_as\<close>)
    then show ?thesis by (simp add: begin_call_def Some e Run_as Let_def)
  qed
qed (simp add: begin_call_def inv)

text \<open>A new process: its entries are what the table says.\<close>

lemma recovered_entry_ok:
  assumes "recovered_entry row = Inr en"
  shows "oe_hash en = op_hash row" and "oe_err en = None \<Longrightarrow> op_state row \<noteq> ''pending'' \<and> oe_outcome en = row_outcome row"
  using assms by (auto simp: recovered_entry_def split: if_splits)

lemma load_entries_ok:
  assumes "load_entries rows j heap = Inr (j', heap')" and "entries_ok log heap [] j"
    and "\<And>row. row \<in> set rows \<Longrightarrow> op_state row \<noteq> ''pending'' \<Longrightarrow> \<not> prefix persistencePrefix (op_id row) \<Longrightarrow>
      Ended (op_id row) (op_hash row) (row_outcome row) \<in> set log"
  shows "entries_ok log heap' [] j'"
  using assms
proof (induction rows j heap rule: load_entries.induct)
  case (2 row rows j heap)
  obtain en where en: "recovered_entry row = Inr en" using "2.prems"(1) by (auto split: sum.splits)
  let ?j = "j\<lparr>oj_entries := AList.update (op_id row) (length heap) (oj_entries j),
              oj_order := (if op_state row = ''completed'' then oj_order j @ [op_id row] else oj_order j)\<rparr>"
  note r = recovered_entry_ok[OF en]
  have "entries_ok log (heap @ [en]) [] ?j"
    unfolding entries_ok_def
  proof (intro conjI allI impI)
    fix i a
    assume a: "map_of (oj_entries ?j) i = Some a"
    show "claims log (heap @ [en]) [] i (oe_hash ((heap @ [en]) ! a)) a"
    proof (cases "i = op_id row")
      case True
      then have "a = length heap" using a by (simp add: update_conv')
      then show ?thesis using "2.prems"(3)[of row] r True by (cases "oe_err en") (auto simp: claims_def)
    next
      case False
      then have c: "claims log heap [] i (oe_hash (heap ! a)) a" using a "2.prems"(2) by (simp add: update_conv' entries_ok_def)
      then have "(heap @ [en]) ! a = heap ! a" by (simp add: claims_def nth_append)
      with claims_mono[OF c, of log "heap @ [en]" "[]"] show ?thesis by simp
    qed
  qed (use "2.prems"(2) in \<open>simp add: entries_ok_def\<close>)
  then show ?case using "2.IH"[OF en] "2.prems"(1,3) by (simp add: en)
qed simp

lemma op_start_inv:
  assumes inv: "op_inv s"
  shows "op_inv (start_process delete fault maxEntries retention now s)"
proof (cases "os_journal s = None \<and> \<not> retention \<le> 0 \<and> \<not> maxEntries < 1")
  case True
  obtain res db' where l: "OperationsExcludingPrefix delete fault persistencePrefix now (nat maxEntries) (os_db s) = (res, db')" by fastforce
  have st: "db_step (os_db s) db'"
    using operationsByPrefix_step[OF op_invD(1)[OF inv], of delete fault persistencePrefix True now "nat maxEntries"] l
    by (simp add: OperationsExcludingPrefix_def)
  then have inv': "op_inv (s\<lparr>os_db := db'\<rparr>)" by (rule op_inv_db_same[OF inv])
  have good: "db_good db'" using st by (rule db_step_good)
  define j0 where "j0 = \<lparr>oj_max = maxEntries, oj_entries = [], oj_order = [], oj_store = True, oj_retention = retention, oj_lastCleanup = now\<rparr>"
  have "op_inv (s\<lparr>os_db := db', os_journal := Some j, os_heap := heap, os_calls := []\<rparr>)"
    if res: "res = Inr rows" and ld: "load_entries rows j0 [] = Inr (j, heap)" for rows j heap
  proof -
    have ok: "db_ok db'" and tr: "rows_true db'" using good by (simp_all add: db_good_def)
    have row: "map_of (db_rows db') (op_id row) = Some row" if mem: "row \<in> set rows" for row
    proof -
      obtain i where "(i, row) \<in> set (db_rows db')"
        using operationsByPrefix_rows[OF l[unfolded OperationsExcludingPrefix_def res]] mem by fastforce
      then have "map_of (db_rows db') i = Some row" by (rule map_of_is_SomeI[OF db_okD(3)[OF ok]])
      with db_okD(4)[OF ok this] show ?thesis by simp
    qed
    have "entries_ok (db_log db') heap [] j"
      by (rule load_entries_ok[OF ld]) (use row tr in \<open>simp_all add: j0_def entries_ok_def rows_true_def\<close>)
    moreover have "tally (is_ended i) (db_log db') \<le> tally (is_ran i) (db_log db')" for i
      using op_invD(3)[OF inv', of i] by simp
    ultimately show ?thesis using good by (simp add: op_inv_def)
  qed
  then show ?thesis using inv' True
    by (simp add: start_process_def NewPersistentJournal_def NewJournal_def l j0_def[symmetric] split: sum.split)
qed (auto simp: start_process_def NewPersistentJournal_def NewJournal_def inv)

lemma exec_inv:
  assumes "op_inv s"
  shows "op_inv (op_exec canonicalHash p s)"
proof -
  have at: "op_inv (at_call k f s)" if "\<And>j. os_journal s = Some j \<Longrightarrow> k < length (os_calls s) \<Longrightarrow> op_inv (f (os_calls s ! k) j s)" for k f
    using assms that by (simp add: at_call_def split: option.split)
  note good = op_invD(1)[OF assms]
  note ops = begin_inv op_start_inv wake_inv cancel_inv run_returns_inv try_complete_inv inspect_inv op_finish_inv
  show ?thesis
  proof (cases p)
    case Stop_process
    then show ?thesis using op_invD(1,3)[OF assms] by (auto simp: op_inv_def dest: add_leD1)
  next
    case (Exec_reserve ins fault i hash expires)
    then show ?thesis using op_inv_db_same[OF assms ReserveOperation_step[OF good]] by simp
  next
    case (Exec_complete answers row)
    have "db_step (os_db s) (snd (CompleteOperation answers (exec_row row) (os_db s)))"
      using good by (simp add: CompleteOperation_def db_step_refl exec_complete_loop_step exec_row_def)
    with Exec_complete show ?thesis by (simp add: op_inv_db_same[OF assms])
  next
    case (Exec_load delete fault now limit)
    then show ?thesis using op_inv_db_same[OF assms operationsByPrefix_step[OF good]] by (simp add: OperationsWithPrefix_def)
  qed (auto intro!: at ops assms)
qed

lemma new_op_sys_inv: "op_inv new_op_sys"
  by (simp add: op_inv_def new_op_sys_def db_good_def db_ok_def rows_true_def)

interpretation op_run: machine "op_exec canonicalHash" op_inv "\<lambda>_. True" for canonicalHash
  by unfold_locales (rule exec_inv)

definition op_log :: "(bytes \<Rightarrow> bytes option) \<Rightarrow> op_step list \<Rightarrow> op_event list" where
  "op_log canonicalHash steps = db_log (os_db (fold (op_exec canonicalHash) steps new_op_sys))"

lemma op_log_inv: "op_inv (fold (op_exec canonicalHash) steps new_op_sys)"
  by (rule op_run.run) (simp_all add: new_op_sys_inv list_all_iff)

lemma op_log_ok: "log_ok (op_log canonicalHash steps)"
  using op_invD(1)[OF op_log_inv[of canonicalHash steps]] by (simp add: op_log_def db_good_def db_okD(1))

section \<open>At most once\<close>

text \<open>A day in the life of one operation: it runs, is asked for again, and runs anew when its row has expired.\<close>

definition sample_begin :: "int \<Rightarrow> op_step" where
  "sample_begin t = Begin_call \<lparr>be_now = t, be_cleanup = Fine, be_reserveNow = t, be_insert = Fine, be_select = False\<rparr> ''operation'' ''request''"

definition sample_outcome :: op_outcome where
  "sample_outcome = \<lparr>oc_result = ''result'', oc_error = []\<rparr>"

definition sample_once :: "op_step list" where
  "sample_once =
     [Start_process Fine False 4 10 0, sample_begin 1, sample_begin 2, Run_returns 0 sample_outcome 3, Try_complete 0 Busy,
      Try_complete 0 Fine, Finish_call 0, Wake_call 1, Stop_process]"

definition sample_twice :: "op_step list" where
  "sample_twice = sample_once @ [Start_process Fine False 4 10 20, sample_begin 21]"

lemmas op_run_defs =
  op_log_def new_op_sys_def sample_begin_def sample_outcome_def begin_call_def Execute_begin_def make_room_def reserve_in_store_def
  cleanup_expired_def cleanupInterval_def ReserveOperation_def put_pending_def pending_row_def note_event_def note_in_def
  at_call_def run_returns_def Execute_ran_def MaxOperationResultBytes_def completed_row_def complete_attempts_def set_call_def
  try_complete_def complete_update_def awaits_def set_completed_def after_verdict_def finish_call_def Execute_finish_def
  reply_to_def wake_call_def start_process_def NewPersistentJournal_def NewJournal_def OperationsExcludingPrefix_def
  operationsByPrefix_def DeleteExpiredOperations_def delete_expired_def persistencePrefix_def no_outcome_def Let_def

definition sample_row :: "int \<Rightarrow> op_row" where
  "sample_row t = pending_row ''operation'' ''request'' t"

definition sample_done :: op_row where
  "sample_done = completed_row ''operation'' ''request'' sample_outcome 3 10"

lemma sample_once_log:
  "op_log Some sample_once =
     [Inserted (sample_row 11), Ran ''operation'' ''request'' 11, Ended ''operation'' ''request'' sample_outcome, Updated sample_done,
      Replied ''operation'' ''request'' sample_outcome False, Replied ''operation'' ''request'' sample_outcome True]"
  by (simp add: sample_once_def sample_row_def sample_done_def op_run_defs)

lemma sample_twice_log:
  "op_log Some sample_twice =
     op_log Some sample_once @ [Purged sample_done 20, Inserted (sample_row 31), Ran ''operation'' ''request'' 31]"
  unfolding sample_once_log
  by (simp add: sample_twice_def sample_once_def sample_row_def sample_done_def op_run_defs)

text \<open>
  C7. An operation runs at most once while its row is kept. Whatever calls of \<^verbatim>\<open>Execute\<close>
  overlap, whatever the database answers (a statement refused, or applied with its answer lost)
  and wherever the process stops and starts again, two runs under one name have a deletion of
  the row of that name between them, made for a time that is not before the expiry of the row:
  the one set when the operation was reserved, or the one set when it was completed.
\<close>

theorem operation_runs_once:
  assumes "op_log canonicalHash steps = xs @ Ran i hash expires # ys @ Ran i hash' expires' # zs"
  shows "\<exists>row now. Purged row now \<in> set ys \<and> op_id row = i \<and> op_expires row \<le> now \<and>
    (row = pending_row i hash expires \<or> Updated row \<in> set ys)"
  by (rule runs_apart[OF op_log_ok assms])

theorem operation_runs_once_witness:
  "\<exists>row now. Purged row now \<in> set [Ended ''operation'' ''request'' sample_outcome, Updated sample_done,
       Replied ''operation'' ''request'' sample_outcome False, Replied ''operation'' ''request'' sample_outcome True,
       Purged sample_done 20, Inserted (sample_row 31)] \<and> op_id row = ''operation'' \<and> op_expires row \<le> now \<and>
    (row = pending_row ''operation'' ''request'' 11 \<or> Updated row \<in> set [Ended ''operation'' ''request'' sample_outcome, Updated sample_done,
       Replied ''operation'' ''request'' sample_outcome False, Replied ''operation'' ''request'' sample_outcome True,
       Purged sample_done 20, Inserted (sample_row 31)])"
  by (rule operation_runs_once[of Some sample_twice "[Inserted (sample_row 11)]" "''operation''" "''request''" 11 _ "''request''" 31 "[]"])
    (simp add: sample_twice_log sample_once_log)

section \<open>Everybody hears the same\<close>

lemma tally_two:
  "2 \<le> tally P xs \<Longrightarrow> \<exists>as a bs b cs. xs = as @ a # bs @ b # cs \<and> P a \<and> P b"
proof -
  assume t: "2 \<le> tally P xs"
  then have "\<exists>a\<in>set xs. P a" unfolding tally_def by (cases "filter P xs") (auto simp: filter_eq_Cons_iff)
  then obtain as a ys where xs: "xs = as @ a # ys" "P a" "\<forall>x\<in>set as. \<not> P x" by (elim split_list_first_propE)
  then have "1 \<le> tally P ys" using t by (simp add: tally_def filter_False)
  then have "\<exists>b\<in>set ys. P b" unfolding tally_def by (cases "filter P ys") (auto simp: filter_eq_Cons_iff)
  then obtain bs b cs where "ys = bs @ b # cs" "P b" by (meson split_list)
  with xs show ?thesis by blast
qed

lemma tally_unique:
  assumes "tally P xs \<le> 1" and "x \<in> set xs" "y \<in> set xs" "P x" "P y"
  shows "x = y"
proof -
  have "x \<in> set (filter P xs)" "y \<in> set (filter P xs)" using assms by simp_all
  with assms(1) show ?thesis unfolding tally_def by (cases "filter P xs") auto
qed

lemma is_ranE: "is_ran i e \<Longrightarrow> (\<And>hash expires. e = Ran i hash expires \<Longrightarrow> thesis) \<Longrightarrow> thesis"
  by (cases e) auto



end
