(* ===== verification/Operation_Limits.thy ===== *)
theory Operation_Limits
  imports Operation_Once
begin

text \<open>
  Two ways in which the operation journal stops a host from working: entries whose outcome could
  not be stored are never evicted, and names that look like those of the exec manager
  (\<^verbatim>\<open>internal/hostruntime/execprocess/manager.go\<close>, whose start is modelled here) keep it from
  starting.
\<close>

section \<open>Entries that are never evicted\<close>

text \<open>A journal with no room, nothing to evict and no operation under way.\<close>

definition jammed :: "op_sys \<Rightarrow> bool" where
  "jammed s \<longleftrightarrow>
     (\<exists>j. os_journal s = Some j \<and> oj_order j = [] \<and> oj_max j \<le> int (length (oj_entries j))) \<and>
     list_all (\<lambda>c. flight c = None) (os_calls s)"

definition quiet_since :: "op_event list \<Rightarrow> op_sys \<Rightarrow> bool" where
  "quiet_since log s \<longleftrightarrow> (\<exists>es. db_log (os_db s) = log @ es \<and> (\<forall>i hash expires. Ran i hash expires \<notin> set es))"

lemma quiet_note: "quiet_since log s \<Longrightarrow> (\<And>i hash expires. e \<noteq> Ran i hash expires) \<Longrightarrow> quiet_since log (note_in e s)"
  by (force simp: quiet_since_def note_in_def note_event_def)

lemma quiet_db:
  assumes "quiet_since log s" and "db_step (os_db s) db'"
  shows "quiet_since log (s\<lparr>os_db := db'\<rparr>)"
proof -
  obtain es es' where es: "db_log (os_db s) = log @ es" "\<forall>i hash expires. Ran i hash expires \<notin> set es"
      and es': "db_log db' = db_log (os_db s) @ es'" "list_all row_event es'"
    using assms by (auto simp: quiet_since_def db_step_def)
  have "Ran i hash expires \<notin> set es'" for i hash expires using es'(2) by (auto simp: list_all_iff)
  then have "db_log db' = log @ es @ es' \<and> (\<forall>i hash expires. Ran i hash expires \<notin> set (es @ es'))"
    using es es'(1) by simp
  then show ?thesis unfolding quiet_since_def by (intro exI[of _ "es @ es'"]) simp
qed

lemma jammed_reply:
  "jammed s \<Longrightarrow> jammed (reply_to i hash r s)" "quiet_since log s \<Longrightarrow> quiet_since log (reply_to i hash r s)"
  by (auto simp: reply_to_def jammed_def note_in_def quiet_note[unfolded note_in_def] split: prod.split option.split)

lemma jammed_answered:
  assumes "jammed s"
  shows "jammed (set_call k Answered_op s)" and "quiet_since log s \<Longrightarrow> quiet_since log (set_call k Answered_op s)"
  using assms set_update_subset_insert[of "os_calls s" k Answered_op]
  by (auto simp: jammed_def set_call_def list_all_iff quiet_since_def)

lemma jammed_begin:
  assumes "jammed s" and "quiet_since log s"
  shows "jammed (begin_call canonicalHash env i request s) \<and> quiet_since log (begin_call canonicalHash env i request s)"
proof -
  obtain j where j: "os_journal s = Some j" "oj_order j = []" "oj_max j \<le> int (length (oj_entries j))"
    using assms(1) by (auto simp: jammed_def)
  have room: "make_room j = j" using j(2) by (simp add: make_room_def)
  have same: "s\<lparr>os_journal := Some j\<rparr> = s" by (simp flip: j(1))
  then have same': "s\<lparr>os_journal := Some j, os_calls := calls\<rparr> = s\<lparr>os_calls := calls\<rparr>" for calls by simp
  have wait: "jammed (s\<lparr>os_calls := os_calls s @ [WaitingFor i h a]\<rparr>) \<and> quiet_since log (s\<lparr>os_calls := os_calls s @ [WaitingFor i h a]\<rparr>)" for h a
    using assms by (simp add: jammed_def quiet_since_def)
  show ?thesis
    by (simp add: begin_call_def j(1) Execute_begin_def room j(3) same same' Let_def wait assms jammed_reply split: option.split)
qed

lemma jammed_step:
  assumes inv: "op_inv s" and jam: "jammed s" "quiet_since log s" and p: "p \<noteq> Stop_process"
  shows "jammed (op_exec canonicalHash p s) \<and> quiet_since log (op_exec canonicalHash p s)"
proof -
  note good = op_invD(1)[OF inv]
  have db: "jammed (s\<lparr>os_db := db'\<rparr>) \<and> quiet_since log (s\<lparr>os_db := db'\<rparr>)" if "db_step (os_db s) db'" for db'
    using jam quiet_db[OF jam(2) that] by (simp add: jammed_def)
  have calls: "flight (os_calls s ! k) = None" if "k < length (os_calls s)" for k
    using jam(1) that by (simp add: jammed_def list_all_length)
  have at: "jammed (at_call k f s) \<and> quiet_since log (at_call k f s)"
    if "\<And>c j. flight c = None \<Longrightarrow> jammed (f c j s) \<and> quiet_since log (f c j s)" for k f
    using jam calls[of k] that by (simp add: at_call_def split: option.split)
  have exec: "db_step (os_db s) (snd (CompleteOperation answers (exec_row row) (os_db s)))" for answers row
    using good by (simp add: CompleteOperation_def db_step_refl exec_complete_loop_step exec_row_def)
  note defs = wake_call_def cancel_call_def run_returns_def try_complete_def inspect_row_def finish_call_def
  show ?thesis
    using p jam jammed_begin[OF jam] db[OF ReserveOperation_step[OF good]] db[OF exec] db[OF operationsByPrefix_step[OF good]]
    by (cases p) (auto intro!: at simp: defs start_process_def OperationsWithPrefix_def Let_def jammed_reply jammed_answered
        jammed_def[of s] split: op_call.splits)
qed

interpretation jam_run: machine "op_exec canonicalHash" "\<lambda>s. op_inv s \<and> jammed s \<and> quiet_since log s" "\<lambda>p. p \<noteq> Stop_process"
  for canonicalHash log
  by unfold_locales (use exec_inv jammed_step in blast)

text \<open>A result over the limit of the database fills a journal of one entry.\<close>

definition oversized_run :: "op_step list" where
  "oversized_run =
     [Start_process Fine False 1 10 0, sample_begin 1,
      Run_returns 0 \<lparr>oc_result = replicate 65537 CHR ''x'', oc_error = []\<rparr> 2, Finish_call 0]"



section \<open>Names that stop the exec manager\<close>

datatype exec_error = ErrExecInvalid | ErrExecStore operation_error

text \<open>\<^verbatim>\<open>strings.TrimPrefix\<close>.\<close>

definition trim_prefix :: "string \<Rightarrow> string \<Rightarrow> string" where
  "trim_prefix p s = (if take (length p) s = p then drop (length p) s else s)"

definition validID :: "string \<Rightarrow> bool" where
  "validID value \<longleftrightarrow>
     8 \<le> length value \<and> length value \<le> 128 \<and>
     list_all (\<lambda>r. r = CHR ''-'' \<or> r = CHR ''_'' \<or> between CHR ''a'' CHR ''z'' r \<or> between CHR ''A'' CHR ''Z'' r \<or>
       between CHR ''0'' CHR ''9'' r) value"

text \<open>
  \<^verbatim>\<open>executionFromRecord\<close> and \<^verbatim>\<open>load\<close>, as far as they decide whether the manager starts. JSON is a
  parameter: \<open>terminal_snapshot\<close> says that a stored result is a terminal snapshot of this
  operation, \<open>uncertain\<close> is the encoding of the snapshot for an operation cut off by a restart.
\<close>

definition executionFromRecord ::
  "(bytes \<Rightarrow> string \<Rightarrow> bool) \<Rightarrow> (string \<Rightarrow> bytes) \<Rightarrow> (nat \<Rightarrow> answer \<times> bool \<times> bool) \<Rightarrow> int \<Rightarrow> int \<Rightarrow> op_row \<Rightarrow> op_db \<Rightarrow>
     (exec_error + string) \<times> op_db" where
  "executionFromRecord terminal_snapshot uncertain answers now retention row db =
     (let operationID = trim_prefix persistencePrefix (op_id row)
      in if operationID = op_id row \<or> \<not> validID operationID \<or> length (op_hash row) \<noteq> 32 then (Inl ErrExecInvalid, db)
         else if op_state row = ''completed''
         then (if terminal_snapshot (op_result row) operationID then Inr operationID else Inl ErrExecInvalid, db)
         else if op_state row = ''pending''
         then (case CompleteOperation answers
                      (row\<lparr>op_state := ''completed'', op_result := uncertain operationID, op_error := ''exec_start_uncertain'',
                           op_completed := Some now, op_expires := now + retention\<rparr>) db of
                 (Some e, db') \<Rightarrow> (Inl (ErrExecStore e), db')
               | (None, db') \<Rightarrow> (Inr operationID, db'))
         else (Inl ErrExecInvalid, db))"

fun load_executions ::
  "(op_row \<Rightarrow> op_db \<Rightarrow> (exec_error + string) \<times> op_db) \<Rightarrow> op_row list \<Rightarrow> op_db \<Rightarrow> (exec_error + string list) \<times> op_db" where
  "load_executions execution [] db = (Inr [], db)"
| "load_executions execution (row # rows) db =
     (case execution row db of
        (Inl e, db') \<Rightarrow> (Inl e, db')
      | (Inr i, db') \<Rightarrow>
          (case load_executions execution rows db' of
             (Inl e, db'') \<Rightarrow> (Inl e, db'')
           | (Inr order, db'') \<Rightarrow> (Inr (i # order), db'')))"

definition exec_manager_load ::
  "(op_row \<Rightarrow> op_db \<Rightarrow> (exec_error + string) \<times> op_db) \<Rightarrow> answer \<Rightarrow> bool \<Rightarrow> int \<Rightarrow> nat \<Rightarrow> op_db \<Rightarrow>
     (exec_error + string list) \<times> op_db" where
  "exec_manager_load execution delete fault now limit db =
     (case OperationsWithPrefix delete fault persistencePrefix now limit db of
        (Inl e, db') \<Rightarrow> (Inl (ErrExecStore e), db')
      | (Inr rows, db') \<Rightarrow> load_executions execution rows db')"

text \<open>One row that is not its own is enough to fail.\<close>

lemma load_executions_fails:
  assumes "row \<in> set rows" and "\<And>db. \<exists>e db'. execution row db = (Inl e, db')"
  shows "\<exists>e db'. load_executions execution rows db = (Inl e, db')"
  using assms(1)
proof (induction rows arbitrary: db)
  case (Cons r rows)
  show ?case
  proof (cases "r = row")
    case True
    then show ?thesis using assms(2)[of db] by auto
  next
    case False
    obtain v db1 where v: "execution r db = (v, db1)" by fastforce
    obtain e db2 where "load_executions execution rows db1 = (Inl e, db2)" using Cons False by (metis set_ConsD)
    then show ?thesis by (cases v) (simp_all add: v)
  qed
qed simp

lemma lower_exec: "map lower_ascii ''EXEC:'' = map lower_ascii persistencePrefix"
  by code_simp


text \<open>A client runs an operation under such a name.\<close>

definition named_run :: "op_step list" where
  "named_run =
     [Start_process Fine False 4 10 0,
      Begin_call \<lparr>be_now = 1, be_cleanup = Fine, be_reserveNow = 1, be_insert = Fine, be_select = False\<rparr> ''EXEC:operation'' ''request'',
      Run_returns 0 sample_outcome 3, Try_complete 0 Fine, Finish_call 0]"

lemma named_rows:
  "db_rows (os_db (fold (op_exec Some) named_run new_op_sys)) =
     [(''EXEC:operation'', completed_row ''EXEC:operation'' ''request'' sample_outcome 3 10)]"
  by (simp add: named_run_def op_run_defs)


end
