(* ===== verification/Spec2Isabelle.thy ===== *)
theory Spec2Isabelle
  imports Manager_Recovery Terminal_Wire Negotiation Resumable_Limits Operation_Limits
begin

text \<open>
  Verification of the terminal-session core of paperboat.
\<close>

end
